(* ===== verification/Nss_Prelude.thy ===== *)
theory Nss_Prelude
  imports Main "HOL-Library.Word"
begin

text \<open>
  Shared vocabulary of the NSS development: machine integers at their C widths, the error
  codes of \<^verbatim>\<open>lib/util/secerr.h\<close> and \<^verbatim>\<open>lib/ssl/sslerr.h\<close> that the modelled functions set, the result type of a
  fallible C function, byte-addressed memory blocks whose out-of-range accesses are an explicit
  error, the allocation wrappers of \<^verbatim>\<open>lib/util/secport.c\<close> over the NSPR allocator, and
  big-endian numbers, which every wire format of the library uses.
\<close>

unbundle bit_operations_syntax

named_theorems mem_simps \<open>reading and writing memory blocks\<close>
named_theorems be_simps \<open>big-endian numbers\<close>

section \<open>Types\<close>

type_synonym byte = "8 word"
type_synonym u16 = "16 word"
type_synonym u32 = "32 word"
type_synonym u64 = "64 word"

text \<open>
  The error codes. \<open>NO_ERROR_SET\<close> stands for a failure return that sets no code;
  \<open>UNDEFINED_BEHAVIOUR\<close> is not an NSS code: it is the result of a memory access outside its
  block, which C leaves undefined and which the safety theorems exclude.
\<close>

datatype sec_error =
    SEC_ERROR_INVALID_ARGS
  | SEC_ERROR_BAD_DATA
  | SEC_ERROR_BAD_DER
  | SEC_ERROR_INPUT_LEN
  | SEC_ERROR_OUTPUT_LEN
  | SEC_ERROR_LIBRARY_FAILURE
  | SEC_ERROR_NO_MEMORY
  | SEC_ERROR_EXTRA_INPUT
  | SEC_ERROR_IO
  | SEC_ERROR_EXTENSION_NOT_FOUND
  | SSL_ERROR_BAD_CLIENT
  | SSL_ERROR_BAD_SERVER
  | SSL_ERROR_BAD_MAC_READ
  | SSL_ERROR_BAD_RESUMPTION_TOKEN_ERROR
  | SSL_ERROR_BAD_BLOCK_PADDING
  | SSL_ERROR_ENCRYPTION_FAILURE
  | SSL_ERROR_HANDSHAKE_FAILED
  | SSL_ERROR_RX_MALFORMED_ALERT
  | SSL_ERROR_RX_MALFORMED_CHANGE_CIPHER
  | SSL_ERROR_RX_MALFORMED_CLIENT_HELLO
  | SSL_ERROR_RX_MALFORMED_DTLS_ACK
  | SSL_ERROR_RX_MALFORMED_HANDSHAKE
  | SSL_ERROR_RX_RECORD_TOO_LONG
  | SSL_ERROR_RX_UNEXPECTED_APPLICATION_DATA
  | SSL_ERROR_RX_UNEXPECTED_CLIENT_HELLO
  | SSL_ERROR_RX_UNEXPECTED_HANDSHAKE
  | SSL_ERROR_RX_UNEXPECTED_RECORD_TYPE
  | SSL_ERROR_RX_UNEXPECTED_SERVER_HELLO
  | SSL_ERROR_RX_UNKNOWN_RECORD_TYPE
  | SSL_ERROR_SESSION_NOT_FOUND
  | SSL_ERROR_SOCKET_WRITE_FAILURE
  | SSL_ERROR_SYM_KEY_CONTEXT_FAILURE
  | SSL_ERROR_TOKEN_INSERTION_REMOVAL
  | SSL_ERROR_TOO_MANY_RECORDS
  | SSL_ERROR_TOO_MUCH_EARLY_DATA
  | PR_INVALID_ARGUMENT_ERROR
  | PR_BUFFER_OVERFLOW_ERROR
  | PR_IO_ERROR
  | PR_WOULD_BLOCK_ERROR
  | NO_ERROR_SET
  | UNDEFINED_BEHAVIOUR

type_synonym 'a result = "sec_error + 'a"

definition res_bind :: "'e + 'a \<Rightarrow> ('a \<Rightarrow> 'e + 'b) \<Rightarrow> 'e + 'b" where
  "res_bind m f = (case m of Inl e \<Rightarrow> Inl e | Inr x \<Rightarrow> f x)"

section \<open>Memory blocks\<close>

text \<open>
  A block is the list of its bytes. \<open>mem_write m off src\<close> is \<^verbatim>\<open>memcpy(m + off, src, n)\<close>
  with \<open>n\<close> the length of \<open>src\<close>; \<open>mem_read m off n\<close> reads \<open>n\<close> bytes at \<open>off\<close>.
\<close>

definition mem_write :: "byte list \<Rightarrow> nat \<Rightarrow> byte list \<Rightarrow> byte list result" where
  "mem_write m off src =
     (if off + length src \<le> length m
      then Inr (take off m @ src @ drop (off + length src) m)
      else Inl UNDEFINED_BEHAVIOUR)"

definition mem_read :: "byte list \<Rightarrow> nat \<Rightarrow> nat \<Rightarrow> byte list result" where
  "mem_read m off n =
     (if off + n \<le> length m then Inr (take n (drop off m)) else Inl UNDEFINED_BEHAVIOUR)"

text \<open>
  The NSPR allocators are not part of the library: they are functions from a size (and the old
  block) to the new block or to \<^verbatim>\<open>NULL\<close>, for the heap and for an arena pool. What NSPR
  documents of them is \<open>nspr_ok\<close>: a block has the size asked for, and reallocation or growth
  keeps the old contents up to the smaller size. Marks and releases of an arena only decide when its
  memory is reused; blocks here are values, so they have no counterpart in the model.
\<close>

record nspr =
  PR_Malloc :: "nat \<Rightarrow> byte list option"
  PR_Realloc :: "byte list \<Rightarrow> nat \<Rightarrow> byte list option"
  PR_Calloc :: "nat \<Rightarrow> byte list option"
  PL_ARENA_ALLOCATE :: "nat \<Rightarrow> byte list option"
  PL_ARENA_GROW :: "byte list \<Rightarrow> nat \<Rightarrow> nat \<Rightarrow> byte list option"

definition nspr_ok :: "nspr \<Rightarrow> bool" where
  "nspr_ok h \<longleftrightarrow>
     (\<forall>n m. PR_Malloc h n = Some m \<longrightarrow> length m = n) \<and>
     (\<forall>m n m'. PR_Realloc h m n = Some m' \<longrightarrow>
        length m' = n \<and> take (min n (length m)) m' = take (min n (length m)) m) \<and>
     (\<forall>n m. PR_Calloc h n = Some m \<longrightarrow> m = replicate n 0) \<and>
     (\<forall>n m. PL_ARENA_ALLOCATE h n = Some m \<longrightarrow> length m = n) \<and>
     (\<forall>m old incr m'. PL_ARENA_GROW h m old incr = Some m' \<longrightarrow> old \<le> length m \<longrightarrow>
        length m' = old + incr \<and> take old m' = take old m)"

definition MAX_SIZE :: nat where
  "MAX_SIZE = 0x7fffffff"

definition PORT_Alloc :: "nspr \<Rightarrow> nat \<Rightarrow> byte list result" where
  "PORT_Alloc h bytes =
     (case (if bytes \<le> MAX_SIZE then PR_Malloc h (if bytes \<noteq> 0 then bytes else 1) else None) of
        None \<Rightarrow> Inl SEC_ERROR_NO_MEMORY
      | Some rv \<Rightarrow> Inr rv)"

definition PORT_Realloc :: "nspr \<Rightarrow> byte list \<Rightarrow> nat \<Rightarrow> byte list result" where
  "PORT_Realloc h oldptr bytes =
     (case (if bytes \<le> MAX_SIZE then PR_Realloc h oldptr bytes else None) of
        None \<Rightarrow> Inl SEC_ERROR_NO_MEMORY
      | Some rv \<Rightarrow> Inr rv)"

definition PORT_ZAlloc :: "nspr \<Rightarrow> nat \<Rightarrow> byte list result" where
  "PORT_ZAlloc h bytes =
     (case (if bytes \<le> MAX_SIZE then PR_Calloc h (if bytes \<noteq> 0 then bytes else 1) else None) of
        None \<Rightarrow> Inl SEC_ERROR_NO_MEMORY
      | Some rv \<Rightarrow> Inr rv)"

definition PORT_ArenaAlloc :: "nspr \<Rightarrow> nat \<Rightarrow> byte list result" where
  "PORT_ArenaAlloc h sz =
     (let sz = (if sz = 0 then 1 else sz) in
      case (if sz > MAX_SIZE then None else PL_ARENA_ALLOCATE h sz) of
        None \<Rightarrow> Inl SEC_ERROR_NO_MEMORY
      | Some p \<Rightarrow> Inr p)"

definition PORT_ArenaZAlloc :: "nspr \<Rightarrow> nat \<Rightarrow> byte list result" where
  "PORT_ArenaZAlloc h sz =
     (let sz = (if sz = 0 then 1 else sz) in
      res_bind (PORT_ArenaAlloc h sz) (\<lambda>p. mem_write p 0 (replicate sz 0)))"

text \<open>A growth that fails inside NSPR sets no error code.\<close>

definition PORT_ArenaGrow :: "nspr \<Rightarrow> byte list \<Rightarrow> nat \<Rightarrow> nat \<Rightarrow> byte list result" where
  "PORT_ArenaGrow h ptr oldsize newsize =
     (if newsize > MAX_SIZE then Inl SEC_ERROR_NO_MEMORY
      else case PL_ARENA_GROW h ptr oldsize (newsize - oldsize) of
        None \<Rightarrow> Inl NO_ERROR_SET
      | Some p \<Rightarrow> Inr p)"

text \<open>An allocator that always succeeds and clears its blocks, for concrete evaluations.\<close>

definition zero_nspr :: nspr where
  "zero_nspr =
     \<lparr>PR_Malloc = (\<lambda>n. Some (replicate n 0)),
      PR_Realloc = (\<lambda>m n. Some (take n m @ replicate (n - length m) 0)),
      PR_Calloc = (\<lambda>n. Some (replicate n 0)),
      PL_ARENA_ALLOCATE = (\<lambda>n. Some (replicate n 0)),
      PL_ARENA_GROW = (\<lambda>m old incr. Some (take old m @ replicate incr 0))\<rparr>"

section \<open>Big-endian numbers\<close>

definition be_value :: "byte list \<Rightarrow> nat" where
  "be_value bs = foldl (\<lambda>a b. a * 256 + unat b) 0 bs"

primrec be_bytes :: "nat \<Rightarrow> nat \<Rightarrow> byte list" where
  "be_bytes 0 v = []"
| "be_bytes (Suc n) v = be_bytes n (v div 256) @ [word_of_nat v]"

section \<open>Lemmas: results and memory\<close>

lemma res_bind_simps [simp]:
  "res_bind (Inl e) f = Inl e"
  "res_bind (Inr x) f = f x"
  by (simp_all add: res_bind_def)

lemma res_bind_Inr_iff [simp]:
  "res_bind m f = Inr y \<longleftrightarrow> (\<exists>x. m = Inr x \<and> f x = Inr y)"
  by (cases m) auto

lemma res_bind_Inl_iff:
  "res_bind m f = Inl e \<longleftrightarrow> m = Inl e \<or> (\<exists>x. m = Inr x \<and> f x = Inl e)"
  by (cases m) auto

lemma mem_write_ok [mem_simps]:
  "off + length src \<le> length m \<Longrightarrow>
     mem_write m off src = Inr (take off m @ src @ drop (off + length src) m)"
  by (simp add: mem_write_def)

lemma mem_write_InrD:
  "mem_write m off src = Inr m' \<Longrightarrow>
     off + length src \<le> length m \<and> m' = take off m @ src @ drop (off + length src) m"
  by (simp add: mem_write_def split: if_splits)

lemma mem_write_length: "mem_write m off src = Inr m' \<Longrightarrow> length m' = length m"
  by (auto dest!: mem_write_InrD)

lemma mem_write_take:
  "mem_write m off src = Inr m' \<Longrightarrow> take (off + length src) m' = take off m @ src"
  by (auto dest!: mem_write_InrD)

lemma mem_read_ok [mem_simps]:
  "off + n \<le> length m \<Longrightarrow> mem_read m off n = Inr (take n (drop off m))"
  by (simp add: mem_read_def)

lemma PORT_Alloc_length:
  "nspr_ok h \<Longrightarrow> PORT_Alloc h n = Inr m \<Longrightarrow> length m = (if n = 0 then 1 else n) \<and> n \<le> MAX_SIZE"
  by (auto simp: PORT_Alloc_def nspr_ok_def split: option.splits if_splits)

lemma PORT_Realloc_ok:
  "nspr_ok h \<Longrightarrow> PORT_Realloc h m n = Inr m' \<Longrightarrow>
     length m' = n \<and> n \<le> MAX_SIZE \<and> take (min n (length m)) m' = take (min n (length m)) m"
  by (auto simp: PORT_Realloc_def nspr_ok_def split: option.splits if_splits)

lemma PORT_ArenaAlloc_length:
  "nspr_ok h \<Longrightarrow> PORT_ArenaAlloc h n = Inr m \<Longrightarrow> length m = (if n = 0 then 1 else n)"
  by (auto simp: PORT_ArenaAlloc_def nspr_ok_def Let_def split: option.splits if_splits)

lemma PORT_ArenaGrow_ok:
  "nspr_ok h \<Longrightarrow> PORT_ArenaGrow h m old new = Inr m' \<Longrightarrow> old \<le> length m \<Longrightarrow> old \<le> new \<Longrightarrow>
     length m' = new \<and> take old m' = take old m"
  by (fastforce simp: PORT_ArenaGrow_def nspr_ok_def split: option.splits if_splits)

lemma PORT_ArenaAlloc_error: "PORT_ArenaAlloc h n = Inl e \<Longrightarrow> e = SEC_ERROR_NO_MEMORY"
  by (simp add: PORT_ArenaAlloc_def Let_def split: option.splits if_splits)

lemma PORT_ZAlloc_error: "PORT_ZAlloc h n = Inl e \<Longrightarrow> e = SEC_ERROR_NO_MEMORY"
  by (simp add: PORT_ZAlloc_def split: option.splits if_splits)

lemma PORT_ArenaZAlloc_error:
  "nspr_ok h \<Longrightarrow> PORT_ArenaZAlloc h n = Inl e \<Longrightarrow> e = SEC_ERROR_NO_MEMORY"
  by (auto simp: PORT_ArenaZAlloc_def Let_def res_bind_Inl_iff mem_write_def
      dest: PORT_ArenaAlloc_error PORT_ArenaAlloc_length split: if_splits)

lemma PORT_Alloc_error: "PORT_Alloc h n = Inl e \<Longrightarrow> e = SEC_ERROR_NO_MEMORY"
  by (simp add: PORT_Alloc_def split: option.splits if_splits)

lemma PORT_Realloc_error: "PORT_Realloc h m n = Inl e \<Longrightarrow> e = SEC_ERROR_NO_MEMORY"
  by (simp add: PORT_Realloc_def split: option.splits if_splits)

lemma zero_nspr_ok: "nspr_ok zero_nspr"
  by (auto simp: nspr_ok_def zero_nspr_def min_def)

section \<open>Lemmas: words\<close>

lemma unat_drop_bit_div: "unat (drop_bit n w) = unat w div 2 ^ n"
  by (subst unat_drop_bit_eq) (rule drop_bit_eq_div)

lemma ucast_word_of_nat: "(ucast (w :: 'a::len word) :: 'b::len word) = word_of_nat (unat w)"
  by simp

lemma unat_ucast_le:
  "LENGTH('a) \<le> LENGTH('b) \<Longrightarrow> unat (ucast (w :: 'a::len word) :: 'b::len word) = unat w"
proof -
  assume le: "LENGTH('a) \<le> LENGTH('b)"
  have "unat w < 2 ^ LENGTH('a)" by (rule unsigned_less)
  also have "(2 :: nat) ^ LENGTH('a) \<le> 2 ^ LENGTH('b)" using le by (simp add: power_increasing)
  finally show ?thesis by (simp add: unsigned_ucast_eq take_bit_nat_eq_self)
qed

lemma unat_plus_no_wrap:
  "unat (a :: 'a::len word) + unat b < 2 ^ LENGTH('a) \<Longrightarrow> unat (a + b) = unat a + unat b"
  by (simp add: unat_add_lem)

lemma unat_mod_word: "unat (a mod b :: 'a::len word) = unat a mod unat b"
  by (rule unat_mod_distrib) 
lemma unat_div_word: "unat (a div b :: 'a::len word) = unat a div unat b"
  by (rule unat_div_distrib)



lemma unat_or_disjoint: "(a :: 'a::len word) AND b = 0 \<Longrightarrow> unat (a OR b) = unat a + unat b"
proof -
  assume "a AND b = 0"
  then have "unat a AND unat b = 0" by (metis unsigned_0 unsigned_and_eq)
  then show ?thesis by (simp add: unsigned_or_eq disjunctive_add_eq_or)
qed

lemma unat_and_mask: "unat ((a :: 'a::len word) AND mask k) = unat a mod 2 ^ k"
  unfolding take_bit_eq_mask [symmetric] unsigned_take_bit_eq by (rule take_bit_eq_mod)

lemma unat_replace_low:
  fixes a p :: "'a::len word"
  assumes "unat p < 2 ^ k"
  shows "unat ((a AND NOT (mask k)) OR p) = 2 ^ k * (unat a div 2 ^ k) + unat p"
proof -
  have p: "p = p AND mask k"
    using assms by (simp add: word_unat_eq_iff unat_and_mask)
  have "(a AND NOT (mask k)) AND (a AND mask k) = 0" "(a AND NOT (mask k)) OR (a AND mask k) = a"
    by (auto intro!: bit_word_eqI simp: bit_simps)
  then have "unat (a AND NOT (mask k)) + unat a mod 2 ^ k = unat a"
    using unat_or_disjoint [of "a AND NOT (mask k)" "a AND mask k"] by (simp add: unat_and_mask)
  then have "unat (a AND NOT (mask k)) = 2 ^ k * (unat a div 2 ^ k)"
    using mult_div_mod_eq [of "2 ^ k" "unat a"] by linarith
  moreover have "(a AND NOT (mask k)) AND p = 0"
    by (subst p) (auto intro!: bit_word_eqI simp: bit_simps)
  ultimately show ?thesis by (simp add: unat_or_disjoint)
qed

section \<open>Lemmas: big-endian numbers\<close>

lemma be_value_Nil [simp]: "be_value [] = 0"
  by (simp add: be_value_def)

lemma be_value_snoc [simp]: "be_value (bs @ [b]) = be_value bs * 256 + unat b"
  by (simp add: be_value_def)

lemma be_value_append: "be_value (as @ bs) = be_value as * 256 ^ length bs + be_value bs"
proof (induction bs rule: rev_induct)
  case Nil
  then show ?case by simp
next
  case (snoc b bs)
  have "be_value (as @ bs @ [b]) = be_value (as @ bs) * 256 + unat b"
    by (metis append_assoc be_value_snoc)
  with snoc show ?case by (simp add: algebra_simps)
qed

lemma be_value_single [simp]: "be_value [b] = unat b"
  by (simp add: be_value_def)

lemma be_value_Cons [be_simps]: "be_value (b # bs) = unat b * 256 ^ length bs + be_value bs"
  using be_value_append [of "[b]" bs] by simp

lemma unat_byte_less [simp]: "unat (b :: byte) < 256"
  using unsigned_less [of b, where 'a = nat] by simp

lemma be_value_less: "be_value bs < 256 ^ length bs"
proof (induction bs rule: rev_induct)
  case Nil
  then show ?case by simp
next
  case (snoc b bs)
  from snoc have "be_value bs * 256 + 256 \<le> 256 * 256 ^ length bs"
    using mult_le_mono1 [of "Suc (be_value bs)" "256 ^ length bs" 256] by simp
  moreover have "unat b < 256" by (rule unat_byte_less)
  ultimately show ?case by (simp only: length_append_singleton power_Suc be_value_snoc)
qed

lemma length_be_bytes [simp]: "length (be_bytes n v) = n"
  by (induction n arbitrary: v) auto

lemma be_bytes_numeral:
  "be_bytes (numeral k) v = be_bytes (pred_numeral k) (v div 256) @ [word_of_nat v]"
  by (subst numeral_eq_Suc) (rule be_bytes.simps(2))

lemma replicate_numeral_Cons: "replicate (numeral k) x = x # replicate (pred_numeral k) x"
  by (simp add: numeral_eq_Suc)

lemma be_value_be_bytes [be_simps]: "be_value (be_bytes n v) = v mod 256 ^ n"
proof (induction n arbitrary: v)
  case 0
  then show ?case by simp
next
  case (Suc n)
  then show ?case
    by (simp add: mod_mult2_eq unat_of_nat take_bit_eq_mod algebra_simps)
qed

lemma be_bytes_be_value [be_simps]: "be_bytes (length bs) (be_value bs) = bs"
proof (induction bs rule: rev_induct)
  case Nil
  then show ?case by simp
next
  case (snoc b bs)
  have "(be_value bs * 256 + unat b) div 256 = be_value bs" by simp
  moreover have "(word_of_nat (be_value bs * 256 + unat b) :: byte) = b"
    by (rule unsigned_word_eqI [where 'a = nat]) (simp only: unat_of_nat, simp)
  ultimately show ?case using snoc by simp
qed

lemma be_bytes_nth:
  "i < n \<Longrightarrow> be_bytes n v ! i = word_of_nat (v div 256 ^ (n - 1 - i))"
proof (induction n arbitrary: v)
  case 0
  then show ?case by simp
next
  case (Suc n)
  show ?case
  proof (cases "i = n")
    case True
    then show ?thesis by (simp add: nth_append)
  next
    case False
    with Suc.prems have i: "i < n" by simp
    then have "n - i = Suc (n - 1 - i)" by simp
    then have "v div 256 div 256 ^ (n - 1 - i) = v div 256 ^ (n - i)"
      by (simp add: div_mult2_eq)
    with i Suc.IH [of "v div 256"] show ?thesis by (simp add: nth_append)
  qed
qed

lemma be_bytes_drop: "k \<le> n \<Longrightarrow> drop (n - k) (be_bytes n v) = be_bytes k v"
  by (rule nth_equalityI) (auto simp: be_bytes_nth)

lemma be_value_inject: "length as = length bs \<Longrightarrow> be_value as = be_value bs \<Longrightarrow> as = bs"
  by (metis be_bytes_be_value)

end
