(* ===== verification/Ssl_Encode.thy ===== *)
theory Ssl_Encode
  imports Nss_Prelude
begin

text \<open>
  The message assembly buffer and the bounds-checked reader of \<^verbatim>\<open>lib/ssl/sslencode.c\<close>,
  on which every TLS message writer and parser of the library is built.

  An \<open>sslBuffer\<close> is a block of \<open>space\<close> bytes of which the first \<open>len\<close> are written;
  \<open>fixed\<close> buffers never grow. All lengths are C \<^verbatim>\<open>unsigned int\<close>: sums of them wrap.
  A reader is a view of \<open>len\<close> bytes with an offset. Null pointer arguments for the objects
  themselves are out of scope: an operation is applied to an object.
\<close>

section \<open>The buffer\<close>

record sslBuffer =
  sb_buf :: "byte list option"
  sb_len :: u32
  sb_space :: u32
  sb_fixed :: bool

definition SSL_BUFFER_EMPTY :: sslBuffer where
  "SSL_BUFFER_EMPTY = \<lparr>sb_buf = None, sb_len = 0, sb_space = 0, sb_fixed = False\<rparr>"

definition SSL_BUFFER_FIXED :: "byte list \<Rightarrow> u32 \<Rightarrow> sslBuffer" where
  "SSL_BUFFER_FIXED b maxlen = \<lparr>sb_buf = Some b, sb_len = 0, sb_space = maxlen, sb_fixed = True\<rparr>"

text \<open>
  \<^verbatim>\<open>PR_htonll\<close> lays the 64-bit value out in network byte order; the last \<open>bytes\<close>
  of its eight bytes are copied.
\<close>

definition PR_htonll :: "u64 \<Rightarrow> byte list" where
  "PR_htonll v = map (\<lambda>i. ucast (drop_bit (8 * (7 - i)) v)) [0..<8]"

definition ssl_EncodeUintX :: "u64 \<Rightarrow> nat \<Rightarrow> byte list" where
  "ssl_EncodeUintX value bytes = take bytes (drop (8 - bytes) (PR_htonll value))"

definition sslBuffer_Grow :: "nspr \<Rightarrow> sslBuffer \<Rightarrow> u32 \<Rightarrow> sslBuffer result" where
  "sslBuffer_Grow h b newLen =
     (if sb_fixed b then
        (if newLen > sb_space b then Inl SEC_ERROR_LIBRARY_FAILURE else Inr b)
      else if newLen > sb_space b then
        (let newLen' = max newLen (sb_space b + 2048) in
         res_bind (case sb_buf b of
                     Some m \<Rightarrow> PORT_Realloc h m (unat newLen')
                   | None \<Rightarrow> PORT_Alloc h (unat newLen'))
           (\<lambda>newBuf. Inr (b\<lparr>sb_buf := Some newBuf, sb_space := newLen'\<rparr>)))
      else Inr b)"

text \<open>
  \<open>sslBuffer_put b off src\<close> is the \<^verbatim>\<open>memcpy\<close> to \<^verbatim>\<open>b->buf + off\<close> the operations
  make. A write of no bytes touches no memory; a write through a null pointer is undefined.
\<close>

definition sslBuffer_put :: "sslBuffer \<Rightarrow> nat \<Rightarrow> byte list \<Rightarrow> sslBuffer result" where
  "sslBuffer_put b off src =
     (if src = [] then Inr b
      else case sb_buf b of
        None \<Rightarrow> Inl UNDEFINED_BEHAVIOUR
      | Some m \<Rightarrow> res_bind (mem_write m off src) (\<lambda>m'. Inr (b\<lparr>sb_buf := Some m'\<rparr>)))"

definition sslBuffer_Fill :: "nspr \<Rightarrow> sslBuffer \<Rightarrow> byte \<Rightarrow> u64 \<Rightarrow> sslBuffer result" where
  "sslBuffer_Fill h b c len =
     res_bind (sslBuffer_Grow h b (ucast (ucast (sb_len b) + len)))
       (\<lambda>b. res_bind (if len > 0
                      then sslBuffer_put b (unat (sb_len b)) (replicate (unat len) c)
                      else Inr b)
         (\<lambda>b. Inr (b\<lparr>sb_len := sb_len b + ucast len\<rparr>)))"

definition sslBuffer_Append ::
    "nspr \<Rightarrow> sslBuffer \<Rightarrow> byte list \<Rightarrow> u32 \<Rightarrow> sslBuffer result" where
  "sslBuffer_Append h b data len =
     res_bind (sslBuffer_Grow h b (sb_len b + len))
       (\<lambda>b. res_bind (if len > 0
                      then res_bind (mem_read data 0 (unat len))
                             (sslBuffer_put b (unat (sb_len b)))
                      else Inr b)
         (\<lambda>b. Inr (b\<lparr>sb_len := sb_len b + len\<rparr>)))"

definition sslBuffer_AppendNumber ::
    "nspr \<Rightarrow> sslBuffer \<Rightarrow> u64 \<Rightarrow> u32 \<Rightarrow> sslBuffer result" where
  "sslBuffer_AppendNumber h b v sz =
     res_bind (sslBuffer_Grow h b (sb_len b + sz))
       (\<lambda>b. res_bind (sslBuffer_put b (unat (sb_len b)) (ssl_EncodeUintX v (unat sz)))
         (\<lambda>b. Inr (b\<lparr>sb_len := sb_len b + sz\<rparr>)))"

definition sslBuffer_AppendVariable ::
    "nspr \<Rightarrow> sslBuffer \<Rightarrow> byte list \<Rightarrow> u32 \<Rightarrow> u32 \<Rightarrow> sslBuffer result" where
  "sslBuffer_AppendVariable h b data len sz =
     (if unat len \<ge> 2 ^ (8 * unat sz) then Inl SEC_ERROR_LIBRARY_FAILURE
      else res_bind (sslBuffer_Grow h b (sb_len b + len + sz))
       (\<lambda>b. res_bind (sslBuffer_put b (unat (sb_len b)) (ssl_EncodeUintX (ucast len) (unat sz)))
         (\<lambda>b. let b = b\<lparr>sb_len := sb_len b + sz\<rparr> in
            res_bind (if len \<noteq> 0
                      then res_bind (mem_read data 0 (unat len))
                             (sslBuffer_put b (unat (sb_len b)))
                      else Inr b)
              (\<lambda>b. Inr (b\<lparr>sb_len := sb_len b + len\<rparr>)))))"

definition sslBuffer_AppendBuffer :: "nspr \<Rightarrow> sslBuffer \<Rightarrow> sslBuffer \<Rightarrow> sslBuffer result" where
  "sslBuffer_AppendBuffer h b app =
     sslBuffer_Append h b (case sb_buf app of None \<Rightarrow> [] | Some m \<Rightarrow> m) (sb_len app)"

definition sslBuffer_AppendBufferVariable ::
    "nspr \<Rightarrow> sslBuffer \<Rightarrow> sslBuffer \<Rightarrow> u32 \<Rightarrow> sslBuffer result" where
  "sslBuffer_AppendBufferVariable h b app sz =
     sslBuffer_AppendVariable h b (case sb_buf app of None \<Rightarrow> [] | Some m \<Rightarrow> m)
       (sb_len app) sz"

text \<open>The result pairs the buffer with the saved offset.\<close>

definition sslBuffer_Skip :: "nspr \<Rightarrow> sslBuffer \<Rightarrow> u32 \<Rightarrow> (sslBuffer \<times> u32) result" where
  "sslBuffer_Skip h b sz =
     res_bind (sslBuffer_Grow h b (sb_len b + sz))
       (\<lambda>b. Inr (b\<lparr>sb_len := sb_len b + sz\<rparr>, sb_len b))"

definition sslBuffer_InsertLength :: "sslBuffer \<Rightarrow> u32 \<Rightarrow> u32 \<Rightarrow> sslBuffer result" where
  "sslBuffer_InsertLength b at sz =
     (let len = sb_len b - (at + sz) in
      if unat len \<ge> 2 ^ (8 * unat sz) then Inl SEC_ERROR_LIBRARY_FAILURE
      else sslBuffer_put b (unat at) (ssl_EncodeUintX (ucast len) (unat sz)))"

definition sslBuffer_InsertNumber :: "sslBuffer \<Rightarrow> u32 \<Rightarrow> u64 \<Rightarrow> u32 \<Rightarrow> sslBuffer result" where
  "sslBuffer_InsertNumber b at v sz =
     (if unat v \<ge> 2 ^ (8 * unat sz) then Inl SEC_ERROR_LIBRARY_FAILURE
      else sslBuffer_put b (unat at) (ssl_EncodeUintX v (unat sz)))"

definition sslBuffer_Clear :: "sslBuffer \<Rightarrow> sslBuffer" where
  "sslBuffer_Clear b =
     (let b = (if \<not> sb_fixed b then b\<lparr>sb_buf := None, sb_space := 0\<rparr> else b)
      in b\<lparr>sb_len := 0\<rparr>)"

definition sslBuffer_ZeroClear :: "sslBuffer \<Rightarrow> sslBuffer result" where
  "sslBuffer_ZeroClear b =
     res_bind (case sb_buf b of
                 Some m \<Rightarrow> res_bind (mem_write m 0 (replicate (unat (sb_space b)) 0))
                             (\<lambda>m'. Inr (b\<lparr>sb_buf := Some m'\<rparr>))
               | None \<Rightarrow> Inr b)
       (\<lambda>b. Inr (sslBuffer_Clear b))"

section \<open>The reader\<close>

record sslReader =
  rd_buf :: "byte list"
  rd_len :: u32
  rd_offset :: u32

definition SSL_READER :: "byte list \<Rightarrow> u32 \<Rightarrow> sslReader" where
  "SSL_READER b l = \<lparr>rd_buf = b, rd_len = l, rd_offset = 0\<rparr>"

text \<open>
  The out parameter of a read is the slice it points to; it is paired with the advanced reader.
  \<^verbatim>\<open>sslRead_ReadVariable\<close> of an empty variable leaves the out pointer alone and sets its
  length to 0: the empty slice.
\<close>

definition sslRead_Read :: "sslReader \<Rightarrow> u32 \<Rightarrow> (sslReader \<times> byte list) result" where
  "sslRead_Read reader count =
     (if rd_len reader < rd_offset reader \<or> count > rd_len reader - rd_offset reader
      then Inl SEC_ERROR_BAD_DATA
      else res_bind (mem_read (rd_buf reader) (unat (rd_offset reader)) (unat count))
             (\<lambda>out. Inr (reader\<lparr>rd_offset := rd_offset reader + count\<rparr>, out)))"

definition sslRead_ReadNumber :: "sslReader \<Rightarrow> u32 \<Rightarrow> (sslReader \<times> u64) result" where
  "sslRead_ReadNumber reader bytes =
     (if rd_len reader < rd_offset reader \<or> bytes > rd_len reader - rd_offset reader \<or> bytes > 8
      then Inl SEC_ERROR_BAD_DATA
      else res_bind (mem_read (rd_buf reader) (unat (rd_offset reader)) (unat bytes))
             (\<lambda>bs. Inr (reader\<lparr>rd_offset := rd_offset reader + bytes\<rparr>,
                        foldl (\<lambda>number b. push_bit 8 number + ucast b) 0 bs)))"

definition sslRead_ReadVariable :: "sslReader \<Rightarrow> u32 \<Rightarrow> (sslReader \<times> byte list) result" where
  "sslRead_ReadVariable reader sizeLen =
     (case sslRead_ReadNumber reader sizeLen of
        Inl _ \<Rightarrow> Inl SEC_ERROR_BAD_DATA
      | Inr (reader, variableLen) \<Rightarrow>
          (if variableLen = 0 then Inr (reader, [])
           else sslRead_Read reader (ucast variableLen)))"

section \<open>Encoded integers\<close>

lemma PR_htonll_be_bytes: "PR_htonll v = be_bytes 8 (unat v)"
proof (rule nth_equalityI)
  fix i :: nat
  assume "i < length (PR_htonll v)"
  then have i: "i < 8" by (simp add: PR_htonll_def)
  have "unat (drop_bit (8 * (7 - i)) v) = unat v div 256 ^ (7 - i)"
    by (simp add: unat_drop_bit_div power_mult)
  then have "(ucast (drop_bit (8 * (7 - i)) v) :: byte) = word_of_nat (unat v div 256 ^ (7 - i))"
    by (simp only: ucast_word_of_nat)
  with i show "PR_htonll v ! i = be_bytes 8 (unat v) ! i"
    by (simp add: PR_htonll_def be_bytes_nth)
qed (simp add: PR_htonll_def)

lemma ssl_EncodeUintX_be_bytes:
  "bytes \<le> 8 \<Longrightarrow> ssl_EncodeUintX v bytes = be_bytes bytes (unat v)"
  by (simp add: ssl_EncodeUintX_def PR_htonll_be_bytes be_bytes_drop)


section \<open>Buffer invariant and contents\<close>

definition sslBuffer_inv :: "sslBuffer \<Rightarrow> bool" where
  "sslBuffer_inv b \<longleftrightarrow>
     (case sb_buf b of
        None \<Rightarrow> sb_space b = 0
      | Some m \<Rightarrow> length m = unat (sb_space b)) \<and> sb_len b \<le> sb_space b"

definition sslBuffer_contents :: "sslBuffer \<Rightarrow> byte list" where
  "sslBuffer_contents b = take (unat (sb_len b)) (case sb_buf b of None \<Rightarrow> [] | Some m \<Rightarrow> m)"

text \<open>
  What an appending operation promises: it fails with one of the two codes the buffer code sets,
  or it keeps the invariant and adds exactly \<open>src\<close> to the contents. In particular it never
  writes outside the block.
\<close>

definition sslBuffer_appends :: "sslBuffer \<Rightarrow> byte list \<Rightarrow> sslBuffer result \<Rightarrow> bool" where
  "sslBuffer_appends b src r \<longleftrightarrow>
     (case r of
        Inl e \<Rightarrow> e = SEC_ERROR_NO_MEMORY \<or> e = SEC_ERROR_LIBRARY_FAILURE
      | Inr b' \<Rightarrow> sslBuffer_inv b' \<and> sslBuffer_contents b' = sslBuffer_contents b @ src \<and>
                 sb_fixed b' = sb_fixed b)"

lemma length_sslBuffer_contents:
  "sslBuffer_inv b \<Longrightarrow> length (sslBuffer_contents b) = unat (sb_len b)"
  by (auto simp: sslBuffer_inv_def sslBuffer_contents_def word_le_nat_alt split: option.splits)

lemma sslBuffer_inv_SSL_BUFFER_EMPTY: "sslBuffer_inv SSL_BUFFER_EMPTY"
  by (simp add: sslBuffer_inv_def SSL_BUFFER_EMPTY_def)

lemma sslBuffer_inv_SSL_BUFFER_FIXED:
  "length m = unat n \<Longrightarrow> sslBuffer_inv (SSL_BUFFER_FIXED m n)"
  by (simp add: sslBuffer_inv_def SSL_BUFFER_FIXED_def)

lemma sslBuffer_Grow_error:
  "sslBuffer_Grow h b n = Inl e \<Longrightarrow> e = SEC_ERROR_NO_MEMORY \<or> e = SEC_ERROR_LIBRARY_FAILURE"
  by (auto simp: sslBuffer_Grow_def Let_def res_bind_Inl_iff
      split: if_splits option.splits dest: PORT_Alloc_error PORT_Realloc_error)

lemma sslBuffer_Grow_ok:
  assumes h: "nspr_ok h" and inv: "sslBuffer_inv b" and ret: "sslBuffer_Grow h b n = Inr b'"
  shows "sslBuffer_inv b' \<and> sslBuffer_contents b' = sslBuffer_contents b \<and>
         sb_len b' = sb_len b \<and> sb_fixed b' = sb_fixed b \<and> n \<le> sb_space b'"
proof (cases "sb_fixed b \<or> n \<le> sb_space b")
  case True
  with ret have "b' = b \<and> n \<le> sb_space b"
    by (auto simp: sslBuffer_Grow_def split: if_splits)
  with inv show ?thesis by simp
next
  case False
  then have F: "\<not> sb_fixed b" "sb_space b < n" by auto
  define n' where "n' = max n (sb_space b + 2048)"
  have n': "n \<le> n'" "sb_space b < n'"
    using F by (auto simp: n'_def less_max_iff_disj)
  from n'(2) have lt: "unat (sb_space b) < unat n'" by (simp add: word_less_nat_alt)
  show ?thesis
  proof (cases "sb_buf b")
    case None
    with ret F obtain m where m: "PORT_Alloc h (unat n') = Inr m"
      and b': "b' = b\<lparr>sb_buf := Some m, sb_space := n'\<rparr>"
      by (auto simp: sslBuffer_Grow_def Let_def n'_def)
    have "length m = unat n'"
      using PORT_Alloc_length [OF h m] lt by (simp split: if_splits)
    moreover have "sb_len b = 0"
      using inv None by (auto simp: sslBuffer_inv_def word_le_nat_alt unat_eq_0)
    ultimately show ?thesis
      using None n' by (simp add: b' sslBuffer_inv_def sslBuffer_contents_def)
  next
    case (Some m0)
    with ret F obtain m where m: "PORT_Realloc h m0 (unat n') = Inr m"
      and b': "b' = b\<lparr>sb_buf := Some m, sb_space := n'\<rparr>"
      by (auto simp: sslBuffer_Grow_def Let_def n'_def)
    from inv Some have len: "length m0 = unat (sb_space b)" "unat (sb_len b) \<le> unat (sb_space b)"
      by (simp_all add: sslBuffer_inv_def word_le_nat_alt)
    from PORT_Realloc_ok [OF h m] lt len have "length m = unat n'"
      and pre: "take (unat (sb_space b)) m = take (unat (sb_space b)) m0" by simp_all
    from pre len(2) have "take (unat (sb_len b)) m = take (unat (sb_len b)) m0"
      by (metis take_take min.absorb1)
    with \<open>length m = unat n'\<close> Some n' lt len show ?thesis
      by (simp add: b' sslBuffer_inv_def sslBuffer_contents_def word_le_nat_alt)
  qed
qed

lemma sslBuffer_put_end:
  assumes inv: "sslBuffer_inv b"
    and room: "unat (sb_len b) + length src \<le> unat (sb_space b)"
    and n: "unat n = length src"
  shows "\<exists>b'. sslBuffer_put b (unat (sb_len b)) src = Inr b' \<and>
              sb_len b' = sb_len b \<and> sb_space b' = sb_space b \<and> sb_fixed b' = sb_fixed b \<and>
              sslBuffer_inv (b'\<lparr>sb_len := sb_len b + n\<rparr>) \<and>
              sslBuffer_contents (b'\<lparr>sb_len := sb_len b + n\<rparr>) = sslBuffer_contents b @ src"
proof -
  have lt: "unat (sb_space b) < 2 ^ 32" using unsigned_less [of "sb_space b", where 'a = nat] by simp
  with room n have sum: "unat (sb_len b + n) = unat (sb_len b) + length src"
    by (simp add: unat_plus_no_wrap)
  show ?thesis
  proof (cases "src = []")
    case True
    with n have "n = 0" by (simp add: unat_eq_0)
    with True inv show ?thesis by (simp add: sslBuffer_put_def)
  next
    case False
    with room have "sb_space b \<noteq> 0" by (cases src) auto
    with inv obtain m where m: "sb_buf b = Some m" "length m = unat (sb_space b)"
      by (auto simp: sslBuffer_inv_def split: option.splits)
    with room False show ?thesis
      by (auto simp: sslBuffer_put_def mem_simps sslBuffer_inv_def sslBuffer_contents_def
          word_le_nat_alt sum)
  qed
qed

text \<open>
  The shape all appending operations share: make room, write, advance. The hypothesis
  \<open>no_wrap\<close> is what the C code relies on without checking it.
\<close>

lemma sslBuffer_grow_put:
  assumes h: "nspr_ok h" and inv: "sslBuffer_inv b"
    and n: "unat n = length src" and no_wrap: "unat (sb_len b) + unat n < 2 ^ 32"
  shows "sslBuffer_appends b src
           (res_bind (sslBuffer_Grow h b (sb_len b + n))
              (\<lambda>b. res_bind (sslBuffer_put b (unat (sb_len b)) src)
                (\<lambda>b. Inr (b\<lparr>sb_len := sb_len b + n\<rparr>))))"
proof (cases "sslBuffer_Grow h b (sb_len b + n)")
  case (Inl e)
  then show ?thesis using sslBuffer_Grow_error by (fastforce simp: sslBuffer_appends_def)
next
  case (Inr b1)
  from sslBuffer_Grow_ok [OF h inv Inr] have b1: "sslBuffer_inv b1"
    "sslBuffer_contents b1 = sslBuffer_contents b" "sb_len b1 = sb_len b" "sb_fixed b1 = sb_fixed b"
    "sb_len b + n \<le> sb_space b1" by auto
  from b1(5) no_wrap n have "unat (sb_len b1) + length src \<le> unat (sb_space b1)"
    by (simp add: word_le_nat_alt unat_plus_no_wrap b1(3))
  from sslBuffer_put_end [OF b1(1) this n] b1 Inr show ?thesis
    by (auto simp: sslBuffer_appends_def)
qed


section \<open>The appending operations\<close>

lemma sslBuffer_put_Nil [simp]: "sslBuffer_put b off [] = Inr b"
  by (simp add: sslBuffer_put_def)

lemma sslBuffer_Append_appends:
  assumes "nspr_ok h" and "sslBuffer_inv b" and "unat len \<le> length data"
    and "unat (sb_len b) + unat len < 2 ^ 32"
  shows "sslBuffer_appends b (take (unat len) data) (sslBuffer_Append h b data len)"
proof -
  have n: "unat len = length (take (unat len) data)" using assms(3) by simp
  have "sslBuffer_Append h b data len =
      res_bind (sslBuffer_Grow h b (sb_len b + len))
        (\<lambda>b. res_bind (sslBuffer_put b (unat (sb_len b)) (take (unat len) data))
          (\<lambda>b. Inr (b\<lparr>sb_len := sb_len b + len\<rparr>)))"
    using assms(3) by (cases "len = 0")
      (simp_all add: sslBuffer_Append_def mem_simps word_neq_0_conv)
  with sslBuffer_grow_put [OF assms(1,2) n assms(4)] show ?thesis by simp
qed

lemma sslBuffer_AppendNumber_appends:
  assumes "nspr_ok h" and "sslBuffer_inv b" and "sz \<le> 8"
    and "unat (sb_len b) + unat sz < 2 ^ 32"
  shows "sslBuffer_appends b (be_bytes (unat sz) (unat v)) (sslBuffer_AppendNumber h b v sz)"
proof -
  have "unat sz \<le> 8" using assms(3) by (simp add: word_le_nat_alt)
  then have "sslBuffer_AppendNumber h b v sz =
      res_bind (sslBuffer_Grow h b (sb_len b + sz))
        (\<lambda>b. res_bind (sslBuffer_put b (unat (sb_len b)) (be_bytes (unat sz) (unat v)))
          (\<lambda>b. Inr (b\<lparr>sb_len := sb_len b + sz\<rparr>)))"
    by (simp add: sslBuffer_AppendNumber_def ssl_EncodeUintX_be_bytes)
  with sslBuffer_grow_put [OF assms(1,2) _ assms(4), of "be_bytes (unat sz) (unat v)"]
  show ?thesis by simp
qed

lemma sslBuffer_Fill_appends:
  assumes "nspr_ok h" and "sslBuffer_inv b" and "unat (sb_len b) + unat len < 2 ^ 32"
  shows "sslBuffer_appends b (replicate (unat len) c) (sslBuffer_Fill h b c len)"
proof -
  let ?n = "ucast len :: u32"
  have lt: "unat len < 2 ^ 32" using assms(3) by simp
  then have n: "unat ?n = length (replicate (unat len) c)"
    by (simp add: unsigned_ucast_eq take_bit_nat_eq_self)
  have "(ucast (ucast (sb_len b) + len) :: u32) = sb_len b + ?n"
    by (rule unsigned_word_eqI [where 'a = nat])
      (use assms(3) lt in \<open>simp add: unsigned_ucast_eq unat_plus_no_wrap unat_ucast_le
         take_bit_nat_eq_self\<close>)
  then have "sslBuffer_Fill h b c len =
      res_bind (sslBuffer_Grow h b (sb_len b + ?n))
        (\<lambda>b. res_bind (sslBuffer_put b (unat (sb_len b)) (replicate (unat len) c))
          (\<lambda>b. Inr (b\<lparr>sb_len := sb_len b + ?n\<rparr>)))"
    by (cases "len = 0") (simp_all add: sslBuffer_Fill_def word_neq_0_conv)
  with sslBuffer_grow_put [OF assms(1,2) n] n assms(3) show ?thesis by simp
qed

lemma sslBuffer_AppendVariable_appends:
  assumes h: "nspr_ok h" and inv: "sslBuffer_inv b" and len: "unat len \<le> length data"
    and sz: "sz \<le> 4"
    and no_wrap: "unat (sb_len b) + unat len + unat sz < 2 ^ 32"
  shows "sslBuffer_appends b (be_bytes (unat sz) (unat len) @ take (unat len) data)
           (sslBuffer_AppendVariable h b data len sz)"
proof (cases "unat len \<ge> 2 ^ (8 * unat sz)")
  case True
  then show ?thesis by (simp add: sslBuffer_AppendVariable_def sslBuffer_appends_def)
next
  case ok: False
  let ?hd = "be_bytes (unat sz) (unat len)" and ?tl = "take (unat len) data"
  have sz8: "unat sz \<le> 8" using sz by (simp add: word_le_nat_alt)
  have enc: "ssl_EncodeUintX (ucast len) (unat sz) = ?hd"
    using sz8 by (simp add: ssl_EncodeUintX_be_bytes unat_ucast_le)
  show ?thesis
  proof (cases "sslBuffer_Grow h b (sb_len b + len + sz)")
    case (Inl e)
    then show ?thesis
      using ok sslBuffer_Grow_error
      by (fastforce simp: sslBuffer_appends_def sslBuffer_AppendVariable_def)
  next
    case (Inr b1)
    from sslBuffer_Grow_ok [OF h inv Inr] have b1: "sslBuffer_inv b1"
      "sslBuffer_contents b1 = sslBuffer_contents b" "sb_len b1 = sb_len b"
      "sb_fixed b1 = sb_fixed b" "sb_len b + len + sz \<le> sb_space b1" by auto
    from b1(5) no_wrap have room: "unat (sb_len b1) + unat len + unat sz \<le> unat (sb_space b1)"
      by (simp add: word_le_nat_alt unat_plus_no_wrap b1(3))
    from room have "unat (sb_len b1) + length ?hd \<le> unat (sb_space b1)" by simp
    from sslBuffer_put_end [OF b1(1) this, of sz] obtain b2 where
      put1: "sslBuffer_put b1 (unat (sb_len b1)) ?hd = Inr b2" and
      b2: "sb_len b2 = sb_len b1" "sb_space b2 = sb_space b1" "sb_fixed b2 = sb_fixed b1" and
      inv2: "sslBuffer_inv (b2\<lparr>sb_len := sb_len b1 + sz\<rparr>)" and
      con2: "sslBuffer_contents (b2\<lparr>sb_len := sb_len b1 + sz\<rparr>) = sslBuffer_contents b1 @ ?hd"
      by auto
    let ?b2 = "b2\<lparr>sb_len := sb_len b1 + sz\<rparr>"
    have sum: "unat (sb_len b1 + sz) = unat (sb_len b1) + unat sz"
      using no_wrap b1(3) by (simp add: unat_plus_no_wrap)
    have "unat (sb_len ?b2) + length ?tl \<le> unat (sb_space ?b2)"
      using room len by (simp add: sum b2)
    from sslBuffer_put_end [OF inv2 this, of len] len obtain b3 where
      put2: "sslBuffer_put ?b2 (unat (sb_len ?b2)) ?tl = Inr b3" and
      b3: "sb_len b3 = sb_len ?b2" "sb_fixed b3 = sb_fixed b2" and
      inv3: "sslBuffer_inv (b3\<lparr>sb_len := sb_len ?b2 + len\<rparr>)" and
      con3: "sslBuffer_contents (b3\<lparr>sb_len := sb_len ?b2 + len\<rparr>) = sslBuffer_contents ?b2 @ ?tl"
      by auto
    have "sslBuffer_AppendVariable h b data len sz = Inr (b3\<lparr>sb_len := sb_len ?b2 + len\<rparr>)"
      using ok Inr put1 put2 b2 b3 len enc
      by (cases "len = 0")
        (simp_all add: sslBuffer_AppendVariable_def Let_def mem_simps)
    with inv3 con3 con2 b1 b2 b3 show ?thesis by (simp add: sslBuffer_appends_def)
  qed
qed


section \<open>Skipping and inserting lengths\<close>

lemma sslBuffer_put_inside:
  assumes inv: "sslBuffer_inv b" and in_range: "off + length src \<le> unat (sb_len b)"
  shows "\<exists>b'. sslBuffer_put b off src = Inr b' \<and> sslBuffer_inv b' \<and> sb_len b' = sb_len b \<and>
              sb_fixed b' = sb_fixed b \<and>
              sslBuffer_contents b' = take off (sslBuffer_contents b) @ src @
                                      drop (off + length src) (sslBuffer_contents b)"
proof (cases "src = []")
  case True
  with inv show ?thesis by simp
next
  case False
  with in_range have "0 < unat (sb_len b)" by (cases src) auto
  with inv obtain m where m: "sb_buf b = Some m" "length m = unat (sb_space b)"
    "unat (sb_len b) \<le> length m"
    by (auto simp: sslBuffer_inv_def word_le_nat_alt split: option.splits)
  moreover have "off < unat (sb_len b)" using False in_range by (cases src) auto
  ultimately show ?thesis using False in_range inv
    by (auto simp: sslBuffer_put_def mem_simps sslBuffer_inv_def sslBuffer_contents_def
        min_def drop_take)
qed

lemma sslBuffer_Skip_ok:
  assumes h: "nspr_ok h" and inv: "sslBuffer_inv b"
    and no_wrap: "unat (sb_len b) + unat sz < 2 ^ 32"
    and ret: "sslBuffer_Skip h b sz = Inr (b', at)"
  shows "sslBuffer_inv b' \<and> at = sb_len b \<and> sb_len b' = sb_len b + sz \<and> sb_fixed b' = sb_fixed b \<and>
         take (unat at) (sslBuffer_contents b') = sslBuffer_contents b"
proof -
  from ret obtain b1 where g: "sslBuffer_Grow h b (sb_len b + sz) = Inr b1"
    and b': "b' = b1\<lparr>sb_len := sb_len b1 + sz\<rparr>" "at = sb_len b1"
    by (auto simp: sslBuffer_Skip_def)
  from sslBuffer_Grow_ok [OF h inv g] have b1: "sslBuffer_inv b1"
    "sslBuffer_contents b1 = sslBuffer_contents b" "sb_len b1 = sb_len b" "sb_fixed b1 = sb_fixed b"
    "sb_len b + sz \<le> sb_space b1" by auto
  have sum: "unat (sb_len b + sz) = unat (sb_len b) + unat sz"
    using no_wrap by (simp add: unat_plus_no_wrap)
  have "take (unat (sb_len b)) (sslBuffer_contents b') = sslBuffer_contents b1"
    by (simp add: b' b1(3) sslBuffer_contents_def sum min_def)
  with b1 show ?thesis by (auto simp: b' sslBuffer_inv_def split: option.splits)
qed

text \<open>The documented protocol: skip the length, write the body, insert the length.\<close>

lemma sslBuffer_InsertLength_ok:
  assumes inv: "sslBuffer_inv b" and sz: "sz \<le> 4"
    and con: "sslBuffer_contents b = pre @ gap @ body"
    and at: "unat at = length pre" and gap: "unat sz = length gap"
  shows "if length body \<ge> 256 ^ unat sz
         then sslBuffer_InsertLength b at sz = Inl SEC_ERROR_LIBRARY_FAILURE
         else \<exists>b'. sslBuffer_InsertLength b at sz = Inr b' \<and> sslBuffer_inv b' \<and>
                   sb_fixed b' = sb_fixed b \<and>
                   sslBuffer_contents b' = pre @ be_bytes (unat sz) (length body) @ body"
proof -
  have len: "unat (sb_len b) = length pre + length gap + length body"
    using length_sslBuffer_contents [OF inv] con by simp
  have lt: "unat (sb_len b) < 2 ^ 32" using unsigned_less [of "sb_len b", where 'a = nat] by simp
  have sum: "unat (at + sz) = length pre + length gap"
    using len lt at gap by (simp add: unat_plus_no_wrap)
  then have "at + sz \<le> sb_len b" using len by (simp add: word_le_nat_alt)
  then have body: "unat (sb_len b - (at + sz)) = length body"
    using len sum by (simp add: unat_sub)
  have sz8: "unat sz \<le> 8" using sz by (simp add: word_le_nat_alt)
  then have enc: "ssl_EncodeUintX (ucast (sb_len b - (at + sz))) (unat sz) = be_bytes (unat sz) (length body)"
    by (simp add: ssl_EncodeUintX_be_bytes unat_ucast_le body)
  have pow: "(2 :: nat) ^ (8 * unat sz) = 256 ^ unat sz" by (simp add: power_mult)
  from sslBuffer_put_inside [OF inv, of "unat at" "be_bytes (unat sz) (length body)"] len at gap con
  show ?thesis
    unfolding sslBuffer_InsertLength_def Let_def body pow enc by auto
qed

section \<open>Buffers with room\<close>

text \<open>
  When the space left covers what is written, the operations neither allocate nor fail, on fixed and on
  growing buffers alike.
\<close>

definition sslBuffer_room :: "sslBuffer \<Rightarrow> nat \<Rightarrow> bool" where
  "sslBuffer_room b n \<longleftrightarrow> sslBuffer_inv b \<and> unat (sb_len b) + n \<le> unat (sb_space b)"

lemma sslBuffer_room_mono: "sslBuffer_room b n \<Longrightarrow> m \<le> n \<Longrightarrow> sslBuffer_room b m"
  by (simp add: sslBuffer_room_def)

lemma sslBuffer_room_len:
  "sslBuffer_room b n \<Longrightarrow> unat k \<le> n \<Longrightarrow> unat (sb_len b + k) = unat (sb_len b) + unat k"
  using unsigned_less [of "sb_space b", where 'a = nat]
  by (intro unat_plus_no_wrap) (simp add: sslBuffer_room_def)

lemma sslBuffer_Grow_room:
  assumes "sslBuffer_room b n" "unat k \<le> n"
  shows "sslBuffer_Grow h b (sb_len b + k) = Inr b"
proof -
  have "\<not> sb_len b + k > sb_space b"
    using assms sslBuffer_room_len [OF assms]
    by (simp add: sslBuffer_room_def word_less_nat_alt)
  then show ?thesis by (simp add: sslBuffer_Grow_def)
qed

lemma sslBuffer_put_room:
  assumes room: "sslBuffer_room b n" and src: "unat k = length src" "length src \<le> n"
  shows "\<exists>b'. sslBuffer_put b (unat (sb_len b)) src = Inr b' \<and> sb_len b' = sb_len b \<and>
           sb_space b' = sb_space b \<and> sslBuffer_room b' n \<and>
           sslBuffer_room (b'\<lparr>sb_len := sb_len b + k\<rparr>) (n - length src) \<and>
           sslBuffer_contents (b'\<lparr>sb_len := sb_len b + k\<rparr>) = sslBuffer_contents b @ src"
proof -
  have len: "unat (sb_len b + k) = unat (sb_len b) + length src"
    using sslBuffer_room_len [OF room, of k] src by simp
  obtain b' where b': "sslBuffer_put b (unat (sb_len b)) src = Inr b'"
    "sb_len b' = sb_len b" "sb_space b' = sb_space b"
    "sslBuffer_inv (b'\<lparr>sb_len := sb_len b + k\<rparr>)"
    "sslBuffer_contents (b'\<lparr>sb_len := sb_len b + k\<rparr>) = sslBuffer_contents b @ src"
    using sslBuffer_put_end [of b src k] room src by (auto simp: sslBuffer_room_def)
  then have "sslBuffer_inv b'"
    using room by (auto simp: sslBuffer_inv_def sslBuffer_room_def split: option.splits)
  then show ?thesis using b' room len src by (auto simp: sslBuffer_room_def)
qed

lemma sslBuffer_AppendNumber_room:
  assumes room: "sslBuffer_room b n" and sz: "sz \<le> 8" "unat sz \<le> n"
  shows "\<exists>b'. sslBuffer_AppendNumber h b v sz = Inr b' \<and> sslBuffer_room b' (n - unat sz) \<and>
           sb_len b' = sb_len b + sz \<and> sb_space b' = sb_space b \<and>
           sslBuffer_contents b' = sslBuffer_contents b @ be_bytes (unat sz) (unat v)"
  using sslBuffer_put_room [OF room, of sz "be_bytes (unat sz) (unat v)"] sz
  by (auto simp: sslBuffer_AppendNumber_def sslBuffer_Grow_room [OF room] word_le_nat_alt
      ssl_EncodeUintX_be_bytes)

lemma sslBuffer_Append_room:
  assumes room: "sslBuffer_room b n" and len: "unat len \<le> length data" "unat len \<le> n"
  shows "\<exists>b'. sslBuffer_Append h b data len = Inr b' \<and> sslBuffer_room b' (n - unat len) \<and>
           sslBuffer_contents b' = sslBuffer_contents b @ take (unat len) data"
proof (cases "len = 0")
  case True
  then show ?thesis using assms sslBuffer_Grow_room [OF room, of 0 h]
    by (simp add: sslBuffer_Append_def)
next
  case False
  then show ?thesis using sslBuffer_put_room [OF room, of len "take (unat len) data"] len
    by (auto simp: sslBuffer_Append_def sslBuffer_Grow_room [OF room] word_neq_0_conv mem_simps)
qed

lemma sslBuffer_Skip_room:
  assumes room: "sslBuffer_room b n" and len: "unat sz \<le> n"
  shows "sslBuffer_Skip h b sz = Inr (b\<lparr>sb_len := sb_len b + sz\<rparr>, sb_len b) \<and>
         sslBuffer_room (b\<lparr>sb_len := sb_len b + sz\<rparr>) (n - unat sz) \<and>
         (\<exists>gap. length gap = unat sz \<and>
            sslBuffer_contents (b\<lparr>sb_len := sb_len b + sz\<rparr>) = sslBuffer_contents b @ gap)"
proof -
  have room': "sslBuffer_room (b\<lparr>sb_len := sb_len b + sz\<rparr>) (n - unat sz)"
    using room len sslBuffer_room_len [OF room len]
    by (auto simp: sslBuffer_room_def sslBuffer_inv_def word_le_nat_alt split: option.splits)
  have "take (unat (sb_len b)) (sslBuffer_contents (b\<lparr>sb_len := sb_len b + sz\<rparr>)) = sslBuffer_contents b"
    by (simp add: sslBuffer_contents_def sslBuffer_room_len [OF room len] min_def)
  moreover have "length (sslBuffer_contents (b\<lparr>sb_len := sb_len b + sz\<rparr>)) = unat (sb_len b) + unat sz"
    using room' length_sslBuffer_contents [of "b\<lparr>sb_len := sb_len b + sz\<rparr>"] sslBuffer_room_len [OF room len]
    by (simp add: sslBuffer_room_def)
  ultimately have "\<exists>gap. length gap = unat sz \<and>
      sslBuffer_contents (b\<lparr>sb_len := sb_len b + sz\<rparr>) = sslBuffer_contents b @ gap"
    by (metis add_diff_cancel_left' append_take_drop_id length_drop)
  with room' show ?thesis by (simp add: sslBuffer_Skip_def sslBuffer_Grow_room [OF room len])
qed

section \<open>The reader\<close>

definition sslReader_inv :: "sslReader \<Rightarrow> bool" where
  "sslReader_inv r \<longleftrightarrow> length (rd_buf r) = unat (rd_len r) \<and> rd_offset r \<le> rd_len r"

definition sslReader_rest :: "sslReader \<Rightarrow> byte list" where
  "sslReader_rest r = drop (unat (rd_offset r)) (rd_buf r)"

lemma sslReader_inv_SSL_READER: "length bs = unat n \<Longrightarrow> sslReader_inv (SSL_READER bs n)"
  by (simp add: sslReader_inv_def SSL_READER_def)

lemma sslReader_remaining:
  "sslReader_inv r \<Longrightarrow> unat (rd_len r - rd_offset r) = length (sslReader_rest r)"
  by (simp add: sslReader_inv_def sslReader_rest_def unat_sub)

lemma sslReader_advance:
  assumes "sslReader_inv r" and "unat n \<le> length (sslReader_rest r)"
  shows "sslReader_inv (r\<lparr>rd_offset := rd_offset r + n\<rparr>) \<and>
         sslReader_rest (r\<lparr>rd_offset := rd_offset r + n\<rparr>) = drop (unat n) (sslReader_rest r)"
proof -
  have le: "unat (rd_offset r) + unat n \<le> unat (rd_len r)"
    using assms by (auto simp: sslReader_inv_def sslReader_rest_def word_le_nat_alt)
  moreover have "unat (rd_len r) < 2 ^ 32"
    using unsigned_less [of "rd_len r", where 'a = nat] by simp
  ultimately have "unat (rd_offset r + n) = unat (rd_offset r) + unat n"
    by (simp add: unat_plus_no_wrap)
  with le assms(1) show ?thesis
    by (simp add: sslReader_inv_def sslReader_rest_def word_le_nat_alt add.commute)
qed

text \<open>
  A read of \<open>n\<close> bytes succeeds exactly when \<open>n\<close> bytes remain; it returns them and leaves
  the rest. No read leaves the view.
\<close>

lemma sslRead_Read_eq:
  assumes inv: "sslReader_inv r"
  shows "sslRead_Read r n =
           (if unat n \<le> length (sslReader_rest r)
            then Inr (r\<lparr>rd_offset := rd_offset r + n\<rparr>, take (unat n) (sslReader_rest r))
            else Inl SEC_ERROR_BAD_DATA)"
proof -
  have "rd_len r < rd_offset r \<or> n > rd_len r - rd_offset r \<longleftrightarrow>
        \<not> unat n \<le> length (sslReader_rest r)"
    using inv sslReader_remaining [OF inv]
    by (auto simp: sslReader_inv_def word_less_nat_alt word_le_nat_alt)
  moreover have "unat n \<le> length (sslReader_rest r) \<Longrightarrow>
      unat (rd_offset r) + unat n \<le> length (rd_buf r)"
    using inv by (auto simp: sslReader_inv_def sslReader_rest_def word_le_nat_alt)
  ultimately show ?thesis
    by (auto simp: sslRead_Read_def mem_simps sslReader_rest_def)
qed

lemma foldl_number_be_value:
  "length bs \<le> 8 \<Longrightarrow>
     unat (foldl (\<lambda>(number :: u64) (b :: byte). push_bit 8 number + ucast b) 0 bs) = be_value bs"
proof (induction bs rule: rev_induct)
  case Nil
  then show ?case by simp
next
  case (snoc b bs)
  define n where "n = foldl (\<lambda>(number :: u64) (b :: byte). push_bit 8 number + ucast b) 0 bs"
  from snoc have IH: "unat n = be_value bs" by (simp add: n_def)
  have lt: "be_value (bs @ [b]) < 2 ^ 64"
  proof -
    have "be_value (bs @ [b]) < 256 ^ length (bs @ [b])" by (rule be_value_less)
    also have "(256 :: nat) ^ length (bs @ [b]) \<le> 256 ^ 8"
      using snoc.prems by (intro power_increasing) auto
    finally show ?thesis by simp
  qed
  then have "unat (push_bit 8 n) = be_value bs * 256"
    by (simp add: push_bit_eq_mult unat_word_ariths IH)
  moreover have "unat (ucast b :: u64) = unat b" by (simp add: unat_ucast_le)
  ultimately have "unat (push_bit 8 n + ucast b) = be_value (bs @ [b])"
    using lt by (simp add: unat_plus_no_wrap)
  then show ?case by (simp add: n_def)
qed

lemma sslRead_ReadNumber_eq:
  assumes inv: "sslReader_inv r"
  shows "sslRead_ReadNumber r n =
           (if unat n \<le> length (sslReader_rest r) \<and> n \<le> 8
            then Inr (r\<lparr>rd_offset := rd_offset r + n\<rparr>,
                      word_of_nat (be_value (take (unat n) (sslReader_rest r))))
            else Inl SEC_ERROR_BAD_DATA)"
proof -
  have cond: "rd_len r < rd_offset r \<or> n > rd_len r - rd_offset r \<or> n > 8 \<longleftrightarrow>
        \<not> (unat n \<le> length (sslReader_rest r) \<and> n \<le> 8)"
    using inv sslReader_remaining [OF inv]
    by (auto simp: sslReader_inv_def word_less_nat_alt word_le_nat_alt)
  have rd: "unat n \<le> length (sslReader_rest r) \<Longrightarrow>
      mem_read (rd_buf r) (unat (rd_offset r)) (unat n) = Inr (take (unat n) (sslReader_rest r))"
    using inv by (auto simp: sslReader_inv_def sslReader_rest_def word_le_nat_alt mem_simps)
  have val: "n \<le> 8 \<Longrightarrow> foldl (\<lambda>(number :: u64) b. push_bit 8 number + ucast b) 0
      (take (unat n) (sslReader_rest r)) = word_of_nat (be_value (take (unat n) (sslReader_rest r)))"
    by (subst foldl_number_be_value [symmetric]) (simp_all add: word_le_nat_alt)
  show ?thesis
    unfolding sslRead_ReadNumber_def cond using rd val by auto
qed


section \<open>Interfaces: writing and reading TLS vectors\<close>

text \<open>
  What a message writer may rely on: a successful call adds exactly the encoded field. The bound
  is the one the 32-bit lengths need.
\<close>

locale tls_writer =
  fixes wr_inv :: "'w \<Rightarrow> bool"
    and written :: "'w \<Rightarrow> byte list"
    and wr_raw :: "'w \<Rightarrow> byte list \<Rightarrow> u32 \<Rightarrow> 'w result"
    and wr_number :: "'w \<Rightarrow> u64 \<Rightarrow> u32 \<Rightarrow> 'w result"
    and wr_variable :: "'w \<Rightarrow> byte list \<Rightarrow> u32 \<Rightarrow> u32 \<Rightarrow> 'w result"
  assumes wr_raw_ok:
      "wr_inv w \<Longrightarrow> unat len \<le> length data \<Longrightarrow> length (written w) + unat len < 2 ^ 32 \<Longrightarrow>
       wr_raw w data len = Inr w' \<Longrightarrow>
       wr_inv w' \<and> written w' = written w @ take (unat len) data"
    and wr_number_ok:
      "wr_inv w \<Longrightarrow> sz \<le> 8 \<Longrightarrow> length (written w) + unat sz < 2 ^ 32 \<Longrightarrow>
       wr_number w v sz = Inr w' \<Longrightarrow>
       wr_inv w' \<and> written w' = written w @ be_bytes (unat sz) (unat v)"
    and wr_variable_ok:
      "wr_inv w \<Longrightarrow> sz \<le> 4 \<Longrightarrow> unat len \<le> length data \<Longrightarrow>
       length (written w) + unat len + unat sz < 2 ^ 32 \<Longrightarrow>
       wr_variable w data len sz = Inr w' \<Longrightarrow>
       wr_inv w' \<and> unat len < 256 ^ unat sz \<and>
       written w' = written w @ be_bytes (unat sz) (unat len) @ take (unat len) data"

text \<open>
  What a parser may rely on: the field at the front of the rest is returned and removed, and a
  successful read has taken its bytes from the front of the rest.
\<close>

locale tls_reader =
  fixes rd_inv :: "'r \<Rightarrow> bool"
    and rest :: "'r \<Rightarrow> byte list"
    and rd_raw :: "'r \<Rightarrow> u32 \<Rightarrow> ('r \<times> byte list) result"
    and rd_number :: "'r \<Rightarrow> u32 \<Rightarrow> ('r \<times> u64) result"
    and rd_variable :: "'r \<Rightarrow> u32 \<Rightarrow> ('r \<times> byte list) result"
  assumes rd_raw_front:
      "rd_inv r \<Longrightarrow> rest r = data @ xs \<Longrightarrow> unat n = length data \<Longrightarrow>
       \<exists>r'. rd_raw r n = Inr (r', data) \<and> rd_inv r' \<and> rest r' = xs"
    and rd_number_front:
      "rd_inv r \<Longrightarrow> rest r = be_bytes (unat sz) v @ xs \<Longrightarrow> sz \<le> 8 \<Longrightarrow> v < 256 ^ unat sz \<Longrightarrow>
       \<exists>r'. rd_number r sz = Inr (r', word_of_nat v) \<and> rd_inv r' \<and> rest r' = xs"
    and rd_variable_front:
      "rd_inv r \<Longrightarrow> rest r = be_bytes (unat sz) (length data) @ data @ xs \<Longrightarrow> sz \<le> 4 \<Longrightarrow>
       length data < 256 ^ unat sz \<Longrightarrow>
       \<exists>r'. rd_variable r sz = Inr (r', data) \<and> rd_inv r' \<and> rest r' = xs"
    and rd_variable_sound:
      "rd_inv r \<Longrightarrow> sz \<le> 4 \<Longrightarrow> rd_variable r sz = Inr (r', data) \<Longrightarrow>
       rd_inv r' \<and> rest r = be_bytes (unat sz) (length data) @ data @ rest r'"

locale tls_codec = tls_writer wr_inv written wr_raw wr_number wr_variable +
  tls_reader rd_inv rest rd_raw rd_number rd_variable
  for wr_inv :: "'w \<Rightarrow> bool" and written and wr_raw and wr_number and wr_variable
    and rd_inv :: "'r \<Rightarrow> bool" and rest and rd_raw and rd_number and rd_variable
begin

text \<open>A field written at position \<open>length (written w)\<close> is the field read back there.\<close>

lemma number_roundtrip:
  assumes "wr_inv w" "sz \<le> 8" "length (written w) + unat sz < 2 ^ 32"
    and "wr_number w v sz = Inr w'" "unat v < 256 ^ unat sz"
    and "rd_inv r" "rest r = drop (length (written w)) (written w') @ xs"
  shows "\<exists>r'. rd_number r sz = Inr (r', v) \<and> rd_inv r' \<and> rest r' = xs"
proof -
  have "written w' = written w @ be_bytes (unat sz) (unat v)"
    using wr_number_ok [OF assms(1-4)] by simp
  with assms(7) have "rest r = be_bytes (unat sz) (unat v) @ xs" by simp
  from rd_number_front [OF assms(6) this assms(2,5)] show ?thesis by simp
qed

lemma variable_roundtrip:
  assumes "wr_inv w" "sz \<le> 4" "unat len = length data"
    and "length (written w) + unat len + unat sz < 2 ^ 32"
    and "wr_variable w data len sz = Inr w'"
    and "rd_inv r" "rest r = drop (length (written w)) (written w') @ xs"
  shows "\<exists>r'. rd_variable r sz = Inr (r', data) \<and> rd_inv r' \<and> rest r' = xs"
proof -
  have "unat len < 256 ^ unat sz"
    and "written w' = written w @ be_bytes (unat sz) (unat len) @ data"
    using wr_variable_ok [OF assms(1,2) _ assms(4,5)] assms(3) by simp_all
  with assms(3,7) have "rest r = be_bytes (unat sz) (length data) @ data @ xs" by simp
  from rd_variable_front [OF assms(6) this assms(2)] \<open>unat len < _\<close> assms(3)
  show ?thesis by simp
qed

end

section \<open>The buffer and the reader implement the interfaces\<close>

lemma sslBuffer_appendsD:
  "sslBuffer_appends b src (Inr b') \<Longrightarrow>
     sslBuffer_inv b' \<and> sslBuffer_contents b' = sslBuffer_contents b @ src"
  by (simp add: sslBuffer_appends_def)

lemma sslBuffer_AppendVariable_fits:
  "sslBuffer_AppendVariable h b data len sz = Inr b' \<Longrightarrow> unat len < 256 ^ unat sz"
  by (simp add: sslBuffer_AppendVariable_def power_mult split: if_splits)

interpretation ssl_writer: tls_writer
  "\<lambda>b. nspr_ok h \<and> sslBuffer_inv b" sslBuffer_contents
  "sslBuffer_Append h" "sslBuffer_AppendNumber h" "sslBuffer_AppendVariable h"
  for h
proof (unfold_locales, goal_cases)
  case (1 w len data w')
  then show ?case
    using sslBuffer_Append_appends [of h w len data]
    by (auto simp: length_sslBuffer_contents dest: sslBuffer_appendsD)
next
  case (2 w sz v w')
  then show ?case
    using sslBuffer_AppendNumber_appends [of h w sz v]
    by (auto simp: length_sslBuffer_contents dest: sslBuffer_appendsD)
next
  case (3 w sz len data w')
  then show ?case
    using sslBuffer_AppendVariable_appends [of h w len data sz]
    by (auto simp: length_sslBuffer_contents dest: sslBuffer_appendsD sslBuffer_AppendVariable_fits)
qed

lemma sslRead_ReadVariable_eq:
  assumes inv: "sslReader_inv r" and sz: "sz \<le> 4"
  shows "sslRead_ReadVariable r sz =
           (let rest = sslReader_rest r; n = be_value (take (unat sz) rest) in
            if unat sz + n \<le> length rest \<and> unat sz \<le> length rest
            then Inr (r\<lparr>rd_offset := rd_offset r + sz + word_of_nat n\<rparr>,
                      take n (drop (unat sz) rest))
            else Inl SEC_ERROR_BAD_DATA)"
proof (cases "unat sz \<le> length (sslReader_rest r)")
  case False
  then show ?thesis
    by (simp add: sslRead_ReadVariable_def sslRead_ReadNumber_eq [OF inv] Let_def)
next
  case True
  define n where "n = be_value (take (unat sz) (sslReader_rest r))"
  let ?r = "r\<lparr>rd_offset := rd_offset r + sz\<rparr>"
  have sz8: "sz \<le> 8" using sz by (simp add: word_le_nat_alt)
  have inv': "sslReader_inv ?r" "sslReader_rest ?r = drop (unat sz) (sslReader_rest r)"
    using sslReader_advance [OF inv True] by auto
  have "n < 256 ^ unat sz"
    using be_value_less [of "take (unat sz) (sslReader_rest r)"] True by (simp add: n_def)
  also have "(256 :: nat) ^ unat sz \<le> 256 ^ 4"
    using sz by (intro power_increasing) (simp_all add: word_le_nat_alt)
  finally have n: "n < 2 ^ 32" by simp
  then have u: "unat (word_of_nat n :: u64) = n" "unat (word_of_nat n :: u32) = n"
    by (simp_all add: unat_of_nat)
  have "sslRead_ReadNumber r sz = Inr (?r, word_of_nat n)"
    using True sz8 by (simp add: sslRead_ReadNumber_eq [OF inv] n_def)
  moreover have "(word_of_nat n :: u64) = 0 \<longleftrightarrow> n = 0"
    using u(1) by (metis unat_eq_0)
  moreover have "(ucast (word_of_nat n :: u64) :: u32) = word_of_nat n"
    by (simp add: ucast_word_of_nat u(1) del: of_nat_unat)
  ultimately show ?thesis
    using True by (auto simp: sslRead_ReadVariable_def sslRead_Read_eq [OF inv'(1)] inv'(2) u
        n_def [symmetric] Let_def)
qed


lemma be_value_less_word: "be_value bs < 256 ^ n \<Longrightarrow> n \<le> 8 \<Longrightarrow> be_value bs < 2 ^ 64"
  by (rule less_le_trans [of _ "256 ^ n"]) (use power_increasing [of n 8 "256 :: nat"] in auto)

lemma sslReader_advance_variable:
  assumes inv: "sslReader_inv r" and n: "n < 2 ^ 32"
    and len: "unat sz + n \<le> length (sslReader_rest r)"
  shows "sslReader_inv (r\<lparr>rd_offset := rd_offset r + sz + word_of_nat n\<rparr>) \<and>
         sslReader_rest (r\<lparr>rd_offset := rd_offset r + sz + word_of_nat n\<rparr>) =
           drop n (drop (unat sz) (sslReader_rest r))"
proof -
  from len have "unat sz \<le> length (sslReader_rest r)" by simp
  from sslReader_advance [OF inv this] have r1:
    "sslReader_inv (r\<lparr>rd_offset := rd_offset r + sz\<rparr>)"
    "sslReader_rest (r\<lparr>rd_offset := rd_offset r + sz\<rparr>) = drop (unat sz) (sslReader_rest r)" by auto
  have "unat (word_of_nat n :: u32) = n" using n by (simp add: unat_of_nat)
  with sslReader_advance [OF r1(1), of "word_of_nat n"] r1(2) len show ?thesis by simp
qed

interpretation ssl_reader: tls_reader
  sslReader_inv sslReader_rest sslRead_Read sslRead_ReadNumber sslRead_ReadVariable
proof (unfold_locales, goal_cases)
  case (1 r data xs n)
  then show ?case using sslReader_advance [of r n] by (simp add: sslRead_Read_eq)
next
  case (2 r sz v xs)
  then show ?case using sslReader_advance [of r sz] by (simp add: sslRead_ReadNumber_eq be_simps)
next
  case (3 r sz data xs)
  have "(256 :: nat) ^ unat sz \<le> 256 ^ 4"
    using 3(3) by (intro power_increasing) (simp_all add: word_le_nat_alt)
  with 3 have "length data < 2 ^ 32" by simp
  with 3 sslReader_advance_variable [of r "length data" sz] show ?case
    by (simp add: sslRead_ReadVariable_eq be_simps)
next
  case (4 r sz r' data)
  define n where "n = be_value (take (unat sz) (sslReader_rest r))"
  from 4 have len: "unat sz + n \<le> length (sslReader_rest r)"
    and r': "r' = r\<lparr>rd_offset := rd_offset r + sz + word_of_nat n\<rparr>"
    and data: "data = take n (drop (unat sz) (sslReader_rest r))"
    by (auto simp: sslRead_ReadVariable_eq Let_def n_def split: if_splits)
  have "n < 256 ^ unat sz"
    using be_value_less [of "take (unat sz) (sslReader_rest r)"] len by (simp add: n_def)
  also have "(256 :: nat) ^ unat sz \<le> 256 ^ 4"
    using 4(2) by (intro power_increasing) (simp_all add: word_le_nat_alt)
  finally have "n < 2 ^ 32" by simp
  from sslReader_advance_variable [OF 4(1) this len] have r2:
    "sslReader_inv r'" "sslReader_rest r' = drop n (drop (unat sz) (sslReader_rest r))"
    by (simp_all add: r')
  have "length data = n" using len by (simp add: data)
  moreover have "be_bytes (unat sz) n = take (unat sz) (sslReader_rest r)"
    using be_bytes_be_value [of "take (unat sz) (sslReader_rest r)"] len by (simp add: n_def)
  moreover have "sslReader_rest r = take (unat sz) (sslReader_rest r) @ data @ sslReader_rest r'"
    unfolding r2(2) data by (simp only: append_take_drop_id)
  ultimately show ?case using r2(1) by simp
qed

interpretation ssl_codec: tls_codec
  "\<lambda>b. nspr_ok h \<and> sslBuffer_inv b" sslBuffer_contents
  "sslBuffer_Append h" "sslBuffer_AppendNumber h" "sslBuffer_AppendVariable h"
  sslReader_inv sslReader_rest sslRead_Read sslRead_ReadNumber sslRead_ReadVariable
  for h
  by unfold_locales

section \<open>Sequences of buffer operations\<close>

datatype sslBuffer_op =
    OpAppend "byte list" u32
  | OpNumber u64 u32
  | OpVariable "byte list" u32 u32
  | OpFill byte u64
  | OpSkip u32
  | OpInsertLength u32 u32
  | OpInsertNumber u32 u64 u32
  | OpClear
  | OpZeroClear

fun sslBuffer_do :: "nspr \<Rightarrow> sslBuffer_op \<Rightarrow> sslBuffer \<Rightarrow> sslBuffer result" where
  "sslBuffer_do h (OpAppend data len) b = sslBuffer_Append h b data len"
| "sslBuffer_do h (OpNumber v sz) b = sslBuffer_AppendNumber h b v sz"
| "sslBuffer_do h (OpVariable data len sz) b = sslBuffer_AppendVariable h b data len sz"
| "sslBuffer_do h (OpFill c len) b = sslBuffer_Fill h b c len"
| "sslBuffer_do h (OpSkip sz) b = res_bind (sslBuffer_Skip h b sz) (\<lambda>(b, _). Inr b)"
| "sslBuffer_do h (OpInsertLength at sz) b = sslBuffer_InsertLength b at sz"
| "sslBuffer_do h (OpInsertNumber at v sz) b = sslBuffer_InsertNumber b at v sz"
| "sslBuffer_do h OpClear b = Inr (sslBuffer_Clear b)"
| "sslBuffer_do h OpZeroClear b = sslBuffer_ZeroClear b"

text \<open>
  The preconditions: the assertions of the C code on the size arguments, a source that holds the
  bytes to copy, and no wrap-around of the new length.
\<close>

fun sslBuffer_pre :: "sslBuffer_op \<Rightarrow> sslBuffer \<Rightarrow> bool" where
  "sslBuffer_pre (OpAppend data len) b \<longleftrightarrow>
     unat len \<le> length data \<and> unat (sb_len b) + unat len < 2 ^ 32"
| "sslBuffer_pre (OpNumber v sz) b \<longleftrightarrow> sz \<le> 8 \<and> unat (sb_len b) + unat sz < 2 ^ 32"
| "sslBuffer_pre (OpVariable data len sz) b \<longleftrightarrow>
     unat len \<le> length data \<and> sz \<le> 4 \<and> unat (sb_len b) + unat len + unat sz < 2 ^ 32"
| "sslBuffer_pre (OpFill c len) b \<longleftrightarrow> unat (sb_len b) + unat len < 2 ^ 32"
| "sslBuffer_pre (OpSkip sz) b \<longleftrightarrow> unat (sb_len b) + unat sz < 2 ^ 32"
| "sslBuffer_pre (OpInsertLength at sz) b \<longleftrightarrow> sz \<le> 4 \<and> unat at + unat sz \<le> unat (sb_len b)"
| "sslBuffer_pre (OpInsertNumber at v sz) b \<longleftrightarrow> sz \<le> 4 \<and> unat at + unat sz \<le> unat (sb_len b)"
| "sslBuffer_pre OpClear b \<longleftrightarrow> True"
| "sslBuffer_pre OpZeroClear b \<longleftrightarrow> True"

text \<open>
  A run stops at the first failing operation; \<open>None\<close> says that some precondition did not hold.
\<close>

fun sslBuffer_run :: "nspr \<Rightarrow> sslBuffer_op list \<Rightarrow> sslBuffer \<Rightarrow> sslBuffer result option" where
  "sslBuffer_run h [] b = Some (Inr b)"
| "sslBuffer_run h (x # xs) b =
     (if \<not> sslBuffer_pre x b then None
      else case sslBuffer_do h x b of Inl e \<Rightarrow> Some (Inl e) | Inr b' \<Rightarrow> sslBuffer_run h xs b')"

definition sslBuffer_safe :: "sslBuffer result \<Rightarrow> bool" where
  "sslBuffer_safe r \<longleftrightarrow>
     (case r of
        Inl e \<Rightarrow> e = SEC_ERROR_NO_MEMORY \<or> e = SEC_ERROR_LIBRARY_FAILURE
      | Inr b \<Rightarrow> sslBuffer_inv b)"

lemma sslBuffer_appends_safe: "sslBuffer_appends b src r \<Longrightarrow> sslBuffer_safe r"
  by (auto simp: sslBuffer_appends_def sslBuffer_safe_def split: sum.splits)

lemma sslBuffer_insert_safe:
  assumes "sslBuffer_inv b" and "off + length src \<le> unat (sb_len b)"
  shows "sslBuffer_safe (sslBuffer_put b off src)"
  using sslBuffer_put_inside [OF assms] by (auto simp: sslBuffer_safe_def)

lemma sslBuffer_Clear_inv: "sslBuffer_inv b \<Longrightarrow> sslBuffer_inv (sslBuffer_Clear b)"
  by (auto simp: sslBuffer_inv_def sslBuffer_Clear_def Let_def split: option.splits)

lemma sslBuffer_ZeroClear_safe:
  "sslBuffer_inv b \<Longrightarrow> sslBuffer_safe (sslBuffer_ZeroClear b)"
  by (auto simp: sslBuffer_ZeroClear_def sslBuffer_safe_def mem_simps sslBuffer_inv_def
      sslBuffer_Clear_def Let_def split: option.splits)

lemma sslBuffer_do_safe:
  assumes "nspr_ok h" and "sslBuffer_inv b" and "sslBuffer_pre x b"
  shows "sslBuffer_safe (sslBuffer_do h x b)"
proof (cases x)
  case (OpSkip sz)
  show ?thesis
  proof (cases "sslBuffer_Skip h b sz")
    case (Inl e)
    then have "sslBuffer_Grow h b (sb_len b + sz) = Inl e"
      by (simp add: sslBuffer_Skip_def res_bind_Inl_iff)
    with OpSkip Inl show ?thesis
      using sslBuffer_Grow_error by (fastforce simp: sslBuffer_safe_def)
  next
    case (Inr p)
    with OpSkip assms sslBuffer_Skip_ok [OF assms(1,2), of sz] show ?thesis
      by (cases p) (simp add: sslBuffer_safe_def)
  qed
next
  case (OpInsertLength at sz)
  then have "length (ssl_EncodeUintX (ucast (sb_len b - (at + sz))) (unat sz)) = unat sz"
    using assms(3) by (simp add: ssl_EncodeUintX_be_bytes word_le_nat_alt)
  with OpInsertLength assms show ?thesis
    by (auto simp: sslBuffer_InsertLength_def Let_def sslBuffer_safe_def [of "Inl _"]
        intro!: sslBuffer_insert_safe)
next
  case (OpInsertNumber at v sz)
  then have "length (ssl_EncodeUintX v (unat sz)) = unat sz"
    using assms(3) by (simp add: ssl_EncodeUintX_be_bytes word_le_nat_alt)
  with OpInsertNumber assms show ?thesis
    by (auto simp: sslBuffer_InsertNumber_def sslBuffer_safe_def [of "Inl _"]
        intro!: sslBuffer_insert_safe)
next
  case OpClear
  with assms show ?thesis by (simp add: sslBuffer_safe_def sslBuffer_Clear_inv)
next
  case (OpAppend data len)
  with assms sslBuffer_Append_appends [OF assms(1,2), THEN sslBuffer_appends_safe, of len data]
  show ?thesis by simp
next
  case (OpNumber v sz)
  with assms sslBuffer_AppendNumber_appends [OF assms(1,2), THEN sslBuffer_appends_safe, of sz v]
  show ?thesis by simp
next
  case (OpVariable data len sz)
  with assms sslBuffer_AppendVariable_appends [OF assms(1,2), THEN sslBuffer_appends_safe, of len data sz]
  show ?thesis by simp
next
  case (OpFill c len)
  with assms sslBuffer_Fill_appends [OF assms(1,2), THEN sslBuffer_appends_safe, of len c]
  show ?thesis by simp
next
  case OpZeroClear
  with assms show ?thesis by (simp add: sslBuffer_ZeroClear_safe)
qed

lemma sslBuffer_run_safe:
  "nspr_ok h \<Longrightarrow> sslBuffer_inv b \<Longrightarrow> sslBuffer_run h xs b = Some r \<Longrightarrow> sslBuffer_safe r"
proof (induction xs arbitrary: b)
  case Nil
  then show ?case by (auto simp: sslBuffer_safe_def)
next
  case (Cons x xs)
  from Cons.prems(3) have pre: "sslBuffer_pre x b" by (simp split: if_splits)
  from sslBuffer_do_safe [OF Cons.prems(1,2) pre] have step: "sslBuffer_safe (sslBuffer_do h x b)" .
  show ?case
  proof (cases "sslBuffer_do h x b")
    case (Inl e)
    with step Cons.prems(3) pre show ?thesis by simp
  next
    case (Inr b')
    with step have "sslBuffer_inv b'" by (simp add: sslBuffer_safe_def)
    with Cons.IH [OF Cons.prems(1)] Cons.prems(3) pre Inr show ?thesis by simp
  qed
qed



section \<open>Properties\<close>


lemmas ssl_encode_eval =
  SSL_BUFFER_FIXED_def sslBuffer_Grow_def sslBuffer_put_def mem_write_def mem_read_def
  ssl_EncodeUintX_be_bytes sslBuffer_AppendVariable_def sslBuffer_Append_def sslBuffer_Skip_def
  sslBuffer_InsertLength_def sslBuffer_Fill_def replicate_numeral_Cons be_bytes_numeral

definition example_ops :: "sslBuffer_op list" where
  "example_ops = [OpSkip 2, OpAppend [1, 2, 3] 3, OpInsertLength 0 2, OpVariable [9] 1 1, OpFill 7 2]"

lemma example_ops_run:
  "sslBuffer_run zero_nspr example_ops (SSL_BUFFER_FIXED (replicate 10 0) 10) =
     Some (Inr \<lparr>sb_buf = Some [0, 3, 1, 2, 3, 1, 9, 7, 7, 0], sb_len = 9, sb_space = 10,
                sb_fixed = True\<rparr>)"
  by (simp add: ssl_encode_eval example_ops_def)


text \<open>
  C12: encode/decode round trip of length-prefixed vectors. What \<open>sslBuffer_AppendVariable\<close>
  appended is what \<open>sslRead_ReadVariable\<close> returns at that position, and nothing of it is
  left unread.
\<close>

theorem ssl_variable_roundtrip:
  assumes "nspr_ok h" and "sslBuffer_inv b" and "sz \<le> 4" and "unat len = length data"
    and "unat (sb_len b) + unat len + unat sz < 2 ^ 32"
    and "sslBuffer_AppendVariable h b data len sz = Inr b'"
  shows "\<exists>r'. sslRead_ReadVariable
                \<lparr>rd_buf = sslBuffer_contents b', rd_len = sb_len b', rd_offset = sb_len b\<rparr> sz =
              Inr (r', data) \<and> sslReader_rest r' = []"
proof -
  let ?r = "\<lparr>rd_buf = sslBuffer_contents b', rd_len = sb_len b', rd_offset = sb_len b\<rparr>"
  have b': "sslBuffer_inv b'"
    "sslBuffer_contents b' = sslBuffer_contents b @ be_bytes (unat sz) (unat len) @ data"
    using ssl_writer.wr_variable_ok [of h b sz len data b'] assms
    by (simp_all add: length_sslBuffer_contents)
  have len: "length (sslBuffer_contents b) = unat (sb_len b)"
    "length (sslBuffer_contents b') = unat (sb_len b')"
    using assms(2) b'(1) by (simp_all add: length_sslBuffer_contents)
  have "sslReader_inv ?r" using len b'(2) by (simp add: sslReader_inv_def word_le_nat_alt)
  moreover have "sslReader_rest ?r = drop (length (sslBuffer_contents b)) (sslBuffer_contents b') @ []"
    by (simp add: sslReader_rest_def len(1))
  ultimately show ?thesis
    using ssl_codec.variable_roundtrip [of h b sz len data b' ?r "[]"] assms len(1) by auto
qed

lemma example_append:
  "sslBuffer_AppendVariable zero_nspr (SSL_BUFFER_FIXED (replicate 6 0) 6) [4, 5] 2 2 =
     Inr \<lparr>sb_buf = Some [0, 2, 4, 5, 0, 0], sb_len = 4, sb_space = 6, sb_fixed = True\<rparr>"
  by (simp add: ssl_encode_eval)

theorem ssl_variable_roundtrip_witness:
  "\<exists>r'. sslRead_ReadVariable
          \<lparr>rd_buf = [0, 2, 4, 5], rd_len = 4, rd_offset = 0\<rparr> 2 = Inr (r', [4, 5]) \<and>
        sslReader_rest r' = []"
  using ssl_variable_roundtrip [OF zero_nspr_ok sslBuffer_inv_SSL_BUFFER_FIXED _ _ _ example_append]
  by (simp add: sslBuffer_contents_def SSL_BUFFER_FIXED_def)

text \<open>
  C14: the skip-then-insert protocol is equivalent to appending a vector. Skipping the length,
  appending the body and inserting the length afterwards gives the bytes that
  \<open>sslBuffer_AppendVariable\<close> writes, and the insertion fails exactly when that call refuses the
  body as too long for its length field.
\<close>

theorem ssl_skip_insert_length_equiv:
  assumes "nspr_ok h" and "sslBuffer_inv b" and "sz \<le> 4" and "unat len = length body"
    and "unat (sb_len b) + unat len + unat sz < 2 ^ 32"
    and "sslBuffer_Skip h b sz = Inr (b1, at)"
    and "sslBuffer_Append h b1 body len = Inr b2"
    and "sslBuffer_AppendVariable h b body len sz = r"
  shows "case r of
           Inr b' \<Rightarrow> \<exists>b3. sslBuffer_InsertLength b2 at sz = Inr b3 \<and>
                          sslBuffer_contents b3 = sslBuffer_contents b'
         | Inl e \<Rightarrow> length body \<ge> 256 ^ unat sz \<longrightarrow>
                      sslBuffer_InsertLength b2 at sz = Inl SEC_ERROR_LIBRARY_FAILURE"
proof -
  have b1: "sslBuffer_inv b1" "at = sb_len b" "sb_len b1 = sb_len b + sz"
    "take (unat at) (sslBuffer_contents b1) = sslBuffer_contents b"
    using sslBuffer_Skip_ok [OF assms(1,2) _ assms(6)] assms(5) by auto
  have sum: "unat (sb_len b1) = unat (sb_len b) + unat sz"
    using assms(5) by (simp add: b1(3) unat_plus_no_wrap)
  define gap where "gap = drop (unat at) (sslBuffer_contents b1)"
  have gap: "sslBuffer_contents b1 = sslBuffer_contents b @ gap" "unat sz = length gap"
    using b1(4) length_sslBuffer_contents [OF b1(1)] sum
    by (metis append_take_drop_id gap_def, simp add: gap_def b1(2))
  have b2: "sslBuffer_inv b2" "sslBuffer_contents b2 = sslBuffer_contents b @ gap @ body"
    using sslBuffer_Append_appends [OF assms(1) b1(1), of len body] assms(4,5,7) gap(1)
    by (simp_all add: sslBuffer_appends_def sum)
  have at: "unat at = length (sslBuffer_contents b)"
    using length_sslBuffer_contents [OF assms(2)] b1(2) by simp
  note ins = sslBuffer_InsertLength_ok [OF b2(1) assms(3) b2(2) at gap(2)]
  show ?thesis
  proof (cases r)
    case (Inl e)
    then show ?thesis using ins by simp
  next
    case (Inr b')
    with assms(8) have ok: "sslBuffer_AppendVariable h b body len sz = Inr b'" by simp
    have "length body < 256 ^ unat sz"
      using sslBuffer_AppendVariable_fits [OF ok] assms(4) by simp
    moreover have "sslBuffer_contents b' = sslBuffer_contents b @ be_bytes (unat sz) (length body) @ body"
      using sslBuffer_AppendVariable_appends [OF assms(1,2), of len body sz] assms(3-5) ok
      by (simp add: sslBuffer_appends_def)
    ultimately show ?thesis using ins Inr by auto
  qed
qed

lemma example_skip_append:
  "sslBuffer_Skip zero_nspr (SSL_BUFFER_FIXED (replicate 6 0) 6) 2 =
     Inr (\<lparr>sb_buf = Some [0, 0, 0, 0, 0, 0], sb_len = 2, sb_space = 6, sb_fixed = True\<rparr>, 0)"
  "sslBuffer_Append zero_nspr
     \<lparr>sb_buf = Some [0, 0, 0, 0, 0, 0], sb_len = 2, sb_space = 6, sb_fixed = True\<rparr> [4, 5] 2 =
     Inr \<lparr>sb_buf = Some [0, 0, 4, 5, 0, 0], sb_len = 4, sb_space = 6, sb_fixed = True\<rparr>"
  by (simp add: ssl_encode_eval)+

theorem ssl_skip_insert_length_equiv_witness:
  "\<exists>b3. sslBuffer_InsertLength
          \<lparr>sb_buf = Some [0, 0, 4, 5, 0, 0], sb_len = 4, sb_space = 6, sb_fixed = True\<rparr> 0 2 = Inr b3 \<and>
        sslBuffer_contents b3 = [0, 2, 4, 5]"
  using ssl_skip_insert_length_equiv [OF zero_nspr_ok sslBuffer_inv_SSL_BUFFER_FIXED _ _ _
      example_skip_append example_append]
  by (simp add: sslBuffer_contents_def SSL_BUFFER_FIXED_def)

text \<open>
  C15: exact behaviour of the bounds-checked vector read. It succeeds exactly when the length
  prefix and the announced bytes are inside the view; then it returns those bytes and a reader
  that is still inside its view, and otherwise it fails with \<open>SEC_ERROR_BAD_DATA\<close>.
\<close>

theorem ssl_read_variable_exact:
  assumes "sslReader_inv r" and "sz \<le> 4"
  shows "case sslRead_ReadVariable r sz of
           Inr (r', data) \<Rightarrow>
             sslReader_inv r' \<and>
             sslReader_rest r = be_bytes (unat sz) (length data) @ data @ sslReader_rest r'
         | Inl e \<Rightarrow>
             e = SEC_ERROR_BAD_DATA \<and>
             length (sslReader_rest r) < unat sz + be_value (take (unat sz) (sslReader_rest r))"
proof (cases "sslRead_ReadVariable r sz")
  case (Inl e)
  then show ?thesis
    using sslRead_ReadVariable_eq [OF assms] by (auto simp: Let_def split: if_splits)
next
  case (Inr p)
  then show ?thesis using ssl_reader.rd_variable_sound [OF assms] by (cases p) auto
qed

theorem ssl_read_variable_exact_witness:
  "sslReader_inv (SSL_READER [0, 2, 4, 5, 6] 5) \<and>
   (case sslRead_ReadVariable (SSL_READER [0, 2, 4, 5, 6] 5) 2 of
      Inr (r', data) \<Rightarrow> data = [4, 5] \<and> sslReader_rest r' = [6]
    | Inl e \<Rightarrow> False)"
proof -
  have inv: "sslReader_inv (SSL_READER [0, 2, 4, 5, 6] 5)"
    by (simp add: sslReader_inv_SSL_READER)
  have "sslRead_ReadVariable (SSL_READER [0, 2, 4, 5, 6] 5) 2 =
      Inr (\<lparr>rd_buf = [0, 2, 4, 5, 6], rd_len = 5, rd_offset = 4\<rparr>, [4, 5])"
    using inv by (simp add: sslRead_ReadVariable_eq sslReader_rest_def SSL_READER_def be_value_def)
  with ssl_read_variable_exact [OF inv, of 2] inv show ?thesis
    by (simp add: sslReader_rest_def)
qed


end
