(* ===== verification/Sec_Item.thy ===== *)
theory Sec_Item
  imports Nss_Prelude "HOL-Library.List_Lexorder"
begin

text \<open>
  \<^verbatim>\<open>lib/util/secitem.c\<close>: the length-counted byte strings (\<open>SECItem\<close>) and arrays of
  them that almost every interface of the library passes around. The data pointer is the block it
  points to; an arena may leave a block longer than \<open>len\<close>. An argument that may be a null
  pointer is an option. A failing call that leaves its item changed returns the changed item beside
  the error code.
\<close>

section \<open>Data\<close>

datatype SECItemType =
    siBuffer | siClearDataBuffer | siCipherDataBuffer | siDERCertBuffer | siEncodedCertBuffer
  | siDERNameBuffer | siEncodedNameBuffer | siAsciiNameString | siAsciiString | siDEROID
  | siUnsignedInteger | siUTCTime | siGeneralizedTime | siVisibleString | siUTF8String
  | siBMPString

record SECItem =
  si_type :: SECItemType
  si_data :: "byte list option"
  si_len :: u32

record SECItemArray =
  sa_items :: "SECItem list option"
  sa_len :: u32

datatype SECComparison = SECLessThan | SECEqual | SECGreaterThan

type_synonym item_result = "(sec_error \<times> SECItem) + SECItem"

definition empty_item :: SECItem where
  "empty_item = \<lparr>si_type = siBuffer, si_data = None, si_len = 0\<rparr>"

text \<open>The sizes of the two structures on a 64-bit platform.\<close>

definition sizeof_SECItem :: nat where
  "sizeof_SECItem = 24"

definition sizeof_SECItemArray :: nat where
  "sizeof_SECItemArray = 16"

section \<open>Operations\<close>

definition item_alloc :: "nspr \<Rightarrow> bool \<Rightarrow> nat \<Rightarrow> byte list result" where
  "item_alloc h arena n = (if arena then PORT_ArenaAlloc h n else PORT_Alloc h n)"

definition item_zalloc :: "nspr \<Rightarrow> bool \<Rightarrow> nat \<Rightarrow> byte list result" where
  "item_zalloc h arena n = (if arena then PORT_ArenaZAlloc h n else PORT_ZAlloc h n)"

definition SECITEM_FreeItem :: "SECItem \<Rightarrow> SECItem" where
  "SECITEM_FreeItem zap = zap\<lparr>si_data := None, si_len := 0\<rparr>"

definition SECITEM_ZfreeItem :: "SECItem \<Rightarrow> SECItem result" where
  "SECITEM_ZfreeItem zap =
     res_bind (case si_data zap of
                 None \<Rightarrow> Inr []
               | Some m \<Rightarrow> mem_write m 0 (replicate (unat (si_len zap)) 0))
       (\<lambda>_. Inr (zap\<lparr>si_data := None, si_len := 0\<rparr>))"

definition SECITEM_AllocItem ::
    "nspr \<Rightarrow> bool \<Rightarrow> SECItem option \<Rightarrow> u32 \<Rightarrow> (sec_error \<times> SECItem option) + SECItem" where
  "SECITEM_AllocItem h arena item len =
     (case (case item of
              None \<Rightarrow> res_bind (item_zalloc h arena sizeof_SECItem) (\<lambda>_. Inr empty_item)
            | Some it \<Rightarrow> Inr it) of
        Inl e \<Rightarrow> Inl (e, None)
      | Inr result \<Rightarrow>
          (let result = result\<lparr>si_len := len\<rparr> in
           if len \<noteq> 0 then
             (case item_alloc h arena (unat len) of
                Inl e \<Rightarrow> Inl (e, map_option SECITEM_FreeItem item)
              | Inr m \<Rightarrow> Inr (result\<lparr>si_data := Some m\<rparr>))
           else Inr (result\<lparr>si_data := None\<rparr>)))"

definition SECITEM_CopyItem :: "nspr \<Rightarrow> bool \<Rightarrow> SECItem \<Rightarrow> SECItem \<Rightarrow> item_result" where
  "SECITEM_CopyItem h arena to from =
     (let to = to\<lparr>si_type := si_type from\<rparr> in
      case si_data from of
        Some m \<Rightarrow>
          (if si_len from \<noteq> 0 then
             (case item_alloc h arena (unat (si_len from)) of
                Inl e \<Rightarrow> Inl (e, to\<lparr>si_data := None\<rparr>)
              | Inr d \<Rightarrow>
                  (case res_bind (mem_read m 0 (unat (si_len from))) (mem_write d 0) of
                     Inl e \<Rightarrow> Inl (e, to\<lparr>si_data := Some d\<rparr>)
                   | Inr d' \<Rightarrow> Inr (to\<lparr>si_data := Some d', si_len := si_len from\<rparr>)))
           else Inr (to\<lparr>si_data := None, si_len := 0\<rparr>))
      | None \<Rightarrow> Inr (to\<lparr>si_data := None, si_len := 0\<rparr>))"

definition SECITEM_MakeItem ::
    "nspr \<Rightarrow> bool \<Rightarrow> SECItem \<Rightarrow> byte list option \<Rightarrow> u32 \<Rightarrow> item_result" where
  "SECITEM_MakeItem h arena dest data len =
     SECITEM_CopyItem h arena dest \<lparr>si_type = siBuffer, si_data = data, si_len = len\<rparr>"

text \<open>The legacy reallocation: in the growing case it leaves \<open>len\<close> alone.\<close>

definition SECITEM_ReallocItem ::
    "nspr \<Rightarrow> bool \<Rightarrow> SECItem option \<Rightarrow> u32 \<Rightarrow> u32 \<Rightarrow> (sec_error \<times> SECItem option) + SECItem" where
  "SECITEM_ReallocItem h arena item oldlen newlen =
     (case item of
        None \<Rightarrow> Inl (NO_ERROR_SET, None)
      | Some it \<Rightarrow>
          (if oldlen = 0 then
             (if newlen = 0 then Inr it
              else (case item_alloc h arena (unat newlen) of
                      Inl e \<Rightarrow> Inl (e, Some (it\<lparr>si_len := newlen, si_data := None\<rparr>))
                    | Inr m \<Rightarrow> Inr (it\<lparr>si_len := newlen, si_data := Some m\<rparr>)))
           else
             (let old = (case si_data it of None \<Rightarrow> [] | Some m \<Rightarrow> m) in
              case (if arena then PORT_ArenaGrow h old (unat oldlen) (unat newlen)
                    else PORT_Realloc h old (unat newlen)) of
                Inl e \<Rightarrow> Inl (e, Some (it\<lparr>si_data := None\<rparr>))
              | Inr m \<Rightarrow> Inr (it\<lparr>si_data := Some m\<rparr>))))"

definition SECITEM_ReallocItemV2 ::
    "nspr \<Rightarrow> bool \<Rightarrow> SECItem option \<Rightarrow> u32 \<Rightarrow> (sec_error \<times> SECItem option) + SECItem" where
  "SECITEM_ReallocItemV2 h arena item newlen =
     (case item of
        None \<Rightarrow> Inl (SEC_ERROR_INVALID_ARGS, None)
      | Some it \<Rightarrow>
          (if si_len it = newlen then Inr it
           else if newlen = 0 then Inr (it\<lparr>si_data := None, si_len := 0\<rparr>)
           else
             (case (case si_data it of
                      None \<Rightarrow> map_sum id Some (item_alloc h arena (unat newlen))
                    | Some m \<Rightarrow>
                        (if arena then
                           (if si_len it > newlen then Inr None
                            else map_sum id Some
                                   (PORT_ArenaGrow h m (unat (si_len it)) (unat newlen)))
                         else map_sum id Some (PORT_Realloc h m (unat newlen)))) of
                Inl e \<Rightarrow> Inl (SEC_ERROR_NO_MEMORY, Some it)
              | Inr None \<Rightarrow> Inr (it\<lparr>si_len := newlen\<rparr>)
              | Inr (Some newdata) \<Rightarrow> Inr (it\<lparr>si_len := newlen, si_data := Some newdata\<rparr>))))"

text \<open>\<^verbatim>\<open>memcmp\<close>, of which the code uses the sign.\<close>

fun PORT_Memcmp :: "byte list \<Rightarrow> byte list \<Rightarrow> int" where
  "PORT_Memcmp (x # xs) (y # ys) =
     (if x = y then PORT_Memcmp xs ys else if x < y then -1 else 1)"
| "PORT_Memcmp _ _ = 0"

text \<open>\<open>same\<close> tells whether the two arguments are the same pointer.\<close>

definition item_absent :: "SECItem option \<Rightarrow> bool" where
  "item_absent a \<longleftrightarrow> (case a of None \<Rightarrow> True | Some it \<Rightarrow> si_len it = 0 \<or> si_data it = None)"

definition SECITEM_CompareItem ::
    "bool \<Rightarrow> SECItem option \<Rightarrow> SECItem option \<Rightarrow> SECComparison result" where
  "SECITEM_CompareItem same a b =
     (if same then Inr SECEqual
      else if item_absent a then Inr (if item_absent b then SECEqual else SECLessThan)
      else if item_absent b then Inr SECGreaterThan
      else
        (let ia = the a; ib = the b;
             m = unat (if si_len ia < si_len ib then si_len ia else si_len ib) in
         res_bind (mem_read (the (si_data ia)) 0 m)
           (\<lambda>da. res_bind (mem_read (the (si_data ib)) 0 m)
             (\<lambda>db. let rv = PORT_Memcmp da db in
                Inr (if rv \<noteq> 0 then (if rv < 0 then SECLessThan else SECGreaterThan)
                     else if si_len ia < si_len ib then SECLessThan
                     else if si_len ia = si_len ib then SECEqual
                     else SECGreaterThan)))))"

definition SECITEM_ItemsAreEqual :: "SECItem \<Rightarrow> SECItem \<Rightarrow> bool result" where
  "SECITEM_ItemsAreEqual a b =
     (if si_len a \<noteq> si_len b then Inr False
      else if si_len a = 0 then Inr True
      else (case (si_data a, si_data b) of
              (Some ma, Some mb) \<Rightarrow>
                res_bind (mem_read ma 0 (unat (si_len a)))
                  (\<lambda>da. res_bind (mem_read mb 0 (unat (si_len a)))
                    (\<lambda>db. Inr (PORT_Memcmp da db = 0)))
            | (None, None) \<Rightarrow> Inr True
            | _ \<Rightarrow> Inr False))"

definition SECITEM_ArenaDupItem :: "nspr \<Rightarrow> bool \<Rightarrow> SECItem option \<Rightarrow> SECItem result" where
  "SECITEM_ArenaDupItem h arena from =
     (case from of
        None \<Rightarrow> Inl NO_ERROR_SET
      | Some it \<Rightarrow>
          (case SECITEM_AllocItem h arena None (si_len it) of
             Inl (e, _) \<Rightarrow> Inl e
           | Inr to \<Rightarrow>
               (let to = to\<lparr>si_type := si_type it\<rparr> in
                if si_len to \<noteq> 0 then
                  (case (si_data to, si_data it) of
                     (Some d, Some m) \<Rightarrow>
                       res_bind (res_bind (mem_read m 0 (unat (si_len to))) (mem_write d 0))
                         (\<lambda>d'. Inr (to\<lparr>si_data := Some d'\<rparr>))
                   | _ \<Rightarrow> Inl UNDEFINED_BEHAVIOUR)
                else Inr to)))"

definition SECITEM_DupItem :: "nspr \<Rightarrow> SECItem option \<Rightarrow> SECItem result" where
  "SECITEM_DupItem h from = SECITEM_ArenaDupItem h False from"

text \<open>
  The hash is the four bytes \<^verbatim>\<open>rvc\<close> of the \<open>PLHashNumber\<close> in memory order.
\<close>

definition SECITEM_Hash :: "SECItem \<Rightarrow> byte list result" where
  "SECITEM_Hash item =
     (if si_len item = 0 then Inr (replicate 4 0)
      else case si_data item of
        None \<Rightarrow> Inl UNDEFINED_BEHAVIOUR
      | Some m \<Rightarrow>
          res_bind (mem_read m 0 (unat (si_len item)))
            (\<lambda>data. Inr (foldl (\<lambda>rvc i. rvc[i mod 4 := (rvc ! (i mod 4)) XOR (data ! i)])
                          (replicate 4 0) [0..<unat (si_len item)])))"

definition SECITEM_HashCompare :: "SECItem \<Rightarrow> SECItem \<Rightarrow> bool result" where
  "SECITEM_HashCompare k1 k2 = SECITEM_ItemsAreEqual k1 k2"

section \<open>Arrays of items\<close>

definition SECITEM_AllocArray ::
    "nspr \<Rightarrow> bool \<Rightarrow> SECItemArray option \<Rightarrow> u32 \<Rightarrow> SECItemArray result" where
  "SECITEM_AllocArray h arena array len =
     (if (case array of None \<Rightarrow> False | Some a \<Rightarrow> sa_items a \<noteq> None) then Inl SEC_ERROR_INVALID_ARGS
      else
        res_bind (case array of
                    None \<Rightarrow> res_bind (item_zalloc h arena sizeof_SECItemArray)
                              (\<lambda>_. Inr \<lparr>sa_items = None, sa_len = 0\<rparr>)
                  | Some a \<Rightarrow> Inr a)
          (\<lambda>result. let result = result\<lparr>sa_len := len\<rparr> in
             if len \<noteq> 0 then
               res_bind (item_zalloc h arena (sizeof_SECItem * unat len))
                 (\<lambda>_. Inr (result\<lparr>sa_items := Some (replicate (unat len) empty_item)\<rparr>))
             else Inr (result\<lparr>sa_items := None\<rparr>)))"

fun free_items :: "bool \<Rightarrow> SECItem list \<Rightarrow> SECItem list result" where
  "free_items zero_items [] = Inr []"
| "free_items zero_items (it # its) =
     res_bind (if si_data it \<noteq> None
               then (if zero_items then SECITEM_ZfreeItem it else Inr (SECITEM_FreeItem it))
               else Inr it)
       (\<lambda>it'. res_bind (free_items zero_items its) (\<lambda>its'. Inr (it' # its')))"

definition secitem_FreeArray :: "SECItemArray option \<Rightarrow> bool \<Rightarrow> SECItemArray option result" where
  "secitem_FreeArray array zero_items =
     (case array of
        None \<Rightarrow> Inr None
      | Some a \<Rightarrow>
          (case sa_items a of
             None \<Rightarrow> Inr (Some a)
           | Some its \<Rightarrow>
               res_bind (free_items zero_items (take (unat (sa_len a)) its))
                 (\<lambda>_. Inr (Some (a\<lparr>sa_items := None, sa_len := 0\<rparr>)))))"

fun copy_items :: "nspr \<Rightarrow> bool \<Rightarrow> SECItem list \<Rightarrow> SECItem list \<Rightarrow> SECItem list result" where
  "copy_items h arena (to # tos) (from # froms) =
     (case SECITEM_CopyItem h arena to from of
        Inl (e, _) \<Rightarrow> Inl e
      | Inr to' \<Rightarrow> res_bind (copy_items h arena tos froms) (\<lambda>tos'. Inr (to' # tos')))"
| "copy_items h arena tos froms = Inr tos"

definition SECITEM_DupArray ::
    "nspr \<Rightarrow> bool \<Rightarrow> SECItemArray option \<Rightarrow> SECItemArray result" where
  "SECITEM_DupArray h arena from =
     (case from of
        None \<Rightarrow> Inl NO_ERROR_SET
      | Some f \<Rightarrow>
          (if sa_items f = None \<and> sa_len f \<noteq> 0 then Inl NO_ERROR_SET
           else
             res_bind (SECITEM_AllocArray h arena None (sa_len f))
               (\<lambda>result. case (sa_items result, sa_items f) of
                    (Some tos, Some froms) \<Rightarrow>
                      res_bind (copy_items h arena tos (take (unat (sa_len f)) froms))
                        (\<lambda>tos'. Inr (result\<lparr>sa_items := Some tos'\<rparr>))
                  | _ \<Rightarrow> Inr result)))"


section \<open>Well-formed items and their contents\<close>

definition item_inv :: "SECItem \<Rightarrow> bool" where
  "item_inv it \<longleftrightarrow>
     (case si_data it of None \<Rightarrow> si_len it = 0 | Some m \<Rightarrow> unat (si_len it) \<le> length m)"

definition item_contents :: "SECItem \<Rightarrow> byte list" where
  "item_contents it = (case si_data it of None \<Rightarrow> [] | Some m \<Rightarrow> take (unat (si_len it)) m)"

definition opt_contents :: "SECItem option \<Rightarrow> byte list" where
  "opt_contents a = (case a of None \<Rightarrow> [] | Some it \<Rightarrow> item_contents it)"

definition opt_inv :: "SECItem option \<Rightarrow> bool" where
  "opt_inv a \<longleftrightarrow> (case a of None \<Rightarrow> True | Some it \<Rightarrow> item_inv it)"

lemma length_item_contents: "item_inv it \<Longrightarrow> length (item_contents it) = unat (si_len it)"
  by (auto simp: item_inv_def item_contents_def split: option.splits)

lemma item_inv_empty [simp]: "item_inv empty_item" "item_contents empty_item = []"
  by (simp_all add: item_inv_def item_contents_def empty_item_def)

lemma item_absent_iff: "opt_inv a \<Longrightarrow> item_absent a \<longleftrightarrow> opt_contents a = []"
  by (auto simp: opt_inv_def item_absent_def opt_contents_def item_inv_def item_contents_def
      unat_eq_0 split: option.splits)

text \<open>The present case: the block holds the contents.\<close>

lemma item_presentE:
  assumes "opt_inv a" and "\<not> item_absent a"
  obtains it m where "a = Some it" "si_data it = Some m" "unat (si_len it) \<le> length m"
    "item_contents it = take (unat (si_len it)) m" "0 < si_len it"
  using assms
  by (auto simp: opt_inv_def item_absent_def item_inv_def item_contents_def word_neq_0_conv
      split: option.splits)

section \<open>Comparison\<close>

definition lex_compare :: "byte list \<Rightarrow> byte list \<Rightarrow> SECComparison" where
  "lex_compare xs ys = (if xs = ys then SECEqual else if xs < ys then SECLessThan else SECGreaterThan)"

lemma PORT_Memcmp_lex:
  "(if PORT_Memcmp xs ys \<noteq> 0
    then (if PORT_Memcmp xs ys < 0 then SECLessThan else SECGreaterThan)
    else if length xs < length ys then SECLessThan
    else if length xs = length ys then SECEqual else SECGreaterThan) = lex_compare xs ys"
proof (induction xs ys rule: PORT_Memcmp.induct, goal_cases)
  case (1 x xs y ys)
  then show ?case by (auto simp: lex_compare_def split: if_splits)
next
  case (2 ys)
  then show ?case by (cases ys) (auto simp: lex_compare_def)
next
  case (3 xs)
  then show ?case by (cases xs) (auto simp: lex_compare_def)
qed

lemma PORT_Memcmp_take:
  "PORT_Memcmp (take (min (length xs) (length ys)) xs) (take (min (length xs) (length ys)) ys) =
     PORT_Memcmp xs ys"
  by (induction xs ys rule: PORT_Memcmp.induct) auto

lemma PORT_Memcmp_eq: "length xs = length ys \<Longrightarrow> PORT_Memcmp xs ys = 0 \<longleftrightarrow> xs = ys"
  by (induction xs ys rule: PORT_Memcmp.induct) auto

lemma lex_compare_Nil [simp]:
  "lex_compare xs xs = SECEqual"
  "ys \<noteq> [] \<Longrightarrow> lex_compare [] ys = SECLessThan"
  "xs \<noteq> [] \<Longrightarrow> lex_compare xs [] = SECGreaterThan"
  by (auto simp: lex_compare_def neq_Nil_conv)

lemma SECITEM_CompareItem_lex:
  assumes a: "opt_inv a" and b: "opt_inv b" and same: "same \<longrightarrow> a = b"
  shows "SECITEM_CompareItem same a b = Inr (lex_compare (opt_contents a) (opt_contents b))"
proof (cases "same \<or> item_absent a \<or> item_absent b")
  case True
  then show ?thesis
    using same item_absent_iff [OF a] item_absent_iff [OF b]
    by (auto simp: SECITEM_CompareItem_def)
next
  case False
  then obtain ia ma ib mb where
    A: "a = Some ia" "si_data ia = Some ma" "unat (si_len ia) \<le> length ma"
      "item_contents ia = take (unat (si_len ia)) ma" and
    B: "b = Some ib" "si_data ib = Some mb" "unat (si_len ib) \<le> length mb"
      "item_contents ib = take (unat (si_len ib)) mb"
    using item_presentE [OF a] item_presentE [OF b] by metis
  let ?m = "unat (if si_len ia < si_len ib then si_len ia else si_len ib)"
  have m: "?m = min (unat (si_len ia)) (unat (si_len ib))"
    by (simp add: word_less_nat_alt min_def)
  have eq: "si_len ia = si_len ib \<longleftrightarrow> unat (si_len ia) = unat (si_len ib)"
    by (simp add: word_unat_eq_iff)
  define xs ys where "xs = item_contents ia" and "ys = item_contents ib"
  have len: "length xs = unat (si_len ia)" "length ys = unat (si_len ib)"
    using A B by (simp_all add: xs_def ys_def)
  have take: "take ?m ma = take (min (length xs) (length ys)) xs"
    "take ?m mb = take (min (length xs) (length ys)) ys"
    unfolding m len using A(4) B(4) by (simp_all add: xs_def ys_def)
  have "mem_read ma 0 ?m = Inr (take ?m ma)" "mem_read mb 0 ?m = Inr (take ?m mb)"
    using A(3) B(3) by (simp_all add: mem_simps m)
  moreover note cmp = PORT_Memcmp_take [of xs ys, unfolded len]
  ultimately have "SECITEM_CompareItem same a b = Inr (lex_compare xs ys)"
    unfolding PORT_Memcmp_lex [symmetric] len take
    using False by (simp add: SECITEM_CompareItem_def Let_def A(1,2) B(1,2) cmp eq
        word_less_nat_alt cong: if_cong split del: if_split)
  then show ?thesis by (simp add: A B opt_contents_def xs_def ys_def)
qed

lemma SECITEM_ItemsAreEqual_iff:
  assumes "item_inv a" and "item_inv b"
  shows "SECITEM_ItemsAreEqual a b = Inr (item_contents a = item_contents b)"
proof (cases "si_len a = si_len b \<and> si_len a \<noteq> 0")
  case False
  have "si_len a \<noteq> si_len b \<Longrightarrow> item_contents a \<noteq> item_contents b"
    using length_item_contents [OF assms(1)] length_item_contents [OF assms(2)]
    by (metis word_unat_eq_iff)
  moreover have "si_len a = 0 \<Longrightarrow> si_len b = 0 \<Longrightarrow> item_contents a = item_contents b"
    by (simp add: item_contents_def split: option.splits)
  ultimately show ?thesis using False by (auto simp: SECITEM_ItemsAreEqual_def)
next
  case True
  with assms obtain ma mb where "si_data a = Some ma" "si_data b = Some mb"
    "unat (si_len b) \<le> length ma" "unat (si_len b) \<le> length mb"
    by (auto simp: item_inv_def split: option.splits)
  with True show ?thesis
    by (simp add: SECITEM_ItemsAreEqual_def mem_simps PORT_Memcmp_eq item_contents_def)
qed


section \<open>Allocation, copies and reallocation\<close>

lemma item_alloc_ok:
  "nspr_ok h \<Longrightarrow> item_alloc h arena n = Inr m \<Longrightarrow> length m = (if n = 0 then 1 else n)"
  by (auto simp: item_alloc_def dest: PORT_ArenaAlloc_length PORT_Alloc_length split: if_splits)

lemma item_alloc_error: "item_alloc h arena n = Inl e \<Longrightarrow> e = SEC_ERROR_NO_MEMORY"
  by (auto simp: item_alloc_def dest: PORT_ArenaAlloc_error PORT_Alloc_error split: if_splits)

lemma item_zalloc_error: "nspr_ok h \<Longrightarrow> item_zalloc h arena n = Inl e \<Longrightarrow> e = SEC_ERROR_NO_MEMORY"
  by (auto simp: item_zalloc_def dest: PORT_ArenaZAlloc_error PORT_ZAlloc_error split: if_splits)

lemma copy_block:
  assumes "length d = n" and "n \<le> length m"
  shows "res_bind (mem_read m 0 n) (mem_write d 0) = Inr (take n m)"
  using assms by (simp add: mem_simps)

definition copies :: "SECItem \<Rightarrow> item_result \<Rightarrow> bool" where
  "copies from r \<longleftrightarrow>
     (case r of
        Inl (e, _) \<Rightarrow> e = SEC_ERROR_NO_MEMORY
      | Inr to \<Rightarrow> item_inv to \<and> item_contents to = item_contents from \<and> si_type to = si_type from)"

lemma SECITEM_CopyItem_copies:
  assumes h: "nspr_ok h" and inv: "item_inv from"
  shows "copies from (SECITEM_CopyItem h arena to from)"
proof (cases "si_data from")
  case None
  then show ?thesis
    by (simp add: SECITEM_CopyItem_def copies_def item_inv_def item_contents_def)
next
  case (Some m)
  with inv have len: "unat (si_len from) \<le> length m" by (simp add: item_inv_def)
  show ?thesis
  proof (cases "si_len from = 0")
    case True
    with Some show ?thesis
      by (simp add: SECITEM_CopyItem_def copies_def item_inv_def item_contents_def)
  next
    case False
    show ?thesis
    proof (cases "item_alloc h arena (unat (si_len from))")
      case (Inl e)
      with False Some item_alloc_error [OF Inl] show ?thesis
        by (simp add: SECITEM_CopyItem_def copies_def)
    next
      case (Inr d)
      with False have "length d = unat (si_len from)"
        using item_alloc_ok [OF h Inr] by (simp add: unat_eq_0)
      note cb = copy_block [OF this len]
      from False Some Inr len show ?thesis
        by (simp add: SECITEM_CopyItem_def copies_def item_inv_def item_contents_def cb Let_def)
    qed
  qed
qed

lemma SECITEM_AllocItem_ok:
  assumes "nspr_ok h" and "SECITEM_AllocItem h arena item len = Inr it"
  shows "si_len it = len \<and> (case item of None \<Rightarrow> si_type it = siBuffer | Some i \<Rightarrow> si_type it = si_type i) \<and>
         (if len = 0 then si_data it = None else \<exists>m. si_data it = Some m \<and> length m = unat len)"
  using assms
  by (auto simp: SECITEM_AllocItem_def Let_def empty_item_def unat_eq_0 dest!: item_alloc_ok
      split: sum.splits option.splits if_splits)

lemma SECITEM_AllocItem_error:
  assumes "nspr_ok h" and "SECITEM_AllocItem h arena item len = Inl (e, it)"
  shows "e = SEC_ERROR_NO_MEMORY"
  using assms
  by (auto simp: SECITEM_AllocItem_def Let_def res_bind_Inl_iff
      dest!: item_alloc_error item_zalloc_error split: sum.splits option.splits if_splits)

lemma SECITEM_ArenaDupItem_spec:
  assumes h: "nspr_ok h" and inv: "item_inv from"
  shows "case SECITEM_ArenaDupItem h arena (Some from) of
           Inl e \<Rightarrow> e = SEC_ERROR_NO_MEMORY
         | Inr to \<Rightarrow> item_inv to \<and> item_contents to = item_contents from \<and> si_type to = si_type from"
proof (cases "SECITEM_AllocItem h arena None (si_len from)")
  case (Inl p)
  with SECITEM_AllocItem_error [OF h, of arena None "si_len from"] show ?thesis
    by (cases p) (simp add: SECITEM_ArenaDupItem_def)
next
  case (Inr to)
  note to = SECITEM_AllocItem_ok [OF h Inr]
  show ?thesis
  proof (cases "si_len from = 0")
    case True
    with Inr to show ?thesis
      by (auto simp: SECITEM_ArenaDupItem_def Let_def item_inv_def item_contents_def
          split: option.splits)
  next
    case False
    with to obtain d where d: "si_data to = Some d" "length d = unat (si_len from)" by auto
    from False inv obtain m where m: "si_data from = Some m" "unat (si_len from) \<le> length m"
      by (auto simp: item_inv_def split: option.splits)
    note cb = copy_block [OF d(2) m(2)]
    from Inr to False d m show ?thesis
      by (simp add: SECITEM_ArenaDupItem_def Let_def item_inv_def item_contents_def cb)
  qed
qed

lemma copy_items_spec:
  assumes "nspr_ok h" and "\<forall>it \<in> set froms. item_inv it" and "length tos = length froms"
  shows "case copy_items h arena tos froms of
           Inl e \<Rightarrow> e = SEC_ERROR_NO_MEMORY
         | Inr its \<Rightarrow> map item_contents its = map item_contents froms \<and>
                     map si_type its = map si_type froms \<and> (\<forall>it \<in> set its. item_inv it)"
  using assms(2,3)
proof (induction tos froms rule: list_induct2')
  case (4 x xs y ys)
  have "copies y (SECITEM_CopyItem h arena x y)"
    using 4 by (intro SECITEM_CopyItem_copies [OF assms(1)]) simp
  with 4 show ?case
    by (auto simp: copies_def split: sum.splits)
qed auto

definition array_inv :: "SECItemArray \<Rightarrow> bool" where
  "array_inv a \<longleftrightarrow>
     (case sa_items a of
        None \<Rightarrow> sa_len a = 0
      | Some its \<Rightarrow> length its = unat (sa_len a) \<and> (\<forall>it \<in> set its. item_inv it))"

definition array_contents :: "SECItemArray \<Rightarrow> byte list list" where
  "array_contents a = (case sa_items a of None \<Rightarrow> [] | Some its \<Rightarrow> map item_contents its)"

lemma SECITEM_AllocArray_ok:
  "SECITEM_AllocArray h arena None len = Inr a \<Longrightarrow>
     sa_len a = len \<and> sa_items a = (if len = 0 then None else Some (replicate (unat len) empty_item))"
  by (auto simp: SECITEM_AllocArray_def Let_def split: if_splits)

lemma SECITEM_AllocArray_error:
  "nspr_ok h \<Longrightarrow> SECITEM_AllocArray h arena None len = Inl e \<Longrightarrow> e = SEC_ERROR_NO_MEMORY"
  by (auto simp: SECITEM_AllocArray_def Let_def res_bind_Inl_iff dest: item_zalloc_error
      split: if_splits)

lemma SECITEM_DupArray_spec:
  assumes h: "nspr_ok h" and inv: "array_inv f"
  shows "case SECITEM_DupArray h arena (Some f) of
           Inl e \<Rightarrow> e = SEC_ERROR_NO_MEMORY
         | Inr a \<Rightarrow> array_inv a \<and> sa_len a = sa_len f \<and> array_contents a = array_contents f"
proof -
  have ok: "\<not> (sa_items f = None \<and> sa_len f \<noteq> 0)"
    using inv by (auto simp: array_inv_def split: option.splits)
  show ?thesis
  proof (cases "SECITEM_AllocArray h arena None (sa_len f)")
    case (Inl e)
    with ok SECITEM_AllocArray_error [OF h Inl] show ?thesis by (simp add: SECITEM_DupArray_def)
  next
    case (Inr a)
    note a = SECITEM_AllocArray_ok [OF Inr]
    show ?thesis
    proof (cases "sa_len f = 0")
      case True
      with inv have "array_contents f = []"
        by (auto simp: array_inv_def array_contents_def split: option.splits)
      with True Inr a ok show ?thesis
        by (auto simp: SECITEM_DupArray_def array_inv_def array_contents_def split: option.splits)
    next
      case False
      with inv obtain its where its: "sa_items f = Some its" "length its = unat (sa_len f)"
        "\<forall>it \<in> set its. item_inv it"
        by (auto simp: array_inv_def split: option.splits)
      from copy_items_spec [OF h its(3), of "replicate (unat (sa_len f)) empty_item" arena] its(2)
      have "case copy_items h arena (replicate (unat (sa_len f)) empty_item) its of
           Inl e \<Rightarrow> e = SEC_ERROR_NO_MEMORY
         | Inr its' \<Rightarrow> map item_contents its' = map item_contents its \<and>
                     (\<forall>it \<in> set its'. item_inv it)"
        by (auto split: sum.splits)
      with False Inr a ok its show ?thesis
        by (auto simp: SECITEM_DupArray_def array_inv_def array_contents_def
            dest: map_eq_imp_length_eq split: sum.splits)
    qed
  qed
qed

lemma SECITEM_ReallocItemV2_spec:
  assumes h: "nspr_ok h" and inv: "item_inv it"
  shows "case SECITEM_ReallocItemV2 h arena (Some it) newlen of
           Inl (e, it') \<Rightarrow> e = SEC_ERROR_NO_MEMORY \<and> it' = Some it
         | Inr it' \<Rightarrow> item_inv it' \<and> si_len it' = newlen \<and> si_type it' = si_type it \<and>
                     (let k = min (unat newlen) (unat (si_len it)) in
                      take k (item_contents it') = take k (item_contents it))"
proof (cases "si_len it = newlen \<or> newlen = 0")
  case True
  with inv show ?thesis
    by (auto simp: SECITEM_ReallocItemV2_def item_inv_def item_contents_def Let_def)
next
  case False
  then have n: "0 < unat newlen" by (simp add: unat_gt_0)
  show ?thesis
  proof (cases "si_data it")
    case None
    with inv have "si_len it = 0" by (simp add: item_inv_def)
    with False None n item_alloc_ok [OF h, of arena "unat newlen"] show ?thesis
      by (cases "item_alloc h arena (unat newlen)")
        (auto simp: SECITEM_ReallocItemV2_def item_inv_def item_contents_def Let_def)
  next
    case (Some m)
    with inv have len: "unat (si_len it) \<le> length m" by (simp add: item_inv_def)
    show ?thesis
    proof (cases arena)
      case True
      show ?thesis
      proof (cases "si_len it > newlen")
        case True
        with False Some \<open>arena\<close> len show ?thesis
          by (auto simp: SECITEM_ReallocItemV2_def item_inv_def item_contents_def Let_def
              word_less_nat_alt)
      next
        case shorter: False
        then have "unat (si_len it) \<le> unat newlen" by (simp add: word_less_nat_alt)
        with shorter False Some True len PORT_ArenaGrow_ok [OF h, of m "unat (si_len it)" "unat newlen"]
        show ?thesis
          by (cases "PORT_ArenaGrow h m (unat (si_len it)) (unat newlen)")
            (auto simp: SECITEM_ReallocItemV2_def item_inv_def item_contents_def Let_def min_def)
      qed
    next
      case arena: False
      show ?thesis
      proof (cases "PORT_Realloc h m (unat newlen)")
        case (Inl e)
        with False Some arena show ?thesis by (simp add: SECITEM_ReallocItemV2_def)
      next
        case (Inr m')
        let ?k = "min (unat newlen) (unat (si_len it))"
        from PORT_Realloc_ok [OF h Inr] have m': "length m' = unat newlen"
          "take (min (unat newlen) (length m)) m' = take (min (unat newlen) (length m)) m" by auto
        have "take ?k m' = take ?k m"
          using arg_cong [OF m'(2), of "take ?k"] len by (simp add: min_def split: if_splits)
        with False Some arena Inr m'(1) len show ?thesis
          by (auto simp: SECITEM_ReallocItemV2_def item_inv_def item_contents_def Let_def min_def)
      qed
    qed
  qed
qed


section \<open>Hashing\<close>

definition hash_bytes :: "byte list \<Rightarrow> byte list" where
  "hash_bytes data =
     foldl (\<lambda>rvc i. rvc[i mod 4 := (rvc ! (i mod 4)) XOR (data ! i)]) (replicate 4 0) [0..<length data]"

lemma SECITEM_Hash_contents:
  assumes "item_inv it"
  shows "SECITEM_Hash it = Inr (hash_bytes (item_contents it))"
proof (cases "si_len it = 0")
  case True
  then show ?thesis
    by (simp add: SECITEM_Hash_def hash_bytes_def item_contents_def split: option.splits)
next
  case False
  with assms obtain m where "si_data it = Some m" "unat (si_len it) \<le> length m"
    by (auto simp: item_inv_def split: option.splits)
  with False show ?thesis
    by (simp add: SECITEM_Hash_def hash_bytes_def item_contents_def mem_simps)
qed

section \<open>Properties\<close>

text \<open>
  C17: \<open>SECITEM_CompareItem\<close> is exactly the lexicographic order on the contents. On well-formed
  items (or null pointers, which count as empty) it never reads outside a block and answers
  \<open>SECEqual\<close>, \<open>SECLessThan\<close> or \<open>SECGreaterThan\<close> as the byte strings compare, so it is a
  total order whose equality is equality of contents.
\<close>

theorem sec_item_compare_is_lexicographic:
  assumes "opt_inv a" and "opt_inv b" and "same \<longrightarrow> a = b"
  shows "SECITEM_CompareItem same a b =
           Inr (if opt_contents a = opt_contents b then SECEqual
                else if opt_contents a < opt_contents b then SECLessThan
                else SECGreaterThan)"
  using SECITEM_CompareItem_lex [OF assms] by (simp add: lex_compare_def)

definition example_item :: "byte list \<Rightarrow> SECItem" where
  "example_item bs = \<lparr>si_type = siBuffer, si_data = Some bs, si_len = word_of_nat (length bs)\<rparr>"

lemma example_item_inv:
  "length bs < 2 ^ 32 \<Longrightarrow> item_inv (example_item bs) \<and> item_contents (example_item bs) = bs"
  by (simp add: example_item_def item_inv_def item_contents_def unat_of_nat)

theorem sec_item_compare_is_lexicographic_witness:
  "SECITEM_CompareItem False (Some (example_item [1, 2, 3])) (Some (example_item [1, 3])) =
     Inr SECLessThan"
  using sec_item_compare_is_lexicographic
    [of "Some (example_item [1, 2, 3])" "Some (example_item [1, 3])" False]
  by (simp add: opt_inv_def opt_contents_def example_item_inv)

text \<open>
  C18: the contract of the hash table that is built with \<open>SECITEM_Hash\<close> and
  \<open>SECITEM_HashCompare\<close>. On well-formed keys both are defined, comparison is equality of
  contents, and keys that compare equal have the same hash.
\<close>

theorem sec_item_hash_contract:
  assumes "item_inv a" and "item_inv b"
  shows "\<exists>ha hb eq. SECITEM_Hash a = Inr ha \<and> SECITEM_Hash b = Inr hb \<and>
           SECITEM_HashCompare a b = Inr eq \<and> (eq \<longleftrightarrow> item_contents a = item_contents b) \<and>
           (eq \<longrightarrow> ha = hb)"
  using assms
  by (simp add: SECITEM_HashCompare_def SECITEM_ItemsAreEqual_iff SECITEM_Hash_contents)

theorem sec_item_hash_contract_witness:
  "\<exists>ha hb eq. SECITEM_Hash (example_item [7]) = Inr ha \<and>
     SECITEM_Hash \<lparr>si_type = siDEROID, si_data = Some [7, 8], si_len = 1\<rparr> = Inr hb \<and>
     SECITEM_HashCompare (example_item [7])
       \<lparr>si_type = siDEROID, si_data = Some [7, 8], si_len = 1\<rparr> = Inr eq \<and> eq \<and> ha = hb"
proof -
  let ?b = "\<lparr>si_type = siDEROID, si_data = Some [7, 8], si_len = 1\<rparr>"
  have inv: "item_inv (example_item [7])" "item_inv ?b"
    by (simp_all add: example_item_def item_inv_def)
  have "item_contents (example_item [7]) = item_contents ?b"
    by (simp add: example_item_def item_contents_def)
  then show ?thesis using sec_item_hash_contract [OF inv] by auto
qed

text \<open>
  C19: \<open>SECITEM_DupArray\<close> is all or nothing. Duplicating a well-formed array fails only for
  lack of memory, and otherwise gives a well-formed array of the same length whose items have the
  same contents; no copy runs outside its block.
\<close>

theorem sec_item_dup_array:
  assumes "nspr_ok h" and "array_inv f"
  shows "case SECITEM_DupArray h arena (Some f) of
           Inl e \<Rightarrow> e = SEC_ERROR_NO_MEMORY
         | Inr a \<Rightarrow> array_inv a \<and> sa_len a = sa_len f \<and> array_contents a = array_contents f"
  by (rule SECITEM_DupArray_spec [OF assms])

theorem sec_item_dup_array_witness:
  "case SECITEM_DupArray zero_nspr True
          (Some \<lparr>sa_items = Some [example_item [1, 2], empty_item], sa_len = 2\<rparr>) of
     Inl e \<Rightarrow> False
   | Inr a \<Rightarrow> array_contents a = [[1, 2], []]"
proof -
  let ?f = "\<lparr>sa_items = Some [example_item [1, 2], empty_item], sa_len = 2\<rparr>"
  have "array_inv ?f" by (simp add: array_inv_def example_item_inv)
  moreover have "\<exists>a. SECITEM_DupArray zero_nspr True (Some ?f) = Inr a"
    by (simp add: SECITEM_DupArray_def SECITEM_AllocArray_def item_zalloc_def item_alloc_def
        PORT_ArenaZAlloc_def PORT_ArenaAlloc_def zero_nspr_def mem_write_def mem_read_def
        sizeof_SECItem_def sizeof_SECItemArray_def MAX_SIZE_def SECITEM_CopyItem_def
        example_item_def empty_item_def replicate_numeral_Cons Let_def)
  ultimately show ?thesis
    using sec_item_dup_array [OF zero_nspr_ok, of ?f True]
    by (auto simp: array_contents_def example_item_inv split: sum.splits)
qed

text \<open>
  C20: \<open>SECITEM_ReallocItemV2\<close> is safe in both directions and on failure. A successful call
  sets the length, keeps the contents up to the shorter length and the type, and leaves a
  well-formed item; a failing call leaves the item unchanged.
\<close>

theorem sec_item_realloc_v2:
  assumes "nspr_ok h" and "item_inv it"
  shows "case SECITEM_ReallocItemV2 h arena (Some it) newlen of
           Inl (e, it') \<Rightarrow> e = SEC_ERROR_NO_MEMORY \<and> it' = Some it
         | Inr it' \<Rightarrow> item_inv it' \<and> si_len it' = newlen \<and> si_type it' = si_type it \<and>
                     (let k = min (unat newlen) (unat (si_len it)) in
                      take k (item_contents it') = take k (item_contents it))"
  by (rule SECITEM_ReallocItemV2_spec [OF assms])

theorem sec_item_realloc_v2_witness:
  "case SECITEM_ReallocItemV2 zero_nspr False (Some (example_item [1, 2, 3])) 2 of
     Inl (e, it') \<Rightarrow> False
   | Inr it' \<Rightarrow> item_inv it' \<and> si_len it' = 2 \<and> take 2 (item_contents it') = [1, 2]"
proof -
  have "item_inv (example_item [1, 2, 3])" by (simp add: example_item_inv)
  moreover have "\<exists>it. SECITEM_ReallocItemV2 zero_nspr False (Some (example_item [1, 2, 3])) 2 = Inr it"
    by (simp add: SECITEM_ReallocItemV2_def example_item_def PORT_Realloc_def zero_nspr_def MAX_SIZE_def)
  moreover have "unat (si_len (example_item [1, 2, 3])) = 3" by (simp add: example_item_def)
  ultimately show ?thesis
    using sec_item_realloc_v2 [OF zero_nspr_ok, where it = "example_item [1, 2, 3]" and arena = False and newlen = 2]
    by (auto simp: example_item_inv split: sum.splits)
qed

end
