(* ===== verification/Dtls_Window.thy ===== *)
theory Dtls_Window
  imports Ssl_Encode
begin

text \<open>
  The parts of \<^verbatim>\<open>lib/ssl/dtlscon.c\<close> that decide which DTLS records are looked at: the
  version numbers on the wire, the anti-replay window, and the recovery of the epoch and of the
  sequence number from the abbreviated record header of DTLS 1.3.

  The window is the ring of 1024 bits of \<^verbatim>\<open>sslspec.h\<close> with its 64-bit bounds, and its
  abstraction is the set of sequence numbers marked so far. A record header is the 13-byte array of
  the gather state, a list of 13 bytes.
\<close>

section \<open>Versions\<close>

abbreviation SSL_LIBRARY_VERSION_3_0 :: u16 where
  "SSL_LIBRARY_VERSION_3_0 \<equiv> 0x0300"

abbreviation SSL_LIBRARY_VERSION_TLS_1_1 :: u16 where
  "SSL_LIBRARY_VERSION_TLS_1_1 \<equiv> 0x0302"

abbreviation SSL_LIBRARY_VERSION_TLS_1_2 :: u16 where
  "SSL_LIBRARY_VERSION_TLS_1_2 \<equiv> 0x0303"

abbreviation SSL_LIBRARY_VERSION_TLS_1_3 :: u16 where
  "SSL_LIBRARY_VERSION_TLS_1_3 \<equiv> 0x0304"

definition SSL_LIBRARY_VERSION_DTLS_1_0_WIRE :: u16 where
  "SSL_LIBRARY_VERSION_DTLS_1_0_WIRE = NOT 0x0100"

definition SSL_LIBRARY_VERSION_DTLS_1_2_WIRE :: u16 where
  "SSL_LIBRARY_VERSION_DTLS_1_2_WIRE = NOT 0x0102"

definition SSL_LIBRARY_VERSION_DTLS_1_3_WIRE :: u16 where
  "SSL_LIBRARY_VERSION_DTLS_1_3_WIRE = NOT 0x0103"

definition dtls_TLSVersionToDTLSVersion :: "u16 \<Rightarrow> u16" where
  "dtls_TLSVersionToDTLSVersion tlsv =
     (if tlsv = SSL_LIBRARY_VERSION_TLS_1_1 then SSL_LIBRARY_VERSION_DTLS_1_0_WIRE
      else if tlsv = SSL_LIBRARY_VERSION_TLS_1_2 then SSL_LIBRARY_VERSION_DTLS_1_2_WIRE
      else if tlsv = SSL_LIBRARY_VERSION_TLS_1_3 then SSL_LIBRARY_VERSION_DTLS_1_3_WIRE
      else 0xffff)"

definition dtls_DTLSVersionToTLSVersion :: "u16 \<Rightarrow> u16" where
  "dtls_DTLSVersionToTLSVersion dtlsv =
     (if (ucast (drop_bit 8 dtlsv) :: byte) = 0xff then 0
      else if dtlsv = SSL_LIBRARY_VERSION_DTLS_1_0_WIRE then SSL_LIBRARY_VERSION_TLS_1_1
      else if dtlsv = NOT 0x0101 then 0
      else if dtlsv = SSL_LIBRARY_VERSION_DTLS_1_2_WIRE then SSL_LIBRARY_VERSION_TLS_1_2
      else if dtlsv = SSL_LIBRARY_VERSION_DTLS_1_3_WIRE then SSL_LIBRARY_VERSION_TLS_1_3
      else SSL_LIBRARY_VERSION_TLS_1_3 + 1)"

section \<open>The anti-replay window\<close>

record DTLSRecvdRecords =
  rr_data :: "byte list"
  rr_left :: u64
  rr_right :: u64

definition DTLS_RECVD_RECORDS_WINDOW :: u64 where
  "DTLS_RECVD_RECORDS_WINDOW = 1024"

definition RECORD_SEQ_MAX :: u64 where
  "RECORD_SEQ_MAX = push_bit 48 1 - 1"

definition dtls_InitRecvdRecords :: DTLSRecvdRecords where
  "dtls_InitRecvdRecords =
     \<lparr>rr_data = replicate (unat (DTLS_RECVD_RECORDS_WINDOW div 8)) 0, rr_left = 0,
      rr_right = DTLS_RECVD_RECORDS_WINDOW - 1\<rparr>"

definition dtls_RecordGetRecvd :: "DTLSRecvdRecords \<Rightarrow> u64 \<Rightarrow> int" where
  "dtls_RecordGetRecvd records seq =
     (if seq < rr_left records then - 1
      else if seq > rr_right records then 0
      else
        let off = seq mod DTLS_RECVD_RECORDS_WINDOW in
        if rr_data records ! unat (off div 8) AND push_bit (unat (off mod 8)) 1 \<noteq> 0 then 1 else 0)"

text \<open>
  The loop that zeroes the bytes between the old and the new right end. Its counter is a 64-bit
  number, so for a right end in the last eight values it never ends: not returning is \<open>None\<close>.
\<close>

partial_function (option) dtls_zero_ahead :: "u64 \<Rightarrow> u64 \<Rightarrow> byte list \<Rightarrow> byte list option" where
  [code]: "dtls_zero_ahead right new_right data =
     (if right \<le> new_right
      then dtls_zero_ahead (right + 8) new_right
             (data[unat (right mod DTLS_RECVD_RECORDS_WINDOW div 8) := 0])
      else Some data)"

definition dtls_RecordSetRecvd :: "DTLSRecvdRecords \<Rightarrow> u64 \<Rightarrow> DTLSRecvdRecords option" where
  "dtls_RecordSetRecvd records seq =
     (if seq < rr_left records then Some records
      else
        let slid =
          (if seq > rr_right records then
             let new_right = seq OR 7;
                 new_left = (new_right - DTLS_RECVD_RECORDS_WINDOW) + 1
             in map_option (\<lambda>data. \<lparr>rr_data = data, rr_left = new_left, rr_right = new_right\<rparr>)
                  (if new_right > rr_right records + DTLS_RECVD_RECORDS_WINDOW
                   then Some (replicate (length (rr_data records)) 0)
                   else dtls_zero_ahead (rr_right records + 8) new_right (rr_data records))
           else Some records);
            off = seq mod DTLS_RECVD_RECORDS_WINDOW;
            i = unat (off div 8)
        in map_option
             (\<lambda>r. r\<lparr>rr_data := (rr_data r)[i := rr_data r ! i OR push_bit (unat (off mod 8)) 1]\<rparr>)
             slid)"

section \<open>Record headers\<close>

abbreviation ssl_ct_change_cipher_spec :: byte where
  "ssl_ct_change_cipher_spec \<equiv> 20"

abbreviation ssl_ct_alert :: byte where
  "ssl_ct_alert \<equiv> 21"

abbreviation ssl_ct_handshake :: byte where
  "ssl_ct_handshake \<equiv> 22"

abbreviation ssl_ct_application_data :: byte where
  "ssl_ct_application_data \<equiv> 23"

abbreviation ssl_ct_ack :: byte where
  "ssl_ct_ack \<equiv> 26"

definition dtls_IsLongHeader :: "u16 \<Rightarrow> byte \<Rightarrow> bool" where
  "dtls_IsLongHeader version firstOctet \<longleftrightarrow>
     version < SSL_LIBRARY_VERSION_TLS_1_3 \<or> firstOctet = ssl_ct_handshake \<or>
     firstOctet = ssl_ct_ack \<or> firstOctet = ssl_ct_alert"

definition dtls_IsDtls13Ciphertext :: "u16 \<Rightarrow> byte \<Rightarrow> bool" where
  "dtls_IsDtls13Ciphertext version firstOctet \<longleftrightarrow>
     (version = 0 \<or> version \<ge> SSL_LIBRARY_VERSION_TLS_1_3) \<and> firstOctet AND 0xe0 = 0x20"

definition dtls_ReadEpoch :: "u16 \<Rightarrow> u16 \<Rightarrow> byte list \<Rightarrow> u16" where
  "dtls_ReadEpoch version specEpoch hdr =
     (if dtls_IsLongHeader version (hdr ! 0)
      then push_bit 8 (ucast (hdr ! 3)) OR ucast (hdr ! 4)
      else
        let epoch = (specEpoch AND NOT 3) OR (ucast (hdr ! 0) AND 3) in
        if epoch > specEpoch \<and> epoch > 4 then epoch - 4 else epoch)"

text \<open>
  The full header carries the number itself; its reader cannot fail on the six bytes it is given, and
  the result it leaves undefined if it did is made explicit. The abbreviated header carries the low 16
  or 8 bits.
\<close>

definition dtls_ReadSequenceNumber :: "u16 \<Rightarrow> u64 \<Rightarrow> byte list \<Rightarrow> u64 result" where
  "dtls_ReadSequenceNumber version nextSeqNum hdr =
     (if dtls_IsLongHeader version (hdr ! 0) then
        (case sslRead_ReadNumber (SSL_READER (take 6 (drop 5 hdr)) 6) 6 of
           Inl _ \<Rightarrow> Inl UNDEFINED_BEHAVIOUR
         | Inr (_, seqNum) \<Rightarrow> Inr seqNum)
      else
        let long = (hdr ! 0 AND 0x08 \<noteq> 0);
            cap = nextSeqNum + (if long then push_bit 15 1 else push_bit 7 1);
            partial = (if long then push_bit 8 (ucast (hdr ! 1)) OR ucast (hdr ! 2)
                       else ucast (hdr ! 1));
            mask = (if long then push_bit 16 1 - 1 else push_bit 8 1 - 1);
            seqNum = (cap AND NOT mask) OR partial
        in Inr (if partial > cap AND mask \<and> seqNum > mask then seqNum - (mask + 1) else seqNum))"

section \<open>The window as a set\<close>

declare unat_mod_word [simp] unat_div_word [simp]

lemma nat_or_7: "(n::nat) OR 7 = 8 * (n div 8) + 7"
proof -
  have "n OR 7 = of_bool True + 2 * (of_bool True + 2 * (of_bool True + 2 * (n div 2 div 2 div 2)))"
    by (subst or_nat_rec, subst or_nat_rec, subst or_nat_rec) simp
  then show ?thesis by (simp add: div_mult2_eq [symmetric])
qed

lemma unat_or_7: "unat (w OR 7 :: u64) = 8 * (unat w div 8) + 7"
  by (simp add: unsigned_or_eq nat_or_7)

definition recvd_inv :: "DTLSRecvdRecords \<Rightarrow> bool" where
  "recvd_inv r \<longleftrightarrow> length (rr_data r) = 128 \<and> unat (rr_right r) mod 8 = 7 \<and>
     unat (rr_left r) + 1023 = unat (rr_right r) \<and> unat (rr_right r) < 2 ^ 48"

definition ring_bit :: "byte list \<Rightarrow> nat \<Rightarrow> bool" where
  "ring_bit data s \<longleftrightarrow> bit (data ! (s mod 1024 div 8)) (s mod 8)"

definition recvd_rel :: "DTLSRecvdRecords \<Rightarrow> nat set \<Rightarrow> bool" where
  "recvd_rel r S \<longleftrightarrow> recvd_inv r \<and> (\<forall>s\<in>S. s \<le> unat (rr_right r)) \<and>
     (\<forall>s. unat (rr_left r) \<le> s \<and> s \<le> unat (rr_right r) \<longrightarrow> (ring_bit (rr_data r) s \<longleftrightarrow> s \<in> S))"

lemma recvd_rel_init: "recvd_rel dtls_InitRecvdRecords {}"
  by (auto simp: recvd_rel_def recvd_inv_def dtls_InitRecvdRecords_def DTLS_RECVD_RECORDS_WINDOW_def
      ring_bit_def nth_replicate)

lemma dtls_RecordGetRecvd_rel:
  assumes "recvd_rel r S"
  shows "dtls_RecordGetRecvd r seq =
           (if unat seq < unat (rr_left r) then - 1 else if unat seq \<in> S then 1 else 0)"
proof -
  have "(rr_data r ! (unat seq mod 1024 div 8) AND push_bit (unat seq mod 1024 mod 8) 1 \<noteq> 0) \<longleftrightarrow>
      ring_bit (rr_data r) (unat seq)"
    by (simp add: ring_bit_def bit_iff_and_push_bit_not_eq_0 mod_mod_cancel)
  then show ?thesis
    using assms unfolding recvd_rel_def
    by (auto simp: dtls_RecordGetRecvd_def DTLS_RECVD_RECORDS_WINDOW_def Let_def
        word_less_nat_alt not_less)
qed

lemma ex_nat_Suc_iff: "(\<exists>k::nat. P k) \<longleftrightarrow> P 0 \<or> (\<exists>k. P (Suc k))"
  by (metis not0_implies_Suc)

lemma dtls_zero_ahead_spec:
  assumes "unat b < 2 ^ 63" "length data = 128"
  shows "\<exists>data'. dtls_zero_ahead a b data = Some data' \<and> length data' = 128 \<and>
     (\<forall>j < 128. data' ! j =
        (if \<exists>k. unat a + 8 * k \<le> unat b \<and> (unat a + 8 * k) mod 1024 div 8 = j then 0 else data ! j))"
  using assms
proof (induction "unat b + 8 - unat a" arbitrary: a data rule: less_induct)
  case less
  show ?case
  proof (cases "a \<le> b")
    case False
    then have "unat b < unat a" by (simp add: word_le_nat_alt)
    with False less.prems show ?thesis by (subst dtls_zero_ahead.simps) auto
  next
    case True
    let ?d = "data[unat a mod 1024 div 8 := 0]"
    have le: "unat a \<le> unat b" using True by (simp add: word_le_nat_alt)
    have ua: "unat (a + 8) = unat a + 8"
      using less.prems le by (subst unat_plus_no_wrap) auto
    have step: "dtls_zero_ahead a b data = dtls_zero_ahead (a + 8) b ?d"
      using True by (subst dtls_zero_ahead.simps) (simp add: DTLS_RECVD_RECORDS_WINDOW_def)
    have ex: "(\<exists>k. unat a + 8 * k \<le> unat b \<and> (unat a + 8 * k) mod 1024 div 8 = j) \<longleftrightarrow>
       j = unat a mod 1024 div 8 \<or>
       (\<exists>k. unat a + 8 + 8 * k \<le> unat b \<and> (unat a + 8 + 8 * k) mod 1024 div 8 = j)" for j
      using le by (subst ex_nat_Suc_iff) (auto simp: algebra_simps)
    have dec: "unat b - unat a < unat b + 8 - unat a" using le by arith
    obtain data' where "dtls_zero_ahead (a + 8) b ?d = Some data'" "length data' = 128"
      "\<forall>j < 128. data' ! j = (if \<exists>k. unat a + 8 + 8 * k \<le> unat b \<and>
         (unat a + 8 + 8 * k) mod 1024 div 8 = j then 0 else ?d ! j)"
      using less.hyps [of "a + 8" ?d] less.prems le dec by (auto simp: ua)
    then show ?thesis
      using less.prems(2) unfolding step by (auto simp: ex nth_list_update)
  qed
qed
lemma block_index: "(n::nat) mod 1024 div 8 = n div 8 mod 128"
  using mod_mult2_eq [of n 8 128] by simp

lemma split_8: "8 * (x::nat) + a mod 8 = 8 * y + b mod 8 \<longleftrightarrow> x = y \<and> a mod 8 = b mod 8"
proof -
  have "a mod 8 < 8" "b mod 8 < 8" by simp_all
  then have "8 * x + a mod 8 = 8 * y + b mod 8 \<Longrightarrow> x = y" by linarith
  then show ?thesis by auto
qed

lemma mod_eq_close: "(a::nat) mod m = b mod m \<Longrightarrow> a \<le> b \<Longrightarrow> b < a + m \<Longrightarrow> a = b"
  by (metis add_diff_cancel_left' le_add_diff_inverse less_diff_conv2 mod_eq_dvd_iff_nat
      nat_dvd_not_less neq0_conv add.commute add.right_neutral)

lemma ring_bit_set:
  assumes "length data = 128"
  shows "ring_bit (data[s mod 1024 div 8 := data ! (s mod 1024 div 8) OR push_bit (s mod 8) 1]) t \<longleftrightarrow>
           ring_bit data t \<or> t mod 1024 = s mod 1024"
proof -
  have eq: "t mod 1024 = s mod 1024 \<longleftrightarrow> t div 8 mod 128 = s div 8 mod 128 \<and> t mod 8 = s mod 8"
    using mod_mult2_eq [of t 8 128] mod_mult2_eq [of s 8 128] by (simp add: split_8)
  have m: "s mod 8 < 8" by simp
  show ?thesis
    using assms m unfolding eq ring_bit_def block_index
    by (auto simp: nth_list_update bit_or_iff bit_exp_iff push_bit_eq_mult possible_bit_word)
qed

lemma ring_bit_zero_ahead:
  assumes "recvd_rel r S" "unat (rr_right r) < 8 * N + 7" "length data' = 128"
    "\<forall>j < 128. data' ! j = (if \<exists>k. unat (rr_right r) + 8 + 8 * k \<le> 8 * N + 7 \<and>
         (unat (rr_right r) + 8 + 8 * k) mod 1024 div 8 = j then 0 else rr_data r ! j)"
    "8 * N + 7 \<le> t + 1023" "t \<le> 8 * N + 7"
  shows "ring_bit data' t \<longleftrightarrow> t \<in> S"
proof -
  define R where "R = unat (rr_right r) div 8"
  have R: "unat (rr_right r) = 8 * R + 7"
    using assms(1) div_mult_mod_eq [of "unat (rr_right r)" 8]
    by (simp add: R_def recvd_rel_def recvd_inv_def)
  have blk: "(8 * R + 7 + 8 + 8 * k) mod 1024 div 8 = (R + 1 + k) mod 128" for k
  proof -
    have "8 * R + 7 + 8 + 8 * k = 7 + 8 * (R + 1 + k)" by simp
    then have "(8 * R + 7 + 8 + 8 * k) div 8 = R + 1 + k" by (simp add: algebra_simps)
    then show ?thesis by (simp only: block_index)
  qed
  have data': "data' ! (t div 8 mod 128) =
      (if \<exists>k. R + 1 + k \<le> N \<and> (R + 1 + k) mod 128 = t div 8 mod 128 then 0
       else rr_data r ! (t div 8 mod 128))"
    using assms(4) unfolding R blk by auto
  have t: "8 * (t div 8) + t mod 8 = t" "t mod 8 < 8" by simp_all
  show ?thesis
  proof (cases "t \<le> unat (rr_right r)")
    case True
    have n: "\<not> (\<exists>k. R + 1 + k \<le> N \<and> (R + 1 + k) mod 128 = t div 8 mod 128)"
    proof
      assume "\<exists>k. R + 1 + k \<le> N \<and> (R + 1 + k) mod 128 = t div 8 mod 128"
      then obtain k where k: "R + 1 + k \<le> N" "t div 8 mod 128 = (R + 1 + k) mod 128" by metis
      have "t div 8 \<le> R" "N \<le> t div 8 + 127" using True R assms(5) t by linarith+
      with k mod_eq_close [OF k(2)] show False by simp
    qed
    have "ring_bit data' t \<longleftrightarrow> ring_bit (rr_data r) t"
      by (simp only: ring_bit_def block_index data' n if_False)
    then show ?thesis
      using assms(1,2,5) True unfolding recvd_rel_def recvd_inv_def by auto
  next
    case False
    have "R + 1 \<le> t div 8" "t div 8 \<le> N" using False R assms(6) t by linarith+
    then have "R + 1 + (t div 8 - R - 1) = t div 8" "t div 8 \<le> N" by simp_all
    then have "\<exists>k. R + 1 + k \<le> N \<and> (R + 1 + k) mod 128 = t div 8 mod 128" by metis
    then have "\<not> ring_bit data' t" using data' by (simp add: ring_bit_def block_index)
    then show ?thesis using assms(1) False unfolding recvd_rel_def by auto
  qed
qed
lemma recvd_slide:
  assumes rel: "recvd_rel r S" and gt: "rr_right r < seq" and small: "unat seq < 2 ^ 48"
  defines "nr \<equiv> seq OR 7"
  shows "\<exists>data. (if nr > rr_right r + DTLS_RECVD_RECORDS_WINDOW
               then Some (replicate (length (rr_data r)) 0)
               else dtls_zero_ahead (rr_right r + 8) nr (rr_data r)) = Some data \<and>
           recvd_rel \<lparr>rr_data = data, rr_left = nr - DTLS_RECVD_RECORDS_WINDOW + 1, rr_right = nr\<rparr> S"
proof -
  define N where "N = unat seq div 8"
  have nr: "unat nr = 8 * N + 7" by (simp add: nr_def N_def unat_or_7)
  have inv: "length (rr_data r) = 128" "unat (rr_right r) mod 8 = 7" "unat (rr_left r) + 1023 = unat (rr_right r)"
      "unat (rr_right r) < 2 ^ 48" and S: "\<And>s. s \<in> S \<Longrightarrow> s \<le> unat (rr_right r)"
    using rel by (auto simp: recvd_rel_def recvd_inv_def)
  have r1: "unat (rr_right r) < 8 * N + 7"
    using gt by (simp add: word_less_nat_alt N_def)
  have N: "8 * N + 7 < 2 ^ 48" proof -
    have "N < 2 ^ 45" using small by (simp add: N_def less_mult_imp_div_less)
    then show ?thesis by simp
  qed
  have W: "unat (rr_right r + DTLS_RECVD_RECORDS_WINDOW) = unat (rr_right r) + 1024"
      "unat (rr_right r + 8) = unat (rr_right r) + 8"
    using inv(4) by (subst unat_plus_no_wrap; simp add: DTLS_RECVD_RECORDS_WINDOW_def)+
  have left: "unat (nr - DTLS_RECVD_RECORDS_WINDOW + 1) + 1023 = 8 * N + 7"
  proof -
    have e: "nr - DTLS_RECVD_RECORDS_WINDOW + 1 = nr - 1023" by (simp add: DTLS_RECVD_RECORDS_WINDOW_def)
    have "(1023::u64) \<le> nr" "127 \<le> N" using r1 inv(3) by (simp_all add: word_le_nat_alt nr)
    then show ?thesis unfolding e using unat_sub [of 1023 nr] by (simp add: nr)
  qed
  have fin: "recvd_rel \<lparr>rr_data = data, rr_left = nr - DTLS_RECVD_RECORDS_WINDOW + 1, rr_right = nr\<rparr> S"
    if "length data = 128" "\<And>t. 8 * N + 7 \<le> t + 1023 \<Longrightarrow> t \<le> 8 * N + 7 \<Longrightarrow> ring_bit data t \<longleftrightarrow> t \<in> S" for data
    using that left r1 S N unfolding recvd_rel_def recvd_inv_def by (force simp: nr)
  show ?thesis
  proof (cases "nr > rr_right r + DTLS_RECVD_RECORDS_WINDOW")
    case True
    then have far: "unat (rr_right r) + 1024 < 8 * N + 7" by (simp add: word_less_nat_alt W nr)
    have "ring_bit (replicate 128 0) t \<longleftrightarrow> t \<in> S" if "8 * N + 7 \<le> t + 1023" for t
      using far that S [of t] by (auto simp: ring_bit_def block_index)
    then show ?thesis using True inv(1) fin by simp
  next
    case False
    obtain data where d: "dtls_zero_ahead (rr_right r + 8) nr (rr_data r) = Some data"
        "length data = 128"
        "\<forall>j < 128. data ! j = (if \<exists>k. unat (rr_right r) + 8 + 8 * k \<le> 8 * N + 7 \<and>
           (unat (rr_right r) + 8 + 8 * k) mod 1024 div 8 = j then 0 else rr_data r ! j)"
      using dtls_zero_ahead_spec [of nr "rr_data r" "rr_right r + 8"] N inv(1) unfolding nr W by auto
    then show ?thesis
      using False fin [OF d(2) ring_bit_zero_ahead [OF rel r1 d(2,3)]] by simp
  qed
qed

lemma dtls_RecordSetRecvd_rel:
  assumes rel: "recvd_rel r S" and small: "unat seq < 2 ^ 48"
  shows "\<exists>r'. dtls_RecordSetRecvd r seq = Some r' \<and> recvd_rel r' (insert (unat seq) S) \<and>
           unat (rr_right r') = max (unat (rr_right r)) (8 * (unat seq div 8) + 7)"
proof -
  let ?mark = "\<lambda>r. r\<lparr>rr_data := (rr_data r)[unat seq mod 1024 div 8 :=
      rr_data r ! (unat seq mod 1024 div 8) OR push_bit (unat seq mod 8) 1]\<rparr>"
  have mark: "recvd_rel (?mark q) (insert (unat seq) S)"
    if q: "recvd_rel q S" "unat (rr_left q) \<le> unat seq" "unat seq \<le> unat (rr_right q)" for q
  proof -
    have "t mod 1024 = unat seq mod 1024 \<longleftrightarrow> t = unat seq"
      if "unat (rr_left q) \<le> t" "t \<le> unat (rr_right q)" for t
      using q that mod_eq_close [of t 1024 "unat seq"] mod_eq_close [of "unat seq" 1024 t]
      unfolding recvd_rel_def recvd_inv_def by (cases "t \<le> unat seq") auto
    then show ?thesis
      using q unfolding recvd_rel_def recvd_inv_def by (auto simp: ring_bit_set simp del: push_bit_of_1)
  qed
  have off: "unat (seq mod DTLS_RECVD_RECORDS_WINDOW div 8) = unat seq mod 1024 div 8"
      "unat (seq mod DTLS_RECVD_RECORDS_WINDOW mod 8) = unat seq mod 8"
    by (simp_all add: DTLS_RECVD_RECORDS_WINDOW_def mod_mod_cancel)
  have le: "8 * (unat seq div 8) + 7 \<le> unat (rr_right r)" if "unat seq \<le> unat (rr_right r)"
    using div_le_mono [OF that, of 8] rel div_mult_mod_eq [of "unat (rr_right r)" 8]
    unfolding recvd_rel_def recvd_inv_def by linarith
  consider (old) "seq < rr_left r" | (window) "rr_left r \<le> seq" "seq \<le> rr_right r" | (new) "rr_right r < seq"
    by fastforce
  then show ?thesis
  proof cases
    case old
    then show ?thesis using rel le
      by (auto simp: max_def dtls_RecordSetRecvd_def word_less_nat_alt recvd_rel_def recvd_inv_def)
  next
    case window
    then have "\<not> seq < rr_left r" "\<not> rr_right r < seq" "unat (rr_left r) \<le> unat seq"
        "unat seq \<le> unat (rr_right r)"
      by (simp_all add: not_less word_le_nat_alt)
    then show ?thesis using mark [OF rel] le
      by (simp add: max_absorb1 dtls_RecordSetRecvd_def off Let_def
          del: unat_mod_word unat_div_word push_bit_of_1)
  next
    case new
    have nl: "\<not> seq < rr_left r"
      using new rel by (auto simp: word_less_nat_alt recvd_rel_def recvd_inv_def)
    obtain data where slid:
        "(if seq OR 7 > rr_right r + DTLS_RECVD_RECORDS_WINDOW
          then Some (replicate (length (rr_data r)) 0)
          else dtls_zero_ahead (rr_right r + 8) (seq OR 7) (rr_data r)) = Some data"
        "recvd_rel \<lparr>rr_data = data, rr_left = (seq OR 7) - DTLS_RECVD_RECORDS_WINDOW + 1,
           rr_right = seq OR 7\<rparr> S"
      using recvd_slide [OF rel new small] by auto
    have b: "unat seq \<le> unat (seq OR 7)" "unat (seq OR 7) \<le> unat seq + 7"
      unfolding unat_or_7 by linarith+
    have lt: "unat (rr_right r) < unat seq" using new by (simp add: word_less_nat_alt)
    have "unat ((seq OR 7) - DTLS_RECVD_RECORDS_WINDOW + 1) \<le> unat seq"
      using slid(2) b unfolding recvd_rel_def recvd_inv_def by simp
    note rel' = mark [OF slid(2), simplified, OF this b(1)]
    have "dtls_RecordSetRecvd r seq = Some (?mark \<lparr>rr_data = data,
        rr_left = (seq OR 7) - DTLS_RECVD_RECORDS_WINDOW + 1, rr_right = seq OR 7\<rparr>)"
      unfolding dtls_RecordSetRecvd_def Let_def off if_P [OF new] slid(1) if_not_P [OF nl] option.map ..
    then show ?thesis using rel' b lt by (simp add: max_absorb2 unat_or_7)
  qed
qed

fun mark_all :: "('w \<Rightarrow> 's \<Rightarrow> 'w option) \<Rightarrow> 'w \<Rightarrow> 's list \<Rightarrow> 'w option" where
  "mark_all mark w [] = Some w"
| "mark_all mark w (s # ss) = Option.bind (mark w s) (\<lambda>w'. mark_all mark w' ss)"

locale replay_filter =
  fixes rel :: "'w \<Rightarrow> nat set \<Rightarrow> bool"
    and ceiling :: "'w \<Rightarrow> nat"
    and seen :: "'w \<Rightarrow> u64 \<Rightarrow> int"
    and mark :: "'w \<Rightarrow> u64 \<Rightarrow> 'w option"
    and valid :: "u64 \<Rightarrow> bool"
  assumes seen_iff: "rel w S \<Longrightarrow> seen w s =
      (if unat s + 1023 < ceiling w then - 1 else if unat s \<in> S then 1 else 0)"
    and mark_ok: "rel w S \<Longrightarrow> valid s \<Longrightarrow> \<exists>w'. mark w s = Some w' \<and> rel w' (insert (unat s) S) \<and>
      ceiling w' = max (ceiling w) (8 * (unat s div 8) + 7)"
begin

lemma mark_all_ok:
  "rel w S \<Longrightarrow> \<forall>s \<in> set ss. valid s \<Longrightarrow>
     \<exists>w'. mark_all mark w ss = Some w' \<and> rel w' (S \<union> unat ` set ss) \<and>
          ceiling w' = fold max (map (\<lambda>s. 8 * (unat s div 8) + 7) ss) (ceiling w)"
proof (induction ss arbitrary: w S)
  case (Cons s ss)
  obtain w1 where "mark w s = Some w1" "rel w1 (insert (unat s) S)"
      "ceiling w1 = max (ceiling w) (8 * (unat s div 8) + 7)"
    using mark_ok Cons.prems by fastforce
  with Cons.IH [of w1 "insert (unat s) S"] Cons.prems show ?case
    by (auto simp: max.commute)
qed simp

lemma marked_rejected:
  assumes "rel w S" "unat s \<in> S"
  shows "seen w s \<noteq> 0"
  using assms by (simp add: seen_iff)

end

interpretation dtls_filter: replay_filter recvd_rel "\<lambda>r. unat (rr_right r)" dtls_RecordGetRecvd
  dtls_RecordSetRecvd "\<lambda>s. s \<le> RECORD_SEQ_MAX"
proof (unfold_locales, goal_cases)
  case (1 w S s)
  then show ?case
    by (auto simp: dtls_RecordGetRecvd_rel [OF 1] recvd_rel_def recvd_inv_def)
next
  case (2 w S s)
  then show ?case using dtls_RecordSetRecvd_rel [of w S s]
    by (simp add: RECORD_SEQ_MAX_def word_le_nat_alt)
qed

lemma unat_mem_image: "unat x \<in> unat ` S \<longleftrightarrow> x \<in> S"
  by (auto simp: image_iff word_unat_eq_iff [symmetric])

section \<open>Abbreviated headers\<close>

lemma recover_low_nat:
  fixes e n h M :: nat
  assumes M: "M = 2 * h" "0 < h" and lo: "e < n + h" and hi: "n \<le> e + h"
  shows "M * ((e + h) div M) + n mod M = (if (e + h) mod M < n mod M then n + M else n)"
proof -
  define q where "q = (e + h) div M"
  define c where "c = (e + h) mod M"
  have c: "e + h = M * q + c" "c < M" using M by (simp_all add: q_def c_def)
  define d where "d = n div M"
  define m where "m = n mod M"
  have m: "n = M * d + m" "m < M" using M by (simp_all add: d_def m_def)
  have "M * q + m = (if c < m then n + M else n)"
  proof (cases "c < m")
    case True
    have "M * d < M * q" "M * q < M * d + 2 * M" using True c m lo hi M(1) by linarith+
    then have "d < q" "q < d + 2"
      using mult_less_cancel1 [of M q "d + 2"] by (simp_all add: algebra_simps)
    then have "q = d + 1" by simp
    with True m show ?thesis by simp
  next
    case False
    have "M * q < M * d + M" "M * d < M * q + M" using False c m lo hi M(1) by linarith+
    then have "q < d + 1" "d < q + 1"
      using mult_less_cancel1 [of M q "d + 1"] mult_less_cancel1 [of M d "q + 1"]
      by (simp_all add: algebra_simps)
    then have "q = d" by simp
    with False m show ?thesis by simp
  qed
  then show ?thesis by (simp add: q_def c_def m_def)
qed

lemma dtls_ReadSequenceNumber_short:
  assumes short: "\<not> dtls_IsLongHeader v (hdr ! 0)"
    and lo: "unat e < unat n + 2 ^ (k - 1)" and hi: "unat n \<le> unat e + 2 ^ (k - 1)"
    and small: "unat e < 2 ^ 63"
    and hdr: "(hdr ! 0 AND 8 \<noteq> 0 \<and> k = 16 \<and> hdr ! 1 = ucast (drop_bit 8 n) \<and> hdr ! 2 = ucast n) \<or>
              (hdr ! 0 AND 8 = 0 \<and> k = 8 \<and> hdr ! 1 = ucast n)"
  shows "dtls_ReadSequenceNumber v e hdr = Inr n"
proof -
  define partial :: u64 where "partial = n AND mask k"
  have k: "k = 16 \<or> k = 8" using hdr by auto
  have P: "unat partial = unat n mod 2 ^ k" by (simp add: partial_def unat_and_mask)
  have pow: "(2::nat) ^ k = 2 * 2 ^ (k - 1)" using k by auto
  define cp where "cp = e + push_bit (k - 1) 1"
  have cap: "unat cp = unat e + 2 ^ (k - 1)"
    using k small unfolding cp_def by (subst unat_plus_no_wrap) auto
  have rep: "unat ((cp AND NOT (mask k)) OR partial) =
      (if (unat e + 2 ^ (k - 1)) mod 2 ^ k < unat n mod 2 ^ k then unat n + 2 ^ k else unat n)"
    using unat_replace_low [of partial k cp] recover_low_nat [OF pow _ lo hi] by (simp add: P cap)
  have m1: "unat (mask k + 1 :: u64) = 2 ^ k" "unat (mask k :: u64) = 2 ^ k - 1"
    and m2: "(mask k :: u64) = push_bit k 1 - 1"
    using k by (auto simp: mask_eq_exp_minus_1)
  have res: "(if partial > cp AND mask k \<and>
        (cp AND NOT (mask k)) OR partial > mask k
      then ((cp AND NOT (mask k)) OR partial) - (mask k + 1)
      else (cp AND NOT (mask k)) OR partial) = n" (is "?res = n" is "(if ?c then ?a else ?b) = n")
  proof (cases "(unat e + 2 ^ (k - 1)) mod 2 ^ k < unat n mod 2 ^ k")
    case True
    then have "unat ?b = unat n + 2 ^ k" using rep by simp
    moreover have "(2::nat) ^ k - 1 < unat n + 2 ^ k" using zero_less_power [of "2::nat" k] by linarith
    ultimately have "?c" using True by (simp add: word_less_nat_alt unat_and_mask cap P m1)
    moreover have "unat ?a = unat n"
      using \<open>unat ?b = unat n + 2 ^ k\<close> by (subst unat_sub) (simp_all add: word_le_nat_alt m1)
    ultimately show ?thesis by (simp add: word_unat_eq_iff)
  next
    case False
    then have "\<not> ?c" by (simp add: word_less_nat_alt unat_and_mask cap P)
    moreover have "unat ?b = unat n" using False rep by simp
    ultimately show ?thesis by (simp only: if_False word_unat_eq_iff)
  qed
  from hdr have "dtls_ReadSequenceNumber v e hdr = Inr ?res"
  proof
    assume h: "hdr ! 0 AND 8 \<noteq> 0 \<and> k = 16 \<and> hdr ! 1 = ucast (drop_bit 8 n) \<and> hdr ! 2 = ucast n"
    then have "partial = push_bit 8 (ucast (hdr ! 1)) OR ucast (hdr ! 2)"
      by (auto intro!: bit_word_eqI simp: partial_def bit_simps)
    with h m2 short show ?thesis by (simp add: dtls_ReadSequenceNumber_def Let_def cp_def)
  next
    assume h: "hdr ! 0 AND 8 = 0 \<and> k = 8 \<and> hdr ! 1 = ucast n"
    then have "partial = ucast (hdr ! 1)"
      by (auto intro!: bit_word_eqI simp: partial_def bit_simps)
    with h m2 short show ?thesis by (simp add: dtls_ReadSequenceNumber_def Let_def cp_def)
  qed
  then show ?thesis unfolding res .
qed

lemma dtls_ReadEpoch_short:
  assumes short: "\<not> dtls_IsLongHeader v (hdr ! 0)"
    and near: "unat n \<le> unat e" "unat e \<le> unat n + 3"
    and hdr: "ucast (hdr ! 0) AND 3 = n AND 3"
  shows "dtls_ReadEpoch v e hdr = n"
proof -
  define epoch where "epoch = (e AND NOT 3) OR (n AND 3)"
  have three: "(3::u16) = mask 2" by (simp add: mask_eq_exp_minus_1)
  have ep: "unat epoch = 4 * (unat e div 4) + unat n mod 4"
    using unat_replace_low [of "n AND mask 2" 2 e] by (simp add: epoch_def three unat_and_mask)
  have read: "dtls_ReadEpoch v e hdr = (if epoch > e \<and> epoch > 4 then epoch - 4 else epoch)"
    unfolding dtls_ReadEpoch_def if_not_P [OF short] hdr Let_def epoch_def ..
  show ?thesis
  proof (cases "unat e div 4 = unat n div 4")
    case True
    then have "epoch = n" using ep by (simp add: word_unat_eq_iff)
    then show ?thesis using near unfolding read by (simp add: word_less_nat_alt)
  next
    case False
    then have "unat e div 4 = unat n div 4 + 1" using near by linarith
    then have e4: "unat epoch = unat n + 4" using ep by simp
    moreover have "unat e < unat n + 4" "unat n \<noteq> 0" using near False by (auto intro: Nat.gr0I)
    moreover have "unat (epoch - 4) = unat n"
      using e4 by (subst unat_sub) (simp_all add: word_le_nat_alt)
    ultimately show ?thesis unfolding read by (simp add: word_less_nat_alt word_unat_eq_iff)
  qed
qed

section \<open>Properties\<close>

text \<open>
  C7: The DTLS replay window is exact.  After any sequence of 48-bit record numbers has been marked in
  a fresh window, which always succeeds, a number is reported as received exactly when it was marked,
  as too old exactly when it lies below the 1024 numbers that end with the highest marked block of
  eight, and as new otherwise.
\<close>

theorem dtls_replay_window_exact:
  assumes "\<forall>s \<in> set ss. s \<le> RECORD_SEQ_MAX"
  shows "\<exists>r. mark_all dtls_RecordSetRecvd dtls_InitRecvdRecords ss = Some r \<and>
    (\<forall>seq. dtls_RecordGetRecvd r seq =
       (if unat seq + 1023 < fold max (map (\<lambda>s. 8 * (unat s div 8) + 7) ss) 1023 then - 1
        else if seq \<in> set ss then 1 else 0))"
proof -
  have "unat (rr_right dtls_InitRecvdRecords) = 1023"
    by (simp add: dtls_InitRecvdRecords_def DTLS_RECVD_RECORDS_WINDOW_def)
  then obtain r where "mark_all dtls_RecordSetRecvd dtls_InitRecvdRecords ss = Some r"
      "recvd_rel r (unat ` set ss)"
      "unat (rr_right r) = fold max (map (\<lambda>s. 8 * (unat s div 8) + 7) ss) 1023"
    using dtls_filter.mark_all_ok [OF recvd_rel_init assms] by auto
  then show ?thesis
    by (simp add: dtls_filter.seen_iff unat_mem_image)
qed

theorem dtls_replay_window_exact_witness:
  "\<exists>r. mark_all dtls_RecordSetRecvd dtls_InitRecvdRecords [5, 2000, 0xFFFFFFFFFFFF, 7] = Some r \<and>
     dtls_RecordGetRecvd r 5 = - 1 \<and> dtls_RecordGetRecvd r 0xFFFFFFFFFFFF = 1 \<and>
     dtls_RecordGetRecvd r 0xFFFFFFFFFFFE = 0"
proof -
  let ?ss = "[5, 2000, 0xFFFFFFFFFFFF, 7] :: u64 list"
  have ceil: "fold max (map (\<lambda>s. 8 * (unat s div 8) + 7) ?ss) 1023 = 0xFFFFFFFFFFFF" by simp
  have "\<forall>s \<in> set ?ss. s \<le> RECORD_SEQ_MAX" by (simp add: RECORD_SEQ_MAX_def)
  then obtain r where "mark_all dtls_RecordSetRecvd dtls_InitRecvdRecords ?ss = Some r"
    and get: "\<And>seq. dtls_RecordGetRecvd r seq =
      (if unat seq + 1023 < 0xFFFFFFFFFFFF then - 1 else if seq \<in> set ?ss then 1 else 0)"
    using dtls_replay_window_exact [of ?ss] unfolding ceil by blast
  then show ?thesis by (simp add: get)
qed

end
