(* ===== verification/Aead_Iv.thy ===== *)
theory Aead_Iv
  imports Nss_Prelude
begin

text \<open>
  Generation of the initialisation vectors of authenticated encryption: \<^verbatim>\<open>gcm_GenerateIV\<close> of
  \<^verbatim>\<open>lib/freebl/gcm.c\<close>, used inside the token, and its copy \<^verbatim>\<open>pk11_GenerateIV\<close> of
  \<^verbatim>\<open>lib/pk11wrap/pk11cxt.c\<close>, used for tokens without the message interface. Reuse of an
  initialisation vector breaks the confidentiality and the authenticity of the cipher, so the property
  of interest is that the vectors of one context are pairwise different.

  Random bytes come from a generator that is an argument. The vector passed in is a block of bytes;
  the bytes written lie in it or the result is \<open>UNDEFINED_BEHAVIOUR\<close>.
\<close>

section \<open>The generator context\<close>

datatype CK_GENERATOR_FUNCTION =
    CKG_NO_GENERATE
  | CKG_GENERATE
  | CKG_GENERATE_COUNTER
  | CKG_GENERATE_RANDOM
  | CKG_GENERATE_COUNTER_XOR
  | CKG_other u64

record gcmIVContext =
  iv_counter :: u64
  iv_max_count :: u64
  iv_gen :: CK_GENERATOR_FUNCTION
  iv_fixedBits :: u32
  iv_ivLen :: u32

definition gcm_InitIVContext :: gcmIVContext where
  "gcm_InitIVContext =
     \<lparr>iv_counter = 0, iv_max_count = 0, iv_gen = CKG_GENERATE, iv_fixedBits = 0, iv_ivLen = 0\<rparr>"

definition GCMIV_RANDOM_BIRTHDAY_BITS :: u32 where
  "GCMIV_RANDOM_BIRTHDAY_BITS = 64"

definition PORT_GET_BYTE_BE :: "u64 \<Rightarrow> u32 \<Rightarrow> u32 \<Rightarrow> byte" where
  "PORT_GET_BYTE_BE value off len =
     (if len - off - 1 \<ge> 8 then 0 else ucast (drop_bit (unat ((len - off - 1) * 8)) value))"

text \<open>
  The first call on a context fixes the generator, the lengths and the number of vectors; later calls
  must agree with it. The context keeps what the first call stored even when that call fails.
\<close>

definition gcm_iv_setup ::
    "gcmIVContext \<Rightarrow> u32 \<Rightarrow> u32 \<Rightarrow> CK_GENERATOR_FUNCTION \<Rightarrow> unit result \<times> gcmIVContext" where
  "gcm_iv_setup gcmIv ivLen fixedBits ivGen =
     (if iv_counter gcmIv \<noteq> 0 then
        (if iv_gen gcmIv \<noteq> ivGen \<or> iv_fixedBits gcmIv \<noteq> fixedBits \<or> iv_ivLen gcmIv \<noteq> ivLen
         then Inl SEC_ERROR_INVALID_ARGS else Inr (), gcmIv)
      else
        let gcmIv = gcmIv\<lparr>iv_gen := ivGen, iv_fixedBits := fixedBits, iv_ivLen := ivLen\<rparr>;
            flexBits = ivLen * 8
        in if flexBits < fixedBits then (Inl SEC_ERROR_INVALID_ARGS, gcmIv)
           else
             let flexBits = flexBits - fixedBits in
             if ivGen = CKG_GENERATE_RANDOM \<and> flexBits \<le> GCMIV_RANDOM_BIRTHDAY_BITS
             then (Inl SEC_ERROR_INVALID_ARGS, gcmIv)
             else
               let flexBits = (if ivGen = CKG_GENERATE_RANDOM
                               then drop_bit 1 (flexBits - GCMIV_RANDOM_BIRTHDAY_BITS) else flexBits)
               in if flexBits = 0 then (Inl SEC_ERROR_INVALID_ARGS, gcmIv)
                  else (Inr (), gcmIv\<lparr>iv_max_count :=
                          if flexBits \<ge> 64 then 0xffffffffffffffff else push_bit (unat flexBits) 1\<rparr>))"

text \<open>The counter as the bytes of the variable part, the first one under the mask.\<close>

definition iv_mask :: "u32 \<Rightarrow> byte" where
  "iv_mask fixedBits = drop_bit (unat ((8 - (fixedBits AND 7)) AND 7)) 0xff"

definition iv_counter_bytes :: "u64 \<Rightarrow> u32 \<Rightarrow> byte \<Rightarrow> byte list" where
  "iv_counter_bytes ctr n ivMask =
     map (\<lambda>i. PORT_GET_BYTE_BE ctr (of_nat i) n AND (if i = 0 then ivMask else - 1)) [0..<unat n]"

definition iv_variable_part ::
    "(nat \<Rightarrow> byte list result) \<Rightarrow> CK_GENERATOR_FUNCTION \<Rightarrow> u64 \<Rightarrow> byte \<Rightarrow> byte list \<Rightarrow> byte list result" where
  "iv_variable_part rng ivGen ctr ivMask old =
     (let n = of_nat (length old);
          keep = (case old of [] \<Rightarrow> [] | b # bs \<Rightarrow> (b AND NOT ivMask) # replicate (length bs) 0)
      in case ivGen of
           CKG_GENERATE \<Rightarrow> Inr (map2 (OR) keep (iv_counter_bytes ctr n ivMask))
         | CKG_GENERATE_COUNTER \<Rightarrow> Inr (map2 (OR) keep (iv_counter_bytes ctr n ivMask))
         | CKG_GENERATE_COUNTER_XOR \<Rightarrow> Inr (map2 (XOR) old (iv_counter_bytes ctr n ivMask))
         | CKG_GENERATE_RANDOM \<Rightarrow>
             res_bind (rng (length old)) (\<lambda>r.
               Inr (map2 (OR) keep (case r of [] \<Rightarrow> [] | b # bs \<Rightarrow> (b AND ivMask) # bs)))
         | _ \<Rightarrow> Inr old)"

definition gcm_GenerateIV ::
    "(nat \<Rightarrow> byte list result) \<Rightarrow> gcmIVContext \<Rightarrow> byte list \<Rightarrow> u32 \<Rightarrow> u32 \<Rightarrow> CK_GENERATOR_FUNCTION \<Rightarrow>
     byte list result \<times> gcmIVContext" where
  "gcm_GenerateIV rng gcmIv iv ivLen fixedBits ivGen =
     (case gcm_iv_setup gcmIv ivLen fixedBits ivGen of
        (Inl e, gcmIv) \<Rightarrow> (Inl e, gcmIv)
      | (Inr _, gcmIv) \<Rightarrow>
          if ivGen = CKG_NO_GENERATE then (Inr iv, gcmIv\<lparr>iv_counter := 1\<rparr>)
          else if iv_counter gcmIv \<ge> iv_max_count gcmIv then (Inl SEC_ERROR_EXTRA_INPUT, gcmIv)
          else
            let ivOffset = fixedBits div 8;
                ivNewCount = ivLen - ivOffset
            in case res_bind (mem_read iv (unat ivOffset) (unat ivNewCount)) (\<lambda>old.
                      res_bind (iv_variable_part rng ivGen (iv_counter gcmIv) (iv_mask fixedBits) old)
                        (mem_write iv (unat ivOffset)))
               of Inl e \<Rightarrow> (Inl e, gcmIv)
                | Inr iv' \<Rightarrow> (Inr iv', gcmIv\<lparr>iv_counter := iv_counter gcmIv + 1\<rparr>))"

text \<open>
  The copy for simulated message interfaces stores the same fields in the \<^verbatim>\<open>PK11Context\<close>
  and differs in the source of random bytes only.
\<close>

definition pk11_GenerateIV ::
    "(nat \<Rightarrow> byte list result) \<Rightarrow> gcmIVContext \<Rightarrow> CK_GENERATOR_FUNCTION \<Rightarrow> u32 \<Rightarrow> byte list \<Rightarrow> u32 \<Rightarrow>
     byte list result \<times> gcmIVContext" where
  "pk11_GenerateIV PK11_GenerateRandom context ivgen fixedBits iv ivLen =
     (case gcm_iv_setup context ivLen fixedBits ivgen of
        (Inl e, context) \<Rightarrow> (Inl e, context)
      | (Inr _, context) \<Rightarrow>
          if ivgen = CKG_NO_GENERATE then (Inr iv, context\<lparr>iv_counter := 1\<rparr>)
          else if iv_counter context \<ge> iv_max_count context then (Inl SEC_ERROR_EXTRA_INPUT, context)
          else
            let ivOffset = fixedBits div 8;
                ivNewCount = ivLen - ivOffset
            in case res_bind (mem_read iv (unat ivOffset) (unat ivNewCount)) (\<lambda>old.
                      res_bind (iv_variable_part PK11_GenerateRandom ivgen (iv_counter context)
                                  (iv_mask fixedBits) old)
                        (mem_write iv (unat ivOffset)))
               of Inl e \<Rightarrow> (Inl e, context)
                | Inr iv' \<Rightarrow> (Inr iv', context\<lparr>iv_counter := iv_counter context + 1\<rparr>))"

text \<open>The vectors of \<open>n\<close> consecutive calls, up to the first refusal.\<close>

fun draws :: "('c \<Rightarrow> byte list result \<times> 'c) \<Rightarrow> 'c \<Rightarrow> nat \<Rightarrow> byte list list" where
  "draws draw c 0 = []"
| "draws draw c (Suc n) =
     (case draw c of (Inl _, _) \<Rightarrow> [] | (Inr v, c') \<Rightarrow> v # draws draw c' n)"

section \<open>Counter bytes\<close>

lemma PORT_GET_BYTE_BE_be_bytes:
  assumes "i < unat n"
  shows "PORT_GET_BYTE_BE c (of_nat i) n = be_bytes (unat n) (unat c) ! i"
proof -
  define d where "d = unat n - 1 - i"
  have lt: "unat n < 2 ^ 32" using unsigned_less [of n, where 'a = nat] by simp
  have "n - of_nat i - 1 = of_nat (unat n) - of_nat i - 1" by simp
  also have "\<dots> = of_nat d" using assms by (simp add: d_def of_nat_diff)
  finally have n: "n - of_nat i - 1 = of_nat d" .
  have ud: "unat (of_nat d :: u32) = d"
    using lt by (simp add: unat_of_nat d_def)
  have nth: "be_bytes (unat n) (unat c) ! i = word_of_nat (unat c div 256 ^ d)"
    using assms by (simp add: be_bytes_nth d_def)
  show ?thesis
  proof (cases "8 \<le> d")
    case True
    have "unat c < 256 ^ 8" using unsigned_less [of c, where 'a = nat] by simp
    also have "(256::nat) ^ 8 \<le> 256 ^ d" using True by (rule power_increasing) simp
    finally show ?thesis using True
      by (simp add: PORT_GET_BYTE_BE_def n nth word_le_nat_alt ud)
  next
    case False
    then have "unat (of_nat d * 8 :: u32) = 8 * d" by (simp add: unat_word_ariths ud)
    moreover have "(256::nat) ^ d = 2 ^ (8 * d)" by (simp add: power_mult)
    ultimately show ?thesis using False
      by (simp add: PORT_GET_BYTE_BE_def n nth word_le_nat_alt ud ucast_word_of_nat unat_drop_bit_div)
  qed
qed

definition iv_limit :: "nat \<Rightarrow> nat" where
  "iv_limit flex = (if 64 \<le> flex then 2 ^ 64 - 1 else 2 ^ flex)"

lemma iv_mask_nibble:
  assumes "unat fixedBits mod 4 = 0"
  shows "iv_mask fixedBits = (if unat fixedBits mod 8 = 0 then - 1 else 0x0f)"
proof -
  have "unat (fixedBits AND 7) = unat fixedBits mod 8"
    using unat_and_mask [of fixedBits 3] by (simp add: mask_eq_exp_minus_1)
  moreover have "unat fixedBits mod 8 = 0 \<or> unat fixedBits mod 8 = 4"
    using assms by presburger
  ultimately have "fixedBits AND 7 = 0 \<or> fixedBits AND 7 = 4"
     and "(fixedBits AND 7 = 0) = (unat fixedBits mod 8 = 0)"
    by (auto simp: word_unat_eq_iff)
  then show ?thesis by (auto simp: iv_mask_def)
qed

lemma be_bytes_first_masked:
  assumes f: "unat fixedBits mod 4 = 0" and fl: "flex = 8 * n - unat fixedBits mod 8" and n: "0 < n"
    and c: "c < iv_limit flex"
  shows "be_bytes n c ! 0 AND iv_mask fixedBits = be_bytes n c ! 0"
proof (cases "unat fixedBits mod 8 = 0")
  case True
  then show ?thesis by (simp add: iv_mask_nibble [OF f])
next
  case False
  have f4: "unat fixedBits mod 8 = 4" using f False by presburger
  define q where "q = c div 256 ^ (n - 1)"
  have "q < 16"
  proof (cases "64 \<le> flex")
    case True
    have "c < 256 ^ 8" using c True by (simp add: iv_limit_def)
    also have "(256::nat) ^ 8 \<le> 256 ^ (n - 1)"
      using True fl f4 by (intro power_increasing) (simp, simp)
    finally show ?thesis by (simp add: q_def)
  next
    case False
    obtain m where m: "n = Suc m" using n by (cases n) auto
    have "(2::nat) ^ flex = 16 * 256 ^ m"
      unfolding fl f4 m by (simp add: power_add power_mult)
    then show ?thesis
      using c False by (simp add: q_def iv_limit_def m less_mult_imp_div_less mult.commute)
  qed
  then have "word_of_nat q AND 0x0f = (word_of_nat q :: byte)"
    using unat_and_mask [of "word_of_nat q :: byte" 4]
    by (simp add: mask_eq_exp_minus_1 word_unat_eq_iff unat_of_nat)
  then show ?thesis using n f4 by (simp add: be_bytes_nth q_def iv_mask_nibble [OF f])
qed

lemma iv_counter_bytes_be_bytes:
  assumes f: "unat fixedBits mod 4 = 0" and fl: "flex = 8 * unat n - unat fixedBits mod 8"
    and c: "unat c < iv_limit flex"
  shows "iv_counter_bytes c n (iv_mask fixedBits) = be_bytes (unat n) (unat c)"
proof (rule nth_equalityI)
  fix i
  assume "i < length (iv_counter_bytes c n (iv_mask fixedBits))"
  then have i: "i < unat n" by (simp add: iv_counter_bytes_def)
  then show "iv_counter_bytes c n (iv_mask fixedBits) ! i = be_bytes (unat n) (unat c) ! i"
    using be_bytes_first_masked [OF f fl _ c] by (cases "i = 0")
      (simp_all add: iv_counter_bytes_def PORT_GET_BYTE_BE_be_bytes
         PORT_GET_BYTE_BE_be_bytes [of 0, simplified])
qed (simp add: iv_counter_bytes_def)

section \<open>The vectors generated\<close>

definition iv_counter_gen :: "CK_GENERATOR_FUNCTION \<Rightarrow> bool" where
  "iv_counter_gen g \<longleftrightarrow> g \<in> {CKG_GENERATE, CKG_GENERATE_COUNTER, CKG_GENERATE_COUNTER_XOR}"

definition iv_config :: "byte list \<Rightarrow> u32 \<Rightarrow> u32 \<Rightarrow> bool" where
  "iv_config iv ivLen fixedBits \<longleftrightarrow>
     length iv = unat ivLen \<and> unat ivLen < 2 ^ 29 \<and> unat fixedBits < 8 * unat ivLen \<and>
     unat fixedBits mod 4 = 0"

definition iv_ctx_ready :: "gcmIVContext \<Rightarrow> u32 \<Rightarrow> u32 \<Rightarrow> CK_GENERATOR_FUNCTION \<Rightarrow> bool" where
  "iv_ctx_ready ctx ivLen fixedBits g \<longleftrightarrow> iv_counter ctx = 0 \<or>
     (iv_gen ctx = g \<and> iv_fixedBits ctx = fixedBits \<and> iv_ivLen ctx = ivLen \<and>
      unat (iv_max_count ctx) = iv_limit (8 * unat ivLen - unat fixedBits))"

definition iv_vector :: "CK_GENERATOR_FUNCTION \<Rightarrow> byte list \<Rightarrow> u32 \<Rightarrow> nat \<Rightarrow> byte list" where
  "iv_vector g iv fixedBits c =
     (let off = unat fixedBits div 8; old = drop off iv; new = be_bytes (length old) c in
      take off iv @
      (if g = CKG_GENERATE_COUNTER_XOR then map2 (XOR) old new
       else map2 (OR) ((hd old AND NOT (iv_mask fixedBits)) # replicate (length old - 1) 0) new))"

lemma unat_exp_u64: "k < 64 \<Longrightarrow> unat (2 ^ k :: u64) = 2 ^ k"
proof -
  assume "k < 64"
  then have "unat (of_nat (2 ^ k) :: u64) = 2 ^ k"
    using power_strict_increasing [of k 64 "2::nat"] by (simp add: unat_of_nat del: of_nat_power)
  then show ?thesis by simp
qed

lemma gcm_iv_setup_ready:
  assumes cfg: "iv_config iv ivLen fixedBits" and rdy: "iv_ctx_ready ctx ivLen fixedBits g"
    and g: "iv_counter_gen g"
  obtains ctx' where "gcm_iv_setup ctx ivLen fixedBits g = (Inr (), ctx')"
    "iv_counter ctx' = iv_counter ctx"
    "iv_gen ctx' = g" "iv_fixedBits ctx' = fixedBits" "iv_ivLen ctx' = ivLen"
    "unat (iv_max_count ctx') = iv_limit (8 * unat ivLen - unat fixedBits)"
proof (cases "iv_counter ctx = 0")
  case False
  then show ?thesis using that [of ctx] rdy by (auto simp: gcm_iv_setup_def iv_ctx_ready_def)
next
  case True
  have u: "unat (ivLen * 8) = 8 * unat ivLen" "fixedBits \<le> ivLen * 8"
    using cfg by (simp_all add: iv_config_def unat_word_ariths word_le_nat_alt)
  have fb: "unat (ivLen * 8 - fixedBits) = 8 * unat ivLen - unat fixedBits"
    using u by (simp add: unat_sub)
  then have nz: "ivLen * 8 - fixedBits \<noteq> 0" using cfg by (auto simp: iv_config_def word_unat_eq_iff)
  have mx: "unat (if ivLen * 8 - fixedBits \<ge> 64 then 0xffffffffffffffff
                   else push_bit (unat (ivLen * 8 - fixedBits)) 1 :: u64) =
      iv_limit (8 * unat ivLen - unat fixedBits)"
    by (simp add: iv_limit_def word_le_nat_alt fb unat_exp_u64)
  show ?thesis
    by (rule that [of "ctx\<lparr>iv_gen := g, iv_fixedBits := fixedBits, iv_ivLen := ivLen,
          iv_max_count := if ivLen * 8 - fixedBits \<ge> 64 then 0xffffffffffffffff
            else push_bit (unat (ivLen * 8 - fixedBits)) 1\<rparr>"])
      (use mx True u g nz in \<open>auto simp: gcm_iv_setup_def Let_def not_less iv_counter_gen_def\<close>)
qed

lemma gcm_GenerateIV_counter:
  assumes cfg: "iv_config iv ivLen fixedBits" and rdy: "iv_ctx_ready ctx ivLen fixedBits g"
    and g: "iv_counter_gen g"
  obtains ctx' where
    "gcm_GenerateIV rng ctx iv ivLen fixedBits g =
       (if unat (iv_counter ctx) < iv_limit (8 * unat ivLen - unat fixedBits)
        then Inr (iv_vector g iv fixedBits (unat (iv_counter ctx))) else Inl SEC_ERROR_EXTRA_INPUT, ctx')"
    "iv_ctx_ready ctx' ivLen fixedBits g"
    "unat (iv_counter ctx) < iv_limit (8 * unat ivLen - unat fixedBits) \<Longrightarrow>
       unat (iv_counter ctx') = unat (iv_counter ctx) + 1"
proof -
  obtain ctx1 where c1: "gcm_iv_setup ctx ivLen fixedBits g = (Inr (), ctx1)"
    "iv_counter ctx1 = iv_counter ctx"
    "iv_gen ctx1 = g" "iv_fixedBits ctx1 = fixedBits" "iv_ivLen ctx1 = ivLen"
    "unat (iv_max_count ctx1) = iv_limit (8 * unat ivLen - unat fixedBits)"
    using gcm_iv_setup_ready [OF cfg rdy g] .
  define off where "off = unat fixedBits div 8"
  have off: "unat (fixedBits div 8) = off" "unat (ivLen - fixedBits div 8) = unat ivLen - off"
      "off < unat ivLen"
  proof -
    show 1: "unat (fixedBits div 8) = off" by (simp add: off_def unat_div_word)
    show 2: "off < unat ivLen" using cfg by (simp add: off_def iv_config_def less_mult_imp_div_less mult.commute)
    show "unat (ivLen - fixedBits div 8) = unat ivLen - off"
      using 1 2 by (subst unat_sub) (simp_all add: word_le_nat_alt)
  qed
  show ?thesis
  proof (cases "unat (iv_counter ctx) < iv_limit (8 * unat ivLen - unat fixedBits)")
    case False
    then show ?thesis using that [of ctx1] c1 g
      by (auto simp: gcm_GenerateIV_def word_le_nat_alt iv_counter_gen_def iv_ctx_ready_def)
  next
    case True
    define old where "old = drop off iv"
    have lo: "length old = unat ivLen - off" "old \<noteq> []"
      using cfg off(3) by (simp_all add: old_def iv_config_def)
    have bytes: "iv_counter_bytes (iv_counter ctx) (of_nat (length old)) (iv_mask fixedBits) =
        be_bytes (length old) (unat (iv_counter ctx))"
    proof -
      define n :: u32 where "n = of_nat (length old)"
      have n: "unat n = length old"
        using cfg lo by (auto simp: n_def unat_of_nat iv_config_def intro!: mod_less)
      have "8 * unat ivLen - unat fixedBits = 8 * unat n - unat fixedBits mod 8"
        using div_mult_mod_eq [of "unat fixedBits" 8] unfolding n lo off_def by linarith
      then show ?thesis
        using iv_counter_bytes_be_bytes [of fixedBits _ n, OF _ _ True] cfg
        unfolding n n_def [symmetric] by (simp add: iv_config_def)
    qed
    let ?v = "iv_vector g iv fixedBits (unat (iv_counter ctx))"
    have keep: "(case old of [] \<Rightarrow> [] | b # bs \<Rightarrow> (b AND NOT (iv_mask fixedBits)) # replicate (length bs) 0) =
        (hd old AND NOT (iv_mask fixedBits)) # replicate (length old - 1) 0"
      using lo by (cases old) auto
    have v: "?v = take off iv @ (if g = CKG_GENERATE_COUNTER_XOR
        then map2 (XOR) old (be_bytes (length old) (unat (iv_counter ctx)))
        else map2 (OR) ((hd old AND NOT (iv_mask fixedBits)) # replicate (length old - 1) 0)
               (be_bytes (length old) (unat (iv_counter ctx))))"
      by (simp only: iv_vector_def Let_def old_def off_def)
    have o: "off \<le> length iv" using cfg off(3) by (simp add: iv_config_def)
    have var: "iv_variable_part rng g (iv_counter ctx) (iv_mask fixedBits) (drop off iv) =
        Inr (drop off ?v)"
      using g o unfolding v old_def [symmetric] iv_variable_part_def Let_def keep bytes
      by (auto simp: iv_counter_gen_def)
    have len: "length ?v = unat ivLen" and pre: "take off ?v = take off iv"
      using cfg lo o off(3) unfolding v by (auto simp: iv_config_def)
    have rw: "mem_read iv off (unat ivLen - off) = Inr (drop off iv)"
        "mem_write iv off (drop off ?v) = Inr ?v"
      using cfg off(3) len pre append_take_drop_id [of off ?v]
      by (simp_all add: mem_read_def mem_write_def iv_config_def)
    have "unat (iv_counter ctx) + 1 < 2 ^ 64"
      using True power_strict_increasing [of "8 * unat ivLen - unat fixedBits" 64 "2::nat"]
      by (auto simp: iv_limit_def split: if_splits)
    then have "unat (iv_counter ctx + 1) = unat (iv_counter ctx) + 1"
      by (subst unat_plus_no_wrap) simp_all
    moreover have "gcm_GenerateIV rng ctx iv ivLen fixedBits g =
        (Inr ?v, ctx1\<lparr>iv_counter := iv_counter ctx + 1\<rparr>)"
      using g True c1 var rw
      by (auto simp: gcm_GenerateIV_def Let_def off word_le_nat_alt iv_counter_gen_def)
    ultimately show ?thesis
      using that [of "ctx1\<lparr>iv_counter := iv_counter ctx + 1\<rparr>"] c1 True
      by (simp add: iv_ctx_ready_def)
  qed
qed

lemma map2_xor_cancel:
  "length a = length k \<Longrightarrow> length b = length k \<Longrightarrow> map2 (XOR) k a = map2 (XOR) k b \<Longrightarrow> a = (b :: byte list)"
proof (rule nth_equalityI, simp_all)
  fix i assume "length a = length k" "length b = length k" "map2 (XOR) k a = map2 (XOR) k b" "i < length k"
  then have "k ! i XOR a ! i = k ! i XOR b ! i"
    by (metis (no_types, lifting) length_zip min.idem nth_map nth_zip case_prod_conv)
  then have "k ! i XOR (k ! i XOR a ! i) = k ! i XOR (k ! i XOR b ! i)" by simp
  then show "a ! i = b ! i" by (simp add: xor.assoc [symmetric])
qed

lemma map2_or_zero: "length b = n \<Longrightarrow> map2 (OR) (replicate n 0) b = (b :: byte list)"
  by (rule nth_equalityI) auto

lemma iv_vector_inject:
  assumes cfg: "iv_config iv ivLen fixedBits"
    and lim: "c < iv_limit (8 * unat ivLen - unat fixedBits)" "d < iv_limit (8 * unat ivLen - unat fixedBits)"
    and eq: "iv_vector g iv fixedBits c = iv_vector g iv fixedBits d"
  shows "c = d"
proof -
  define n where "n = unat ivLen - unat fixedBits div 8"
  have n: "length (drop (unat fixedBits div 8) iv) = n" using cfg by (simp add: n_def iv_config_def)
  have fl: "8 * unat ivLen - unat fixedBits = 8 * n - unat fixedBits mod 8" and pos: "0 < n"
    using div_mult_mod_eq [of "unat fixedBits" 8] cfg unfolding n_def iv_config_def by linarith+
  have "iv_limit (8 * n - unat fixedBits mod 8) \<le> 256 ^ n"
  proof (cases "64 \<le> 8 * n - unat fixedBits mod 8")
    case True
    then have "(256::nat) ^ 8 \<le> 256 ^ n" by (intro power_increasing) simp_all
    then show ?thesis using True by (simp add: iv_limit_def)
  next
    case False
    have "(2::nat) ^ (8 * n - unat fixedBits mod 8) \<le> 2 ^ (8 * n)" by (intro power_increasing) simp_all
    then show ?thesis using False by (simp add: iv_limit_def power_mult)
  qed
  then have small: "c < 256 ^ n" "d < 256 ^ n" using lim unfolding fl by simp_all
  have m: "be_bytes n c ! 0 AND iv_mask fixedBits = be_bytes n c ! 0"
      "be_bytes n d ! 0 AND iv_mask fixedBits = be_bytes n d ! 0"
    using be_bytes_first_masked [OF _ fl pos] lim cfg by (simp_all add: iv_config_def)
  have "be_bytes n c = be_bytes n d"
  proof (cases "g = CKG_GENERATE_COUNTER_XOR")
    case True
    have "map2 (XOR) (drop (unat fixedBits div 8) iv) (be_bytes n c) =
        map2 (XOR) (drop (unat fixedBits div 8) iv) (be_bytes n d)"
      using eq unfolding iv_vector_def Let_def n if_P [OF True] same_append_eq .
    then show ?thesis
      using map2_xor_cancel [of "be_bytes n c" "drop (unat fixedBits div 8) iv" "be_bytes n d"]
      by (simp only: length_be_bytes n)
  next
    case False
    obtain y ys z zs where yz: "be_bytes n c = y # ys" "be_bytes n d = z # zs"
      using pos by (metis length_be_bytes length_greater_0_conv neq_Nil_conv)
    define k where "k = hd (drop (unat fixedBits div 8) iv) AND NOT (iv_mask fixedBits)"
    have e: "k OR y = k OR z" "map2 (OR) (replicate (n - 1) 0) ys = map2 (OR) (replicate (n - 1) 0) zs"
      using eq False n by (auto simp: iv_vector_def Let_def yz k_def)
    have l: "length ys = n - 1" "length zs = n - 1"
      using arg_cong [OF yz(1), of length] arg_cong [OF yz(2), of length] by simp_all
    have "(k OR y) AND iv_mask fixedBits = y" "(k OR z) AND iv_mask fixedBits = z"
      using m unfolding yz k_def by (simp_all add: bit.conj_disj_distrib2 and.assoc)
    then have "y = z" using e(1) by metis
    moreover have "ys = zs" using e(2) unfolding map2_or_zero [OF l(1)] map2_or_zero [OF l(2)] .
    ultimately show ?thesis unfolding yz by simp
  qed
  then have "c mod 256 ^ n = d mod 256 ^ n" by (metis be_value_be_bytes)
  with small show ?thesis by simp
qed

section \<open>Sources of nonces\<close>

text \<open>
  What a user of a generator relies on: a context that is ready hands out the vector of its count and
  counts on, until a limit below which the vectors of different counts differ.
\<close>

locale nonce_source =
  fixes ready :: "'c \<Rightarrow> bool"
    and count :: "'c \<Rightarrow> nat"
    and limit :: nat
    and vector :: "nat \<Rightarrow> byte list"
    and draw :: "'c \<Rightarrow> byte list result \<times> 'c"
  assumes draw_ready: "ready c \<Longrightarrow>
      \<exists>c'. draw c = (if count c < limit then Inr (vector (count c)) else Inl SEC_ERROR_EXTRA_INPUT, c') \<and>
           ready c' \<and> (count c < limit \<longrightarrow> count c' = count c + 1)"
    and vector_inject: "ready c \<Longrightarrow> i < limit \<Longrightarrow> j < limit \<Longrightarrow> vector i = vector j \<Longrightarrow> i = j"
begin

lemma draws_vectors:
  "ready c \<Longrightarrow> \<exists>m \<le> n. draws draw c n = map vector [count c..<count c + m] \<and>
     (0 < m \<longrightarrow> count c + m \<le> limit) \<and> (m < n \<longrightarrow> limit \<le> count c + m)"
proof (induction n arbitrary: c)
  case (Suc n)
  obtain c' where c': "draw c = (if count c < limit then Inr (vector (count c))
      else Inl SEC_ERROR_EXTRA_INPUT, c')" "ready c'" "count c < limit \<longrightarrow> count c' = count c + 1"
    using draw_ready [OF Suc.prems] by blast
  show ?case
  proof (cases "count c < limit")
    case True
    obtain m where "m \<le> n" "draws draw c' n = map vector [count c'..<count c' + m]"
        "0 < m \<longrightarrow> count c' + m \<le> limit" "m < n \<longrightarrow> limit \<le> count c' + m"
      using Suc.IH [OF c'(2)] by blast
    then show ?thesis using True c'
      by (intro exI [of _ "Suc m"]) (auto simp: upt_rec [of "count c"])
  next
    case False
    then show ?thesis using c'(1) by (intro exI [of _ 0]) simp
  qed
qed simp

lemma draws_distinct:
  assumes "ready c" "count c = 0"
  shows "distinct (draws draw c n)" and "length (draws draw c n) = min n limit"
proof -
  obtain m where m: "m \<le> n" "draws draw c n = map vector [0..<m]" "0 < m \<longrightarrow> m \<le> limit"
      "m < n \<longrightarrow> limit \<le> m"
    using draws_vectors [OF assms(1), of n] assms(2) by auto
  then have "distinct (map vector [0..<m])"
    using vector_inject [OF assms(1)] by (auto simp: distinct_map intro!: inj_onI)
  then show "distinct (draws draw c n)" "length (draws draw c n) = min n limit"
    using m by (auto simp: min_def)
qed

end

definition iv_ready :: "byte list \<Rightarrow> u32 \<Rightarrow> u32 \<Rightarrow> CK_GENERATOR_FUNCTION \<Rightarrow> gcmIVContext \<Rightarrow> bool" where
  "iv_ready iv ivLen fixedBits g ctx \<longleftrightarrow>
     iv_config iv ivLen fixedBits \<and> iv_counter_gen g \<and> iv_ctx_ready ctx ivLen fixedBits g"

interpretation gcm_nonces: nonce_source
  "iv_ready iv ivLen fixedBits g" "\<lambda>ctx. unat (iv_counter ctx)"
  "iv_limit (8 * unat ivLen - unat fixedBits)" "iv_vector g iv fixedBits"
  "\<lambda>ctx. gcm_GenerateIV rng ctx iv ivLen fixedBits g"
  for rng iv ivLen fixedBits g
proof (unfold_locales, goal_cases)
  case (1 c)
  then show ?case
    using gcm_GenerateIV_counter [of iv ivLen fixedBits c g rng] unfolding iv_ready_def by metis
next
  case (2 c i j)
  then show ?case using iv_vector_inject unfolding iv_ready_def by blast
qed

lemma pk11_GenerateIV_eq: "pk11_GenerateIV rng ctx g fixedBits iv ivLen = gcm_GenerateIV rng ctx iv ivLen fixedBits g"
  by (simp add: pk11_GenerateIV_def gcm_GenerateIV_def)

interpretation pk11_nonces: nonce_source
  "iv_ready iv ivLen fixedBits g" "\<lambda>ctx. unat (iv_counter ctx)"
  "iv_limit (8 * unat ivLen - unat fixedBits)" "iv_vector g iv fixedBits"
  "\<lambda>ctx. pk11_GenerateIV rng ctx g fixedBits iv ivLen"
  for rng iv ivLen fixedBits g
  unfolding pk11_GenerateIV_eq by (rule gcm_nonces.nonce_source_axioms)

section \<open>Properties\<close>




end
