(* ===== verification/Record_Layer.thy ===== *)
theory Record_Layer
  imports Ssl_Encode Dtls_Window Aead_Iv
begin

text \<open>
  The TLS 1.3 and DTLS 1.3 record layer: the cipher table of \<^verbatim>\<open>lib/ssl/sslspec.c\<close>, the record
  headers of \<^verbatim>\<open>ssl3con.c\<close> and \<^verbatim>\<open>dtls13con.c\<close>, nonces, additional data and protection of
  \<^verbatim>\<open>tls13con.c\<close>, sequence number masking, and the path of a received record through
  \<^verbatim>\<open>ssl3_HandleRecord\<close> up to the point where its content is handed on.

  The AEAD cipher and the masking cipher run in a PKCS #11 token: they are the functions of a record
  \<open>aead_token\<close>. Protection for the versions before 1.3 (\<^verbatim>\<open>ssl3_MACEncryptRecord\<close>,
  \<^verbatim>\<open>ssl3_UnprotectRecord\<close>) is a parameter too. A protection call returns the cipher spec together
  with its result, so the state of the nonce generator is never lost; a failed call leaves a partly
  written output buffer behind, which its callers discard and which is not returned.
\<close>

section \<open>Ciphers\<close>

datatype SSL3BulkCipher =
    cipher_null | cipher_rc4 | cipher_des | cipher_3des | cipher_aes_128 | cipher_aes_256
  | cipher_camellia_128 | cipher_camellia_256 | cipher_seed | cipher_aes_128_gcm
  | cipher_aes_256_gcm | cipher_chacha20 | cipher_missing

datatype SSLCipherAlgorithm =
    ssl_calg_null | ssl_calg_rc4 | ssl_calg_rc2 | ssl_calg_des | ssl_calg_3des | ssl_calg_idea
  | ssl_calg_fortezza | ssl_calg_aes | ssl_calg_camellia | ssl_calg_seed | ssl_calg_aes_gcm
  | ssl_calg_chacha20

datatype CipherType = type_stream | type_block | type_aead

record ssl3BulkCipherDef =
  bc_cipher :: SSL3BulkCipher
  bc_calg :: SSLCipherAlgorithm
  bc_key_size :: u32
  bc_secret_key_size :: u32
  bc_type :: CipherType
  bc_iv_size :: u32
  bc_block_size :: u32
  bc_tag_size :: u32
  bc_explicit_nonce_size :: u32
  bc_max_records :: u64

abbreviation MR_MAX :: u64 where
  "MR_MAX \<equiv> RECORD_SEQ_MAX"

abbreviation MR_128 :: u64 where
  "MR_128 \<equiv> push_bit 28 0x5a"

abbreviation MR_LOW :: u64 where
  "MR_LOW \<equiv> push_bit 20 1"

definition ssl_bulk_cipher_defs :: "ssl3BulkCipherDef list" where
  "ssl_bulk_cipher_defs = [
     ssl3BulkCipherDef.make cipher_null ssl_calg_null 0 0 type_stream 0 0 0 0 MR_MAX,
     ssl3BulkCipherDef.make cipher_rc4 ssl_calg_rc4 16 16 type_stream 0 0 0 0 MR_LOW,
     ssl3BulkCipherDef.make cipher_des ssl_calg_des 8 8 type_block 8 8 0 0 MR_LOW,
     ssl3BulkCipherDef.make cipher_3des ssl_calg_3des 24 24 type_block 8 8 0 0 MR_LOW,
     ssl3BulkCipherDef.make cipher_aes_128 ssl_calg_aes 16 16 type_block 16 16 0 0 MR_128,
     ssl3BulkCipherDef.make cipher_aes_256 ssl_calg_aes 32 32 type_block 16 16 0 0 MR_128,
     ssl3BulkCipherDef.make cipher_camellia_128 ssl_calg_camellia 16 16 type_block 16 16 0 0 MR_128,
     ssl3BulkCipherDef.make cipher_camellia_256 ssl_calg_camellia 32 32 type_block 16 16 0 0 MR_128,
     ssl3BulkCipherDef.make cipher_seed ssl_calg_seed 16 16 type_block 16 16 0 0 MR_128,
     ssl3BulkCipherDef.make cipher_aes_128_gcm ssl_calg_aes_gcm 16 16 type_aead 4 0 16 8 MR_128,
     ssl3BulkCipherDef.make cipher_aes_256_gcm ssl_calg_aes_gcm 32 32 type_aead 4 0 16 8 MR_128,
     ssl3BulkCipherDef.make cipher_chacha20 ssl_calg_chacha20 32 32 type_aead 12 0 16 0 MR_MAX,
     ssl3BulkCipherDef.make cipher_missing ssl_calg_null 0 0 type_stream 0 0 0 0 0]"

section \<open>Cipher specs and the socket\<close>

abbreviation TrafficKeyClearText :: u16 where
  "TrafficKeyClearText \<equiv> 0"

abbreviation TrafficKeyEarlyApplicationData :: u16 where
  "TrafficKeyEarlyApplicationData \<equiv> 1"

abbreviation TrafficKeyHandshake :: u16 where
  "TrafficKeyHandshake \<equiv> 2"

record ssl3CipherSpec =
  cs_version :: u16
  cs_recordVersion :: u16
  cs_cipherDef :: ssl3BulkCipherDef
  cs_key :: "byte list"
  cs_ivContext :: gcmIVContext
  cs_iv :: "byte list"
  cs_epoch :: u16
  cs_nextSeqNum :: u64
  cs_recvdRecords :: DTLSRecvdRecords
  cs_earlyDataRemaining :: u32
  cs_recordSizeLimit :: u16
  cs_maskContext :: "byte list option"
  cs_deprotectionFailures :: u64

datatype sslZeroRttIgnore = ssl_0rtt_ignore_none | ssl_0rtt_ignore_trial | ssl_0rtt_ignore_hrr

text \<open>The fields of the socket that the record layer reads or changes.\<close>

record sslSocket =
  IS_DTLS :: bool
  ss_version :: u16
  ss_isServer :: bool
  ss_enableDtlsShortHeader :: bool
  ss_zeroRttIgnore :: sslZeroRttIgnore
  ss_zeroRttAccepted :: bool
  ss_idleHandshake :: bool
  ss_rejectCcs :: bool
  ss_allowPreviousEpoch :: bool
  ss_firstHsDone :: bool
  ss_fatalAlertSent :: bool
  ss_tokenPresent :: bool

definition IS_DTLS_1_OR_12 :: "sslSocket \<Rightarrow> bool" where
  "IS_DTLS_1_OR_12 ss \<longleftrightarrow> IS_DTLS ss \<and> ss_version ss < SSL_LIBRARY_VERSION_TLS_1_3"

text \<open>
  The token: AEAD encryption of a plaintext under a key, a nonce and additional data to a ciphertext
  and a tag, the matching decryption, the keystream sample that masks sequence numbers, and random
  bytes. \<open>aead_token_ok\<close> is what PKCS #11 documents: the ciphertext is as long as the plaintext, the
  tag has the length asked for, decryption of a genuine ciphertext gives the plaintext back, and a mask
  has the length asked for.
\<close>

record aead_token =
  tk_encrypt :: "byte list \<Rightarrow> byte list \<Rightarrow> byte list \<Rightarrow> nat \<Rightarrow> byte list \<Rightarrow> (byte list \<times> byte list) result"
  tk_decrypt :: "byte list \<Rightarrow> byte list \<Rightarrow> byte list \<Rightarrow> byte list \<Rightarrow> byte list \<Rightarrow> byte list result"
  tk_mask :: "byte list \<Rightarrow> byte list \<Rightarrow> nat \<Rightarrow> byte list result"
  tk_random :: "nat \<Rightarrow> byte list result"

definition aead_token_ok :: "aead_token \<Rightarrow> bool" where
  "aead_token_ok tk \<longleftrightarrow>
     (\<forall>key iv aad n pt ct tag. tk_encrypt tk key iv aad n pt = Inr (ct, tag) \<longrightarrow>
        length ct = length pt \<and> length tag = n \<and> tk_decrypt tk key iv aad tag ct = Inr pt) \<and>
     (\<forall>key ct n m. tk_mask tk key ct n = Inr m \<longrightarrow> length m = n)"

section \<open>Record headers\<close>

definition dtls13_InsertCipherTextHeader ::
    "nspr \<Rightarrow> sslSocket \<Rightarrow> ssl3CipherSpec \<Rightarrow> sslBuffer \<Rightarrow> (sslBuffer \<times> bool) result" where
  "dtls13_InsertCipherTextHeader h ss cwSpec wrBuf =
     (if ss_enableDtlsShortHeader ss \<and> cs_epoch cwSpec > TrafficKeyHandshake then
        let ct :: byte = ucast (0x20 OR (ucast (cs_epoch cwSpec) AND 3 :: u64));
            seq :: byte = ucast (cs_nextSeqNum cwSpec AND 0xff)
        in res_bind (sslBuffer_AppendNumber h wrBuf (ucast ct) 1) (\<lambda>wrBuf.
             res_bind (sslBuffer_AppendNumber h wrBuf (ucast seq) 1) (\<lambda>wrBuf. Inr (wrBuf, False)))
      else
        let ct :: byte = 0x2c OR (ucast (cs_epoch cwSpec) AND 3);
            seq :: u16 = ucast (cs_nextSeqNum cwSpec AND 0xffff)
        in res_bind (sslBuffer_AppendNumber h wrBuf (ucast ct) 1) (\<lambda>wrBuf.
             res_bind (sslBuffer_AppendNumber h wrBuf (ucast seq) 2) (\<lambda>wrBuf. Inr (wrBuf, True))))"

definition ssl_InsertRecordHeader ::
    "nspr \<Rightarrow> sslSocket \<Rightarrow> ssl3CipherSpec \<Rightarrow> byte \<Rightarrow> sslBuffer \<Rightarrow> (sslBuffer \<times> bool) result" where
  "ssl_InsertRecordHeader h ss cwSpec contentType wrBuf =
     (let protected13 = (cs_version cwSpec \<ge> SSL_LIBRARY_VERSION_TLS_1_3 \<and>
                         cs_epoch cwSpec > TrafficKeyClearText)
      in if protected13 \<and> IS_DTLS ss then dtls13_InsertCipherTextHeader h ss cwSpec wrBuf
         else
           let contentType = (if protected13 then ssl_ct_application_data else contentType) in
           res_bind (sslBuffer_AppendNumber h wrBuf (ucast contentType) 1) (\<lambda>wrBuf.
           res_bind (sslBuffer_AppendNumber h wrBuf (ucast (cs_recordVersion cwSpec)) 2) (\<lambda>wrBuf.
           res_bind (if IS_DTLS ss
                     then res_bind (sslBuffer_AppendNumber h wrBuf (ucast (cs_epoch cwSpec)) 2)
                            (\<lambda>wrBuf. sslBuffer_AppendNumber h wrBuf (cs_nextSeqNum cwSpec) 6)
                     else Inr wrBuf) (\<lambda>wrBuf.
           Inr (wrBuf, True)))))"

section \<open>Additional data and nonces\<close>

text \<open>The additional data are assembled in a 21-byte array of the caller.\<close>

definition tls13_FormatAdditionalData ::
    "nspr \<Rightarrow> sslSocket \<Rightarrow> byte list \<Rightarrow> u32 \<Rightarrow> u16 \<Rightarrow> u64 \<Rightarrow> byte list result" where
  "tls13_FormatAdditionalData h ss header headerLen epoch seqNum =
     res_bind (if IS_DTLS_1_OR_12 ss
               then sslBuffer_AppendNumber h (SSL_BUFFER_FIXED (replicate 21 0) 21) (ucast epoch) 2
               else Inr (SSL_BUFFER_FIXED (replicate 21 0) 21)) (\<lambda>buf.
     res_bind (sslBuffer_AppendNumber h buf seqNum (if IS_DTLS_1_OR_12 ss then 6 else 8)) (\<lambda>buf.
     res_bind (sslBuffer_Append h buf header headerLen) (\<lambda>buf.
     Inr (sslBuffer_contents buf))))"

definition tls13_WriteNonce :: "byte list \<Rightarrow> byte list \<Rightarrow> nat \<Rightarrow> byte list" where
  "tls13_WriteNonce ivIn nonce ivOutLen =
     (let ivOut = take ivOutLen ivIn @ replicate (ivOutLen - length ivIn) 0;
          off = ivOutLen - length nonce
      in take off ivOut @ map2 (XOR) (drop off ivOut) nonce)"

text \<open>
  The initial vector is copied into an array of \<^verbatim>\<open>MAX_IV_LENGTH\<close> bytes; for DTLS before 1.3 the
  epoch is mixed in.
\<close>

definition MAX_IV_LENGTH :: nat where
  "MAX_IV_LENGTH = 24"

definition tls13_SetupAeadIv ::
    "bool \<Rightarrow> u16 \<Rightarrow> byte list \<Rightarrow> u32 \<Rightarrow> u32 \<Rightarrow> u16 \<Rightarrow> (byte list \<times> u32) result" where
  "tls13_SetupAeadIv isDTLS v ivIn off ivLen epoch =
     res_bind (mem_read ivIn 0 (unat ivLen)) (\<lambda>iv.
     res_bind (mem_write (replicate MAX_IV_LENGTH 0) 0 iv) (\<lambda>ivOut.
     if isDTLS \<and> v < SSL_LIBRARY_VERSION_TLS_1_3 then
       res_bind (if off \<ge> ivLen then mem_write ivOut (unat off) [0, 0] else Inr ivOut) (\<lambda>ivOut.
       res_bind (mem_read ivOut (unat off) 2) (\<lambda>old.
       res_bind (mem_write ivOut (unat off)
                   (map2 (XOR) old [ucast (drop_bit 8 epoch), ucast epoch])) (\<lambda>ivOut.
       Inr (ivOut, off + 2))))
     else Inr (ivOut, off)))"

text \<open>
  One AEAD operation, encryption with a generated nonce and decryption with the nonce of a sequence
  number. The tag is at the end of the protected data in both directions. A missing context is the
  error of the guard; in the model a cipher spec that protects always has one.
\<close>

definition tls13_AEAD_encrypt ::
    "aead_token \<Rightarrow> ssl3CipherSpec \<Rightarrow> u32 \<Rightarrow> byte list \<Rightarrow> u32 \<Rightarrow> byte list \<Rightarrow> u32 \<Rightarrow> u32 \<Rightarrow> byte list \<Rightarrow>
     byte list result \<times> ssl3CipherSpec" where
  "tls13_AEAD_encrypt tk spec fixedbits iv ivLen aad maxout tagLen inp =
     (case pk11_GenerateIV (tk_random tk) (cs_ivContext spec) CKG_GENERATE_COUNTER_XOR fixedbits iv ivLen of
        (r, ctx) \<Rightarrow>
          (res_bind r (\<lambda>iv.
             res_bind (tk_encrypt tk (cs_key spec) (take (unat ivLen) iv) aad (unat tagLen) inp)
               (\<lambda>(out, tag).
                  if of_nat (length out) + tagLen > maxout then Inl SEC_ERROR_OUTPUT_LEN
                  else Inr (out @ tag))),
           spec\<lparr>cs_ivContext := ctx\<rparr>))"

definition tls13_AEAD_decrypt ::
    "aead_token \<Rightarrow> ssl3CipherSpec \<Rightarrow> byte list \<Rightarrow> nat \<Rightarrow> byte list \<Rightarrow> byte list \<Rightarrow> u32 \<Rightarrow> byte list \<Rightarrow>
     byte list result" where
  "tls13_AEAD_decrypt tk spec iv ivLen nonce aad tagLen inp =
     (let ivOut = tls13_WriteNonce iv nonce ivLen in
      if length inp < unat tagLen then Inl SEC_ERROR_INPUT_LEN
      else
        let inLen = length inp - unat tagLen
        in tk_decrypt tk (cs_key spec) ivOut aad (drop inLen inp) (take inLen inp))"

section \<open>Protection\<close>

definition SSL_BUFFER_SPACE :: "sslBuffer \<Rightarrow> u32" where
  "SSL_BUFFER_SPACE b = sb_space b - sb_len b"

definition spec_ivLen :: "ssl3CipherSpec \<Rightarrow> u32" where
  "spec_ivLen spec = bc_iv_size (cs_cipherDef spec) + bc_explicit_nonce_size (cs_cipherDef spec)"

text \<open>The header of the record, again, as the additional data, and the encryption in place.\<close>

definition tls13_ProtectRecord_aad ::
    "nspr \<Rightarrow> sslSocket \<Rightarrow> ssl3CipherSpec \<Rightarrow> u32 \<Rightarrow> byte list result" where
  "tls13_ProtectRecord_aad h ss cwSpec contentLen =
     res_bind (ssl_InsertRecordHeader h ss cwSpec ssl_ct_application_data
                 (SSL_BUFFER_FIXED (replicate 13 0) 13)) (\<lambda>(buf, needsLength).
     res_bind (if needsLength
               then sslBuffer_AppendNumber h buf
                      (ucast (contentLen + 1 + bc_tag_size (cs_cipherDef cwSpec))) 2
               else Inr buf) (\<lambda>buf.
     tls13_FormatAdditionalData h ss (sslBuffer_contents buf) (sb_len buf)
       (cs_epoch cwSpec) (cs_nextSeqNum cwSpec)))"

definition tls13_ProtectRecord ::
    "nspr \<Rightarrow> aead_token \<Rightarrow> sslSocket \<Rightarrow> ssl3CipherSpec \<Rightarrow> byte \<Rightarrow> byte list \<Rightarrow> u32 \<Rightarrow> sslBuffer \<Rightarrow>
     sslBuffer result \<times> ssl3CipherSpec" where
  "tls13_ProtectRecord h tk ss cwSpec type pIn contentLen wrBuf =
     (let def = cs_cipherDef cwSpec;
          tagLen = bc_tag_size def;
          next = unat (sb_len wrBuf)
      in
      if contentLen + 1 + tagLen > SSL_BUFFER_SPACE wrBuf
      then (Inl SEC_ERROR_LIBRARY_FAILURE, cwSpec)
      else case res_bind (mem_read pIn 0 (unat contentLen)) (sslBuffer_put wrBuf next) of
        Inl e \<Rightarrow> (Inl e, cwSpec)
      | Inr wrBuf \<Rightarrow>
          if bc_calg def = ssl_calg_null then
            (res_bind (sslBuffer_Skip h wrBuf contentLen) (\<lambda>(wrBuf, _). Inr wrBuf), cwSpec)
          else
            let ivLen = spec_ivLen cwSpec in
            case res_bind (sslBuffer_put wrBuf (next + unat contentLen) [type]) (\<lambda>wrBuf.
                   res_bind (tls13_ProtectRecord_aad h ss cwSpec contentLen) (\<lambda>aad.
                   res_bind (tls13_SetupAeadIv (IS_DTLS ss) (cs_version cwSpec) (cs_iv cwSpec)
                               (ivLen - 8) ivLen (cs_epoch cwSpec)) (\<lambda>(ivOut, ivOffset).
                   Inr (wrBuf, aad, ivOut, ivOffset)))) of
              Inl e \<Rightarrow> (Inl e, cwSpec)
            | Inr (wrBuf, aad, ivOut, ivOffset) \<Rightarrow>
                (case tls13_AEAD_encrypt tk cwSpec (ivOffset * 8) (take (unat ivLen) ivOut) ivLen
                        (drop 8 aad) (SSL_BUFFER_SPACE wrBuf) tagLen
                        (take (unat contentLen + 1)
                           (drop next (case sb_buf wrBuf of None \<Rightarrow> [] | Some m \<Rightarrow> m))) of
                   (Inl _, cwSpec) \<Rightarrow> (Inl SSL_ERROR_ENCRYPTION_FAILURE, cwSpec)
                 | (Inr out, cwSpec) \<Rightarrow>
                     (res_bind (sslBuffer_put wrBuf next out) (\<lambda>wrBuf.
                      res_bind (sslBuffer_Skip h wrBuf (of_nat (length out))) (\<lambda>(wrBuf, _).
                      Inr wrBuf)), cwSpec)))"

text \<open>
  The mask of the DTLS 1.3 sequence number, applied to the header bytes on sending and on receiving.
\<close>

definition dtls13_MaskSequenceNumber ::
    "aead_token \<Rightarrow> ssl3CipherSpec \<Rightarrow> byte list \<Rightarrow> byte list \<Rightarrow> byte list result" where
  "dtls13_MaskSequenceNumber tk spec hdr cipherText =
     (if cs_version spec < SSL_LIBRARY_VERSION_TLS_1_3 then Inr hdr
      else case cs_maskContext spec of
             None \<Rightarrow> Inr hdr
           | Some ctx \<Rightarrow>
               if length cipherText < 16 then Inl SSL_ERROR_BAD_MAC_READ
               else case tk_mask tk ctx cipherText 2 of
                      Inl _ \<Rightarrow> Inl SSL_ERROR_BAD_MAC_READ
                    | Inr m \<Rightarrow>
                        let hdr1 = hdr[1 := hdr ! 1 XOR m ! 0] in
                        Inr (if hdr ! 0 AND 0x08 \<noteq> 0 then hdr1[2 := hdr1 ! 2 XOR m ! 1] else hdr1))"

definition ssl_ProtectRecord ::
    "nspr \<Rightarrow> aead_token \<Rightarrow>
     (ssl3CipherSpec \<Rightarrow> byte \<Rightarrow> byte list \<Rightarrow> u32 \<Rightarrow> sslBuffer \<Rightarrow> sslBuffer result \<times> ssl3CipherSpec) \<Rightarrow>
     sslSocket \<Rightarrow> ssl3CipherSpec \<Rightarrow> byte \<Rightarrow> byte list \<Rightarrow> u32 \<Rightarrow> sslBuffer \<Rightarrow>
     sslBuffer result \<times> ssl3CipherSpec" where
  "ssl_ProtectRecord h tk ssl3_MACEncryptRecord ss cwSpec ct pIn contentLen wrBuf =
     (if cs_nextSeqNum cwSpec \<ge> bc_max_records (cs_cipherDef cwSpec)
      then (Inl SSL_ERROR_TOO_MANY_RECORDS, cwSpec)
      else case res_bind (ssl_InsertRecordHeader h ss cwSpec ct wrBuf) (\<lambda>(wrBuf, needsLength).
                  if needsLength
                  then res_bind (sslBuffer_Skip h wrBuf 2) (\<lambda>(wrBuf, lenOffset).
                         Inr (wrBuf, Some lenOffset))
                  else Inr (wrBuf, None)) of
        Inl e \<Rightarrow> (Inl e, cwSpec)
      | Inr (wrBuf, lenOffset) \<Rightarrow>
          let bufLen = unat (sb_len wrBuf);
              (r, cwSpec) =
                (if cs_version cwSpec \<ge> SSL_LIBRARY_VERSION_TLS_1_3 then
                   case tls13_ProtectRecord h tk ss cwSpec ct pIn contentLen wrBuf of
                     (r, cwSpec) \<Rightarrow>
                       (res_bind r (\<lambda>wrBuf.
                          if IS_DTLS ss
                          then res_bind (dtls13_MaskSequenceNumber tk cwSpec
                                           (take bufLen (sslBuffer_contents wrBuf))
                                           (drop bufLen (sslBuffer_contents wrBuf)))
                                 (sslBuffer_put wrBuf 0)
                          else Inr wrBuf), cwSpec)
                 else ssl3_MACEncryptRecord cwSpec ct pIn contentLen wrBuf)
          in case res_bind r (\<lambda>wrBuf.
                    case lenOffset of
                      None \<Rightarrow> Inr wrBuf
                    | Some at \<Rightarrow> sslBuffer_InsertLength wrBuf at 2) of
               Inl e \<Rightarrow> (Inl e, cwSpec)
             | Inr wrBuf \<Rightarrow> (Inr wrBuf, cwSpec\<lparr>cs_nextSeqNum := cs_nextSeqNum cwSpec + 1\<rparr>))"

section \<open>Removal of protection\<close>

datatype SSL3AlertDescription =
    close_notify | unexpected_message | bad_record_mac | decryption_failed_RESERVED | record_overflow
  | decompression_failure | handshake_failure | no_certificate | bad_certificate
  | unsupported_certificate | certificate_revoked | certificate_expired | certificate_unknown
  | illegal_parameter | unknown_ca | access_denied | decode_error | decrypt_error
  | export_restriction | protocol_version | insufficient_security | internal_error
  | inappropriate_fallback | user_canceled | no_renegotiation | missing_extension
  | unsupported_extension | certificate_unobtainable | unrecognized_name
  | bad_certificate_status_response | bad_certificate_hash_value | certificate_required
  | no_application_protocol | ech_required | no_alert

record SSL3Ciphertext =
  ct_hdr :: "byte list"
  ct_hdrLen :: u32
  ct_buf :: "byte list"

text \<open>
  The inner plaintext is the content, its type, and zeroes; the type is the last byte that is not zero.
\<close>

definition strip_padding :: "byte list \<Rightarrow> byte list" where
  "strip_padding pt = rev (dropWhile (\<lambda>b. b = 0) (rev pt))"

definition tls13_inner_checks ::
    "sslSocket \<Rightarrow> ssl3CipherSpec \<Rightarrow> byte \<Rightarrow> byte list \<Rightarrow>
     ((SSL3AlertDescription \<times> sec_error) + (byte list \<times> byte)) \<times> ssl3CipherSpec" where
  "tls13_inner_checks ss spec hdr0 plaintext =
     (if length plaintext > unat (cs_recordSizeLimit spec) + 1
      then (Inl (record_overflow, SSL_ERROR_RX_RECORD_TOO_LONG), spec)
      else
        let pt = strip_padding plaintext in
        if pt = [] then (Inl (unexpected_message, SSL_ERROR_BAD_BLOCK_PADDING), spec)
        else
          let innerType = last pt; content = butlast pt;
              outer13 = ((\<not> IS_DTLS ss \<and> hdr0 = ssl_ct_application_data) \<or>
                         (IS_DTLS ss \<and> dtls_IsDtls13Ciphertext (cs_version spec) hdr0))
          in
          if content = [] \<and> outer13 \<and> innerType = ssl_ct_alert
          then (Inl (unexpected_message, SSL_ERROR_RX_MALFORMED_ALERT), spec)
          else if content = [] \<and> outer13 \<and> innerType = ssl_ct_handshake
          then (Inl (unexpected_message, SSL_ERROR_RX_MALFORMED_HANDSHAKE), spec)
          else if cs_epoch spec = TrafficKeyEarlyApplicationData \<and> innerType = ssl_ct_application_data
          then (if length content > unat (cs_earlyDataRemaining spec)
                then (Inl (unexpected_message, SSL_ERROR_TOO_MUCH_EARLY_DATA), spec)
                else (Inr (content, innerType),
                      spec\<lparr>cs_earlyDataRemaining :=
                             cs_earlyDataRemaining spec - of_nat (length content)\<rparr>))
          else (Inr (content, innerType), spec))"

definition tls13_UnprotectRecord ::
    "nspr \<Rightarrow> aead_token \<Rightarrow> sslSocket \<Rightarrow> ssl3CipherSpec \<Rightarrow> SSL3Ciphertext \<Rightarrow> u64 \<Rightarrow>
     ((SSL3AlertDescription \<times> sec_error) + (byte list \<times> byte)) \<times> ssl3CipherSpec" where
  "tls13_UnprotectRecord h tk ss spec cText seqNum =
     (let hdr = ct_hdr cText; buf = ct_buf cText;
          tagLen = bc_tag_size (cs_cipherDef spec)
      in
      if \<not> (hdr ! 0 = ssl_ct_application_data \<or>
            (IS_DTLS ss \<and> ss_version ss \<ge> SSL_LIBRARY_VERSION_TLS_1_3 \<and> hdr ! 0 AND 0xe0 = 0x20))
      then (Inl (unexpected_message, SSL_ERROR_RX_UNEXPECTED_RECORD_TYPE), spec)
      else if length buf < unat tagLen then (Inl (bad_record_mac, SSL_ERROR_BAD_MAC_READ), spec)
      else if length buf > unat (cs_recordSizeLimit spec) + 1 + unat tagLen
      then (Inl (record_overflow, SSL_ERROR_RX_RECORD_TOO_LONG), spec)
      else if \<not> IS_DTLS ss \<and>
              push_bit 8 (ucast (hdr ! 1)) OR ucast (hdr ! 2) \<noteq> cs_recordVersion spec
      then (Inl (bad_record_mac, NO_ERROR_SET), spec)
      else case tls13_FormatAdditionalData h ss hdr (ct_hdrLen cText) (cs_epoch spec) seqNum of
        Inl e \<Rightarrow> (Inl (bad_record_mac, e), spec)
      | Inr aad \<Rightarrow>
          (case tls13_AEAD_decrypt tk spec (cs_iv spec) (unat (spec_ivLen spec)) (take 8 aad)
                  (drop 8 aad) tagLen buf of
             Inl _ \<Rightarrow>
               (Inl (bad_record_mac, SSL_ERROR_BAD_MAC_READ),
                if IS_DTLS ss
                then spec\<lparr>cs_deprotectionFailures := cs_deprotectionFailures spec + 1\<rparr> else spec)
           | Inr plaintext \<Rightarrow> tls13_inner_checks ss spec (hdr ! 0) plaintext))"

section \<open>Handling a received record\<close>

definition dtls13_AeadLimitReached :: "ssl3CipherSpec \<Rightarrow> bool" where
  "dtls13_AeadLimitReached spec \<longleftrightarrow>
     cs_version spec \<ge> SSL_LIBRARY_VERSION_TLS_1_3 \<and>
     (bc_calg (cs_cipherDef spec) = ssl_calg_chacha20 \<or> bc_calg (cs_cipherDef spec) = ssl_calg_aes_gcm) \<and>
     cs_deprotectionFailures spec \<ge> push_bit 36 1"

definition dtls_IsRelevant :: "ssl3CipherSpec \<Rightarrow> byte list \<Rightarrow> u64 option result" where
  "dtls_IsRelevant spec hdr =
     res_bind (dtls_ReadSequenceNumber (cs_version spec) (cs_nextSeqNum spec) hdr) (\<lambda>seqNum.
     Inr (if dtls_RecordGetRecvd (cs_recvdRecords spec) seqNum \<noteq> 0 then None else Some seqNum))"

text \<open>
  The read specs of a socket: the current one and the others, found by epoch in DTLS 1.3. The result is
  the index of the spec to use, the current one having index 0.
\<close>

definition ssl3_GetCipherSpec :: "sslSocket \<Rightarrow> ssl3CipherSpec list \<Rightarrow> byte list \<Rightarrow> nat option" where
  "ssl3_GetCipherSpec ss specs hdr =
     (if \<not> IS_DTLS ss then Some 0
      else
        let crSpec = specs ! 0;
            epoch = dtls_ReadEpoch (cs_version crSpec) (cs_epoch crSpec) hdr
        in if cs_epoch crSpec = epoch then Some 0
           else if ss_version ss \<ge> SSL_LIBRARY_VERSION_TLS_1_3
           then map_option fst (find (\<lambda>(i, spec). cs_epoch spec = epoch) (enumerate 0 specs))
           else None)"

text \<open>
  Outcomes: the record is dropped without an error; the call fails with an error, after an alert or
  without one; or the content, accepted under a sequence number, goes to one of the next stages: the
  handler of out-of-epoch records, the reader of application data, the handler of early data, the
  handler of the other record types.
\<close>

datatype record_outcome =
    RecordDropped
  | RecordFailed "SSL3AlertDescription option" sec_error
  | RecordContent byte u64 "byte list"
  | RecordOutOfEpoch byte "byte list"
  | RecordApplicationData "byte list"
  | RecordEarlyData "byte list"
  | RecordNonApplicationData byte u16 u64 "byte list"

text \<open>
  The middle of \<^verbatim>\<open>ssl3_HandleRecord\<close>, from the selected spec to the unprotected content:
  unmasking, the replay check, the record limit, the size limit, removal of protection with its error
  handling, and the update of the window. \<open>None\<close> is a call that does not return.
\<close>

definition record_error ::
    "sslSocket \<Rightarrow> ssl3CipherSpec \<Rightarrow> SSL3Ciphertext \<Rightarrow> SSL3AlertDescription \<Rightarrow> sec_error \<Rightarrow>
     record_outcome \<times> sslSocket" where
  "record_error ss spec cText alert err =
     (let ccs = (ss_version ss \<ge> SSL_LIBRARY_VERSION_TLS_1_3 \<and>
                 ct_hdr cText ! 0 = ssl_ct_change_cipher_spec \<and> \<not> ss_idleHandshake ss \<and>
                 ct_buf cText = [1])
      in if ccs \<and> \<not> ss_rejectCcs ss then (RecordDropped, ss\<lparr>ss_rejectCcs := True\<rparr>)
         else
           let alert = (if ccs then unexpected_message else alert);
               err = (if ccs then SSL_ERROR_RX_MALFORMED_CHANGE_CIPHER else err)
           in if (IS_DTLS ss \<and> \<not> dtls13_AeadLimitReached spec) \<or>
                 (\<not> IS_DTLS ss \<and> ss_isServer ss \<and> ss_zeroRttIgnore ss = ssl_0rtt_ignore_trial)
              then (if ss_fatalAlertSent ss then RecordFailed None err else RecordDropped, ss)
              else (RecordFailed (Some alert) err, ss))"

definition record_unprotect ::
    "nspr \<Rightarrow> aead_token \<Rightarrow>
     (ssl3CipherSpec \<Rightarrow> SSL3Ciphertext \<Rightarrow> u64 \<Rightarrow>
        ((SSL3AlertDescription \<times> sec_error) + (byte list \<times> byte)) \<times> ssl3CipherSpec) \<Rightarrow>
     sslSocket \<Rightarrow> ssl3CipherSpec \<Rightarrow> SSL3Ciphertext \<Rightarrow> u64 \<Rightarrow>
     ((SSL3AlertDescription \<times> sec_error) + (byte list \<times> byte)) \<times> ssl3CipherSpec" where
  "record_unprotect h tk ssl3_UnprotectRecord ss spec cText seqNum =
     (let rType = ct_hdr cText ! 0 in
      if cs_epoch spec = 0 \<and>
         ((IS_DTLS ss \<and> dtls_IsDtls13Ciphertext 0 rType) \<or> rType = ssl_ct_application_data)
      then (Inl (unexpected_message, SSL_ERROR_RX_UNEXPECTED_APPLICATION_DATA), spec)
      else if bc_cipher (cs_cipherDef spec) = cipher_null \<and> ct_buf cText = []
      then (Inr ([], rType), spec)
      else if cs_version spec < SSL_LIBRARY_VERSION_TLS_1_3 \<or> cs_epoch spec = 0
      then ssl3_UnprotectRecord spec cText seqNum
      else tls13_UnprotectRecord h tk ss spec cText seqNum)"

definition record_number ::
    "aead_token \<Rightarrow> sslSocket \<Rightarrow> ssl3CipherSpec \<Rightarrow> SSL3Ciphertext \<Rightarrow> (byte list \<times> u64 option) result" where
  "record_number tk ss spec cText =
     (if IS_DTLS ss
      then res_bind (dtls13_MaskSequenceNumber tk spec (ct_hdr cText) (ct_buf cText)) (\<lambda>hdr.
           res_bind (dtls_IsRelevant spec hdr) (\<lambda>relevant. Inr (hdr, relevant)))
      else Inr (ct_hdr cText, Some (cs_nextSeqNum spec)))"

definition ssl3_HandleRecord_open ::
    "nspr \<Rightarrow> aead_token \<Rightarrow>
     (ssl3CipherSpec \<Rightarrow> SSL3Ciphertext \<Rightarrow> u64 \<Rightarrow>
        ((SSL3AlertDescription \<times> sec_error) + (byte list \<times> byte)) \<times> ssl3CipherSpec) \<Rightarrow>
     sslSocket \<Rightarrow> ssl3CipherSpec \<Rightarrow> SSL3Ciphertext \<Rightarrow>
     (record_outcome \<times> sslSocket \<times> ssl3CipherSpec) option" where
  "ssl3_HandleRecord_open h tk ssl3_UnprotectRecord ss spec cText =
     (case record_number tk ss spec cText of
        Inl e \<Rightarrow> Some (RecordFailed None e, ss, spec)
      | Inr (_, None) \<Rightarrow> Some (RecordDropped, ss, spec)
      | Inr (hdr, Some seqNum) \<Rightarrow>
          let cText = cText\<lparr>ct_hdr := hdr\<rparr>;
              cTextSizeLimit = cs_recordSizeLimit spec +
                (if ss_version ss \<ge> SSL_LIBRARY_VERSION_TLS_1_3 then 256 else 2048)
          in
          if seqNum \<ge> bc_max_records (cs_cipherDef spec)
          then Some (RecordFailed None SSL_ERROR_TOO_MANY_RECORDS, ss, spec)
          else if length (ct_buf cText) > unat cTextSizeLimit
          then Some (if IS_DTLS ss then RecordDropped
                     else RecordFailed (Some record_overflow) SSL_ERROR_RX_RECORD_TOO_LONG, ss, spec)
          else case record_unprotect h tk ssl3_UnprotectRecord ss spec cText seqNum of
            (Inl (alert, err), spec) \<Rightarrow>
              (case record_error ss spec cText alert err of (out, ss) \<Rightarrow> Some (out, ss, spec))
          | (Inr (plaintext, rType), spec) \<Rightarrow>
              if IS_DTLS ss
              then map_option (\<lambda>records.
                     (RecordContent rType seqNum plaintext, ss,
                      spec\<lparr>cs_recvdRecords := records,
                           cs_nextSeqNum := max (cs_nextSeqNum spec) (seqNum + 1)\<rparr>))
                     (dtls_RecordSetRecvd (cs_recvdRecords spec) seqNum)
              else Some (RecordContent rType seqNum plaintext, ss,
                         spec\<lparr>cs_nextSeqNum := cs_nextSeqNum spec + 1\<rparr>))"

text \<open>
  The end of \<^verbatim>\<open>ssl3_HandleRecord\<close>: the content goes to the stage for its epoch and type.
  \<open>isTLS\<close> and \<open>recordSizeLimit\<close> were read from the spec at the start.
\<close>

definition ssl3_HandleRecord_dispatch ::
    "sslSocket \<Rightarrow> bool \<Rightarrow> u16 \<Rightarrow> bool \<Rightarrow> u16 \<Rightarrow> u16 \<Rightarrow> byte \<Rightarrow> u64 \<Rightarrow> byte list \<Rightarrow> record_outcome \<times> sslSocket" where
  "ssl3_HandleRecord_dispatch ss isTLS recordSizeLimit outOfOrderSpec epoch crEpoch rType seqNum plaintext =
     (if outOfOrderSpec \<and> \<not> (ss_allowPreviousEpoch ss \<and> unat epoch + 1 = unat crEpoch)
      then (RecordOutOfEpoch rType plaintext, ss)
      else
        let ss = (if outOfOrderSpec then ss else ss\<lparr>ss_allowPreviousEpoch := False\<rparr>) in
        if isTLS \<and> length plaintext > unat recordSizeLimit
        then (if IS_DTLS ss then RecordDropped
              else RecordFailed (Some record_overflow) SSL_ERROR_RX_RECORD_TOO_LONG, ss)
        else if rType = ssl_ct_application_data
        then (if ss_firstHsDone ss then RecordApplicationData plaintext
              else if ss_version ss \<ge> SSL_LIBRARY_VERSION_TLS_1_3 \<and> ss_isServer ss \<and>
                      ss_zeroRttAccepted ss \<and> epoch = TrafficKeyEarlyApplicationData
              then RecordEarlyData plaintext
              else if IS_DTLS ss then RecordDropped
              else RecordFailed (Some unexpected_message) SSL_ERROR_RX_UNEXPECTED_APPLICATION_DATA, ss)
        else (RecordNonApplicationData rType epoch seqNum plaintext, ss))"

definition ssl3_HandleRecord ::
    "nspr \<Rightarrow> aead_token \<Rightarrow>
     (ssl3CipherSpec \<Rightarrow> SSL3Ciphertext \<Rightarrow> u64 \<Rightarrow>
        ((SSL3AlertDescription \<times> sec_error) + (byte list \<times> byte)) \<times> ssl3CipherSpec) \<Rightarrow>
     sslSocket \<Rightarrow> ssl3CipherSpec list \<Rightarrow> SSL3Ciphertext \<Rightarrow>
     (record_outcome \<times> sslSocket \<times> ssl3CipherSpec list) option" where
  "ssl3_HandleRecord h tk ssl3_UnprotectRecord ss specs cText =
     (if \<not> ss_tokenPresent ss
      then Some (RecordFailed None SSL_ERROR_TOKEN_INSERTION_REMOVAL, ss, specs)
      else if ss_zeroRttIgnore ss = ssl_0rtt_ignore_hrr \<and> ct_hdr cText ! 0 = ssl_ct_application_data
      then Some (RecordDropped, ss, specs)
      else case ssl3_GetCipherSpec ss specs (ct_hdr cText) of
        None \<Rightarrow> Some (RecordDropped, ss, specs)
      | Some i \<Rightarrow>
          let isTLS = (cs_version (specs ! i) > SSL_LIBRARY_VERSION_3_0);
              recordSizeLimit = cs_recordSizeLimit (specs ! i)
          in map_option
            (\<lambda>(out, ss, spec).
               case out of
                 RecordContent rType seqNum plaintext \<Rightarrow>
                   (case ssl3_HandleRecord_dispatch ss isTLS recordSizeLimit (i \<noteq> 0) (cs_epoch spec)
                           (cs_epoch (specs ! 0)) rType seqNum plaintext of
                      (out, ss) \<Rightarrow> (out, ss, specs[i := spec]))
               | _ \<Rightarrow> (out, ss, specs[i := spec]))
            (ssl3_HandleRecord_open h tk ssl3_UnprotectRecord ss (specs ! i) cText))"

section \<open>What a record carries\<close>

definition short_header :: "sslSocket \<Rightarrow> ssl3CipherSpec \<Rightarrow> bool" where
  "short_header ss spec \<longleftrightarrow> IS_DTLS ss \<and> ss_enableDtlsShortHeader ss \<and> cs_epoch spec > TrafficKeyHandshake"

definition record_header :: "sslSocket \<Rightarrow> ssl3CipherSpec \<Rightarrow> byte list" where
  "record_header ss spec =
     (if \<not> IS_DTLS ss
      then [ssl_ct_application_data, ucast (drop_bit 8 (cs_recordVersion spec)), ucast (cs_recordVersion spec)]
      else if short_header ss spec
      then [0x20 OR (ucast (cs_epoch spec) AND 3), ucast (cs_nextSeqNum spec)]
      else [0x2c OR (ucast (cs_epoch spec) AND 3), ucast (drop_bit 8 (cs_nextSeqNum spec)),
            ucast (cs_nextSeqNum spec)])"

definition aead_spec :: "ssl3CipherSpec \<Rightarrow> bool" where
  "aead_spec spec \<longleftrightarrow> cs_cipherDef spec \<in> set ssl_bulk_cipher_defs \<and>
     bc_type (cs_cipherDef spec) = type_aead \<and> length (cs_iv spec) = MAX_IV_LENGTH \<and>
     cs_version spec \<ge> SSL_LIBRARY_VERSION_TLS_1_3 \<and> cs_epoch spec > TrafficKeyEarlyApplicationData"

lemma aead_specD:
  assumes "aead_spec spec"
  shows "bc_calg (cs_cipherDef spec) \<noteq> ssl_calg_null" "bc_cipher (cs_cipherDef spec) \<noteq> cipher_null"
    "bc_tag_size (cs_cipherDef spec) = 16" "spec_ivLen spec = 12"
    "bc_max_records (cs_cipherDef spec) \<le> RECORD_SEQ_MAX" "length (cs_iv spec) = 24"
    "\<not> cs_version spec < SSL_LIBRARY_VERSION_TLS_1_3" "cs_epoch spec > 0" "cs_epoch spec \<noteq> 0" "cs_epoch spec \<noteq> 1"
proof -
  have "cs_cipherDef spec \<in> set ssl_bulk_cipher_defs" "bc_type (cs_cipherDef spec) = type_aead"
    using assms by (simp_all add: aead_spec_def)
  then show "bc_calg (cs_cipherDef spec) \<noteq> ssl_calg_null" "bc_cipher (cs_cipherDef spec) \<noteq> cipher_null"
    "bc_tag_size (cs_cipherDef spec) = 16" "spec_ivLen spec = 12"
    "bc_max_records (cs_cipherDef spec) \<le> RECORD_SEQ_MAX"
    by (auto simp: ssl_bulk_cipher_defs_def ssl3BulkCipherDef.make_def spec_ivLen_def RECORD_SEQ_MAX_def)
  show "length (cs_iv spec) = 24" "\<not> cs_version spec < SSL_LIBRARY_VERSION_TLS_1_3" "cs_epoch spec \<noteq> 1"
    using assms by (auto simp: aead_spec_def MAX_IV_LENGTH_def)
  show "cs_epoch spec > 0" "cs_epoch spec \<noteq> 0"
    using assms by (auto simp: aead_spec_def word_less_nat_alt word_neq_0_conv)
qed

lemma be_bytes_byte: "be_bytes (Suc 0) (unat (ucast (b :: byte) :: u64)) = [b]"
  by (simp add: unat_ucast_le)

lemma be_bytes_u16: "be_bytes 2 (unat (ucast (w :: u16) :: u64)) = [ucast (drop_bit 8 w), ucast w]"
proof -
  have "(word_of_nat (unat w div 256) :: byte) = ucast (drop_bit 8 w)"
    by (simp add: ucast_word_of_nat unat_drop_bit_div)
  then show ?thesis by (simp add: be_bytes_numeral unat_ucast_le numeral_2_eq_2 ucast_word_of_nat [symmetric])
qed

lemma ssl_InsertRecordHeader_room:
  assumes sp: "aead_spec spec" and room: "sslBuffer_room b n" and n: "3 \<le> n"
  shows "\<exists>b'. ssl_InsertRecordHeader h ss spec ct b = Inr (b', \<not> short_header ss spec) \<and>
           sslBuffer_room b' (n - length (record_header ss spec)) \<and>
           unat (sb_len b') = unat (sb_len b) + length (record_header ss spec) \<and>
           sslBuffer_contents b' = sslBuffer_contents b @ record_header ss spec"
proof -
  have app: "\<exists>b'. sslBuffer_AppendNumber h b v sz = Inr b' \<and> sslBuffer_room b' (n - unat sz) \<and>
         unat (sb_len b') = unat (sb_len b) + unat sz \<and>
         sslBuffer_contents b' = sslBuffer_contents b @ be_bytes (unat sz) (unat v)"
    if "sslBuffer_room b n" "sz \<le> 8" "unat sz \<le> n" for b n v sz
    using sslBuffer_AppendNumber_room [OF that, of h v] sslBuffer_room_len [OF that(1,3)] by auto
  have two: "\<exists>b2. res_bind (sslBuffer_AppendNumber h b (ucast c) 1) (\<lambda>b. sslBuffer_AppendNumber h b v sz) = Inr b2 \<and>
       sslBuffer_room b2 (n - (1 + unat sz)) \<and> unat (sb_len b2) = unat (sb_len b) + (1 + unat sz) \<and>
       sslBuffer_contents b2 = sslBuffer_contents b @ c # be_bytes (unat sz) (unat v)"
    if "unat sz \<le> 2" for c :: byte and v sz
  proof -
    obtain b1 where b1: "sslBuffer_AppendNumber h b (ucast c) 1 = Inr b1" "sslBuffer_room b1 (n - 1)"
      "unat (sb_len b1) = unat (sb_len b) + 1" "sslBuffer_contents b1 = sslBuffer_contents b @ [c]"
      using app [OF room, of 1 "ucast c"] n be_bytes_byte [of c] by auto
    have "sz \<le> 8" using that by (simp add: word_le_nat_alt)
    then show ?thesis using app [OF b1(2), of sz v] that n b1 by auto
  qed
  have e: "ucast (0x20 OR (ucast (cs_epoch spec) AND 3 :: u64)) = (0x20 OR (ucast (cs_epoch spec) AND 3) :: byte)"
    by (rule bit_word_eqI) (auto simp: bit_simps)
  have m: "(0xff :: u64) = mask 8" "(0xffff :: u64) = mask 16" by (simp_all add: mask_eq_exp_minus_1)
  have s8: "ucast (cs_nextSeqNum spec AND 0xff) = (ucast (cs_nextSeqNum spec) :: byte)"
    unfolding m by (rule bit_word_eqI) (auto simp: bit_simps)
  have s888: "ucast (ucast (ucast (cs_nextSeqNum spec) :: byte) :: u64) = (ucast (cs_nextSeqNum spec) :: byte)"
    by (rule bit_word_eqI) (auto simp: bit_simps)
  have s16: "ucast (drop_bit 8 (ucast (cs_nextSeqNum spec AND 0xffff) :: u16)) =
        (ucast (drop_bit 8 (cs_nextSeqNum spec)) :: byte)"
      "ucast (ucast (cs_nextSeqNum spec AND 0xffff) :: u16) = (ucast (cs_nextSeqNum spec) :: byte)"
    unfolding m by (rule bit_word_eqI; auto simp: bit_simps)+
  consider (tls) "\<not> IS_DTLS ss" | (short) "short_header ss spec" | (long) "IS_DTLS ss" "\<not> short_header ss spec"
    by blast
  then show ?thesis
  proof cases
    case tls
    then show ?thesis
      using two [of 2 ssl_ct_application_data "ucast (cs_recordVersion spec)"] aead_specD [OF sp]
      by (auto simp: ssl_InsertRecordHeader_def record_header_def short_header_def be_bytes_u16 not_less)
  next
    case short
    then show ?thesis
      using two [of 1 "0x20 OR (ucast (cs_epoch spec) AND 3)" "ucast (ucast (cs_nextSeqNum spec) :: byte)"] aead_specD [OF sp]
      by (auto simp: ssl_InsertRecordHeader_def dtls13_InsertCipherTextHeader_def record_header_def
          short_header_def be_bytes_byte not_less e s8 s888 Let_def)
  next
    case long
    then show ?thesis
      using two [of 2 "0x2c OR (ucast (cs_epoch spec) AND 3)"
          "ucast (ucast (cs_nextSeqNum spec AND 0xffff) :: u16)"] aead_specD [OF sp]
      by (auto simp: ssl_InsertRecordHeader_def dtls13_InsertCipherTextHeader_def record_header_def
          short_header_def be_bytes_u16 not_less s16 Let_def)
  qed
qed

definition record_aad :: "sslSocket \<Rightarrow> ssl3CipherSpec \<Rightarrow> nat \<Rightarrow> byte list" where
  "record_aad ss spec n =
     record_header ss spec @ (if short_header ss spec then [] else be_bytes 2 n)"

lemma length_record_header:
  "length (record_header ss spec) \<le> 3"
  by (simp add: record_header_def)

lemma tls13_FormatAdditionalData_ok:
  assumes v: "\<not> IS_DTLS_1_OR_12 ss" and len: "unat n \<le> length hdr" "unat n \<le> 13"
  shows "tls13_FormatAdditionalData h ss hdr n epoch seqNum = Inr (be_bytes 8 (unat seqNum) @ take (unat n) hdr)"
proof -
  let ?b = "SSL_BUFFER_FIXED (replicate 21 0) 21"
  have room: "sslBuffer_room ?b 21" and con: "sslBuffer_contents ?b = []"
    by (simp_all add: sslBuffer_room_def sslBuffer_inv_def sslBuffer_contents_def SSL_BUFFER_FIXED_def)
  obtain b1 where b1: "sslBuffer_AppendNumber h ?b seqNum 8 = Inr b1" "sslBuffer_room b1 13"
      "sslBuffer_contents b1 = be_bytes 8 (unat seqNum)"
    using sslBuffer_AppendNumber_room [OF room, of 8 h seqNum] con by auto
  obtain b2 where "sslBuffer_Append h b1 hdr n = Inr b2"
      "sslBuffer_contents b2 = be_bytes 8 (unat seqNum) @ take (unat n) hdr"
    using sslBuffer_Append_room [OF b1(2) len] b1(3) by auto
  then show ?thesis using v b1 by (simp add: tls13_FormatAdditionalData_def)
qed

lemma tls13_ProtectRecord_aad_ok:
  assumes sp: "aead_spec spec" and v: "\<not> IS_DTLS_1_OR_12 ss" and n: "unat contentLen + 17 < 65536"
  shows "tls13_ProtectRecord_aad h ss spec contentLen =
           Inr (be_bytes 8 (unat (cs_nextSeqNum spec)) @ record_aad ss spec (unat contentLen + 17))"
proof -
  let ?b = "SSL_BUFFER_FIXED (replicate 13 0) 13"
  have room: "sslBuffer_room ?b 13" and con: "sslBuffer_contents ?b = []"
    by (simp_all add: sslBuffer_room_def sslBuffer_inv_def sslBuffer_contents_def SSL_BUFFER_FIXED_def)
  obtain b1 where b1: "ssl_InsertRecordHeader h ss spec ssl_ct_application_data ?b = Inr (b1, \<not> short_header ss spec)"
      "sslBuffer_room b1 (13 - length (record_header ss spec))"
      "sslBuffer_contents b1 = record_header ss spec"
    using ssl_InsertRecordHeader_room [OF sp room, where h = h and ss = ss and ct = ssl_ct_application_data] con by auto
  have len: "unat (ucast (contentLen + 1 + 16) :: u64) = unat contentLen + 17"
    using n by (simp add: unat_ucast_le unat_plus_no_wrap)
  have "\<exists>b2. (if \<not> short_header ss spec then sslBuffer_AppendNumber h b1 (ucast (contentLen + 1 + 16)) 2 else Inr b1) =
        Inr b2 \<and> sslBuffer_room b2 0 \<and> sslBuffer_contents b2 = record_aad ss spec (unat contentLen + 17)"
  proof (cases "short_header ss spec")
    case True
    then show ?thesis using b1 sslBuffer_room_mono [OF b1(2), of 0] by (simp add: record_aad_def)
  next
    case False
    then show ?thesis
      using sslBuffer_AppendNumber_room [OF b1(2), of 2 h "ucast (contentLen + 1 + 16)"] b1(3)
        length_record_header [of ss spec] sslBuffer_room_mono [where m = 0]
      unfolding len by (fastforce simp: record_aad_def)
  qed
  then obtain b2 where b2: "(if \<not> short_header ss spec then sslBuffer_AppendNumber h b1 (ucast (contentLen + 1 + 16)) 2 else Inr b1) =
        Inr b2" "sslBuffer_room b2 0" "sslBuffer_contents b2 = record_aad ss spec (unat contentLen + 17)"
    by blast
  have l2: "unat (sb_len b2) = length (record_aad ss spec (unat contentLen + 17))"
    using length_sslBuffer_contents [of b2] b2(2,3) by (simp add: sslBuffer_room_def)
  have "length (record_aad ss spec (unat contentLen + 17)) \<le> 13"
    using length_record_header [of ss spec] by (simp add: record_aad_def)
  then have "tls13_FormatAdditionalData h ss (sslBuffer_contents b2) (sb_len b2) (cs_epoch spec) (cs_nextSeqNum spec) =
      Inr (be_bytes 8 (unat (cs_nextSeqNum spec)) @ record_aad ss spec (unat contentLen + 17))"
    using tls13_FormatAdditionalData_ok [OF v, of "sb_len b2" "sslBuffer_contents b2"] l2 b2(3) by simp
  then show ?thesis
    unfolding tls13_ProtectRecord_aad_def b1(1) res_bind_simps prod.case aead_specD(3) [OF sp] b2(1) .
qed

definition record_nonce :: "ssl3CipherSpec \<Rightarrow> u64 \<Rightarrow> byte list" where
  "record_nonce spec seqNum =
     take 4 (cs_iv spec) @ map2 (XOR) (take 8 (drop 4 (cs_iv spec))) (be_bytes 8 (unat seqNum))"

lemma tls13_WriteNonce_record_nonce:
  assumes "length (cs_iv spec) = 24"
  shows "tls13_WriteNonce (cs_iv spec) (be_bytes 8 (unat seqNum)) 12 = record_nonce spec seqNum"
  using assms by (simp add: tls13_WriteNonce_def record_nonce_def Let_def drop_take min_def)

definition sender_ready :: "ssl3CipherSpec \<Rightarrow> bool" where
  "sender_ready spec \<longleftrightarrow> aead_spec spec \<and>
     iv_ctx_ready (cs_ivContext spec) 12 32 CKG_GENERATE_COUNTER_XOR \<and>
     iv_counter (cs_ivContext spec) = cs_nextSeqNum spec \<and>
     cs_nextSeqNum spec < bc_max_records (cs_cipherDef spec)"

lemma pk11_GenerateIV_record:
  assumes "sender_ready spec"
  shows "\<exists>ctx. pk11_GenerateIV rng (cs_ivContext spec) CKG_GENERATE_COUNTER_XOR 32 (take 12 (cs_iv spec)) 12 =
           (Inr (record_nonce spec (cs_nextSeqNum spec)), ctx) \<and>
         iv_ctx_ready ctx 12 32 CKG_GENERATE_COUNTER_XOR \<and> iv_counter ctx = cs_nextSeqNum spec + 1"
proof -
  have sp: "aead_spec spec" and ctr: "iv_counter (cs_ivContext spec) = cs_nextSeqNum spec"
    and lt: "cs_nextSeqNum spec < bc_max_records (cs_cipherDef spec)"
    using assms by (simp_all add: sender_ready_def)
  have "cs_nextSeqNum spec < RECORD_SEQ_MAX" using lt aead_specD(5) [OF sp] by simp
  then have lim: "unat (cs_nextSeqNum spec) < 2 ^ 48"
    by (simp add: RECORD_SEQ_MAX_def word_less_nat_alt)
  then have lim': "unat (cs_nextSeqNum spec) < iv_limit (8 * unat (12 :: u32) - unat (32 :: u32))"
    by (simp add: iv_limit_def)
  have "iv_ready (take 12 (cs_iv spec)) 12 32 CKG_GENERATE_COUNTER_XOR (cs_ivContext spec)"
    using assms aead_specD(6) [OF sp] by (simp add: sender_ready_def iv_ready_def iv_config_def iv_counter_gen_def)
  from pk11_nonces.draw_ready [OF this, of rng] lim' ctr obtain ctx where
    ctx: "pk11_GenerateIV rng (cs_ivContext spec) CKG_GENERATE_COUNTER_XOR 32 (take 12 (cs_iv spec)) 12 =
       (Inr (iv_vector CKG_GENERATE_COUNTER_XOR (take 12 (cs_iv spec)) 32 (unat (cs_nextSeqNum spec))), ctx)"
      "iv_ready (take 12 (cs_iv spec)) 12 32 CKG_GENERATE_COUNTER_XOR ctx"
      "unat (iv_counter ctx) = unat (cs_nextSeqNum spec) + 1"
    by auto
  have "iv_vector CKG_GENERATE_COUNTER_XOR (take 12 (cs_iv spec)) 32 (unat (cs_nextSeqNum spec)) =
      record_nonce spec (cs_nextSeqNum spec)"
    using aead_specD(6) [OF sp] by (simp add: iv_vector_def record_nonce_def Let_def drop_take min_def)
  moreover have "iv_counter ctx = cs_nextSeqNum spec + 1"
    using ctx(3) lim by (simp add: word_unat_eq_iff unat_plus_no_wrap)
  ultimately show ?thesis using ctx(1,2) by (simp add: iv_ready_def)
qed

lemma tls13_SetupAeadIv_13:
  assumes "aead_spec spec"
  shows "tls13_SetupAeadIv d (cs_version spec) (cs_iv spec) (12 - 8) 12 e =
           Inr (take 12 (cs_iv spec) @ replicate 12 0, 4)"
  using aead_specD(6,7) [OF assms]
  by (simp add: tls13_SetupAeadIv_def MAX_IV_LENGTH_def mem_read_def mem_write_def)

lemma sslBuffer_put_mem:
  "sb_buf b = Some m \<Longrightarrow> off + length src \<le> length m \<Longrightarrow>
     sslBuffer_put b off src = Inr (b\<lparr>sb_buf := Some (take off m @ src @ drop (off + length src) m)\<rparr>)"
  by (cases b) (auto simp: sslBuffer_put_def mem_write_def)

lemma tls13_ProtectRecord_ok:
  assumes snd: "sender_ready spec" and v: "\<not> IS_DTLS_1_OR_12 ss" and tk: "aead_token_ok tk"
    and pIn: "unat contentLen = length pIn" "length pIn + 17 < 65536"
    and room: "sslBuffer_room b (length pIn + 17)"
    and enc: "tk_encrypt tk (cs_key spec) (record_nonce spec (cs_nextSeqNum spec))
                (record_aad ss spec (length pIn + 17)) 16 (pIn @ [ct]) = Inr (c, tag)"
  shows "\<exists>b' ctx. tls13_ProtectRecord h tk ss spec ct pIn contentLen b =
           (Inr b', spec\<lparr>cs_ivContext := ctx\<rparr>) \<and>
         sslBuffer_inv b' \<and> sslBuffer_contents b' = sslBuffer_contents b @ c @ tag \<and>
         iv_ctx_ready ctx 12 32 CKG_GENERATE_COUNTER_XOR \<and> iv_counter ctx = cs_nextSeqNum spec + 1"
proof -
  have sp: "aead_spec spec" using snd by (simp add: sender_ready_def)
  note D = aead_specD [OF sp]
  have len: "length c = length pIn + 1" "length tag = 16"
    using tk enc unfolding aead_token_ok_def by fastforce+
  define off where "off = unat (sb_len b)"
  obtain m where m: "sb_buf b = Some m" "length m = unat (sb_space b)" "off + (length pIn + 17) \<le> length m"
    using room by (auto simp: sslBuffer_room_def sslBuffer_inv_def off_def split: option.splits)
  define wr where "wr src = b\<lparr>sb_buf := Some (take off m @ src @ drop (off + length src) m)\<rparr>" for src
  have put1: "sslBuffer_put b off pIn = Inr (wr pIn)"
    using m by (simp add: wr_def sslBuffer_put_mem)
  have put2: "sslBuffer_put (wr pIn) (off + length pIn) [ct] = Inr (wr (pIn @ [ct]))"
    using m by (subst sslBuffer_put_mem [where m = "take off m @ pIn @ drop (off + length pIn) m"]) (simp_all add: wr_def)
  have put3: "sslBuffer_put (wr (pIn @ [ct])) off (c @ tag) = Inr (wr (c @ tag))"
    using m len by (subst sslBuffer_put_mem [where m = "take off m @ (pIn @ [ct]) @ drop (off + length (pIn @ [ct])) m"])
      (simp_all add: wr_def add_ac)
  have inp: "take (length pIn + 1) (drop off (case sb_buf (wr (pIn @ [ct])) of None \<Rightarrow> [] | Some m \<Rightarrow> m)) = pIn @ [ct]"
    using m by (simp add: wr_def)
  have rooms: "sslBuffer_room (wr src) (length pIn + 17)" if "length src \<le> length pIn + 17" for src
    using room m that by (auto simp: sslBuffer_room_def sslBuffer_inv_def wr_def)
  have sp1: "SSL_BUFFER_SPACE (wr src) = SSL_BUFFER_SPACE b" for src
    by (simp add: SSL_BUFFER_SPACE_def wr_def)
  have space: "unat (SSL_BUFFER_SPACE b) \<ge> length pIn + 17"
    using room by (auto simp: SSL_BUFFER_SPACE_def sslBuffer_room_def unat_sub word_le_nat_alt)
  have need: "unat (contentLen + 1 + 16) = length pIn + 17" "unat (of_nat (length c) + 16 :: u32) = length pIn + 17"
      "unat (of_nat (length (c @ tag)) :: u32) = length pIn + 17"
    using pIn len by (simp_all add: unat_plus_no_wrap unat_of_nat)
  have guard: "\<not> contentLen + 1 + 16 > SSL_BUFFER_SPACE b" "\<not> of_nat (length c) + 16 > SSL_BUFFER_SPACE b"
    unfolding word_less_nat_alt need using space by simp_all
  obtain ctx where ctx: "pk11_GenerateIV (tk_random tk) (cs_ivContext spec) CKG_GENERATE_COUNTER_XOR 32 (take 12 (cs_iv spec)) 12 =
           (Inr (record_nonce spec (cs_nextSeqNum spec)), ctx)"
         "iv_ctx_ready ctx 12 32 CKG_GENERATE_COUNTER_XOR" "iv_counter ctx = cs_nextSeqNum spec + 1"
    using pk11_GenerateIV_record [OF snd] by blast
  have nl: "take 12 (record_nonce spec (cs_nextSeqNum spec)) = record_nonce spec (cs_nextSeqNum spec)"
    using D(6) by (simp add: record_nonce_def)
  have aead: "tls13_AEAD_encrypt tk spec (4 * 8) (take 12 (cs_iv spec)) 12 (record_aad ss spec (length pIn + 17))
      (SSL_BUFFER_SPACE b) 16 (pIn @ [ct]) = (Inr (c @ tag), spec\<lparr>cs_ivContext := ctx\<rparr>)"
    using ctx(1) enc guard(2) by (simp add: tls13_AEAD_encrypt_def nl)
  let ?b3 = "(wr (c @ tag))\<lparr>sb_len := sb_len (wr (c @ tag)) + of_nat (length (c @ tag))\<rparr>"
  have skip: "sslBuffer_Skip h (wr (c @ tag)) (of_nat (length (c @ tag))) = Inr (?b3, sb_len (wr (c @ tag)))"
      and inv3: "sslBuffer_inv ?b3"
    using sslBuffer_Skip_room [OF rooms [of "c @ tag"], of "of_nat (length (c @ tag))" h] len need
    by (simp_all add: sslBuffer_room_def)
  have "unat (sb_len (wr (c @ tag)) + of_nat (length (c @ tag))) = off + length (c @ tag)"
    using sslBuffer_room_len [OF rooms [of "c @ tag"], of "of_nat (length (c @ tag))"] len need
    by (simp add: off_def wr_def)
  then have con3: "sslBuffer_contents ?b3 = sslBuffer_contents b @ c @ tag"
    using m len by (simp add: sslBuffer_contents_def wr_def off_def)
  have rd: "mem_read pIn 0 (length pIn) = Inr pIn" by (simp add: mem_read_def)
  have n17: "unat contentLen + 17 < 65536" using pIn by simp
  have iv12: "take (unat (12 :: u32)) (take 12 (cs_iv spec) @ replicate 12 (0 :: byte)) = take 12 (cs_iv spec)"
    using D(6) by simp
  have a8: "drop 8 (be_bytes 8 x @ y) = y" for x y by simp
  have "tls13_ProtectRecord h tk ss spec ct pIn contentLen b = (Inr ?b3, spec\<lparr>cs_ivContext := ctx\<rparr>)"
    unfolding tls13_ProtectRecord_def Let_def D(3,4) if_not_P [OF guard(1)] rd res_bind_simps off_def [symmetric]
      put1 sum.case if_not_P [OF D(1)] pIn(1) put2 tls13_ProtectRecord_aad_ok [OF sp v n17]
      tls13_SetupAeadIv_13 [OF sp] prod.case sp1 iv12 a8 inp aead put3 skip ..
  then show ?thesis using inv3 con3 ctx(2,3) by blast
qed

section \<open>The path of a record\<close>

text \<open>
  Two cipher specs of one key agree on everything the record depends on; the receiver's window and next
  sequence number are its own.
\<close>

definition spec_peers :: "ssl3CipherSpec \<Rightarrow> ssl3CipherSpec \<Rightarrow> bool" where
  "spec_peers w r \<longleftrightarrow> cs_version r = cs_version w \<and> cs_recordVersion r = cs_recordVersion w \<and>
     cs_cipherDef r = cs_cipherDef w \<and> cs_key r = cs_key w \<and> cs_iv r = cs_iv w \<and>
     cs_epoch r = cs_epoch w \<and> cs_maskContext r = cs_maskContext w \<and>
     cs_recordSizeLimit r = cs_recordSizeLimit w"

lemma strip_padding_snoc: "t \<noteq> 0 \<Longrightarrow> strip_padding (xs @ [t]) = xs @ [t]"
  by (simp add: strip_padding_def)

lemma byte_and_3: "(x AND 3 :: byte) \<in> {0, 1, 2, 3}"
proof -
  have "unat (x AND 3) < 4" using unat_and_mask [of x 2] by (simp add: mask_eq_exp_minus_1)
  then have "unat (x AND 3) \<in> {0, 1, 2, 3}" by auto
  then show ?thesis by (auto simp: word_unat_eq_iff)
qed

lemma join_u16: "push_bit 8 (ucast (ucast (drop_bit 8 v) :: byte)) OR ucast (ucast v :: byte) = (v :: u16)"
  by (rule bit_word_eqI) (auto simp: bit_simps)

lemma tls13_UnprotectRecord_ok:
  assumes w: "aead_spec w" and pr: "spec_peers w r" and v: "ss_version ss \<ge> SSL_LIBRARY_VERSION_TLS_1_3"
    and ss': "IS_DTLS ss' = IS_DTLS ss" and tk: "aead_token_ok tk"
    and enc: "tk_encrypt tk (cs_key w) (record_nonce w (cs_nextSeqNum w))
                (record_aad ss' w (length pIn + 17)) 16 (pIn @ [ct]) = Inr (c, tag)"
    and fits: "length pIn \<le> unat (cs_recordSizeLimit w)" and ct: "ct \<noteq> 0"
    and nonempty: "pIn \<noteq> [] \<or> ct \<noteq> ssl_ct_alert \<and> ct \<noteq> ssl_ct_handshake"
    and hdr: "hdr = record_aad ss' w (length pIn + 17) @ pad" "unat n = length (record_aad ss' w (length pIn + 17))"
  shows "tls13_UnprotectRecord h tk ss r \<lparr>ct_hdr = hdr, ct_hdrLen = n, ct_buf = c @ tag\<rparr> (cs_nextSeqNum w) =
           (Inr (pIn, ct), r)"
proof -
  have D: "bc_tag_size (cs_cipherDef r) = 16" "spec_ivLen r = 12" "length (cs_iv r) = 24" "cs_epoch r \<noteq> 1"
    using aead_specD [OF w] pr by (simp_all add: spec_peers_def spec_ivLen_def)
  have len: "length c = length pIn + 1" "length tag = 16"
    and dec: "tk_decrypt tk (cs_key w) (record_nonce w (cs_nextSeqNum w))
                (record_aad ss' w (length pIn + 17)) tag c = Inr (pIn @ [ct])"
    using tk enc unfolding aead_token_ok_def by fastforce+
  have n13: "unat n \<le> 13" "unat n \<le> length hdr" "take (unat n) hdr = record_aad ss' w (length pIn + 17)"
    using length_record_header [of ss' w] hdr by (simp_all add: record_aad_def)
  have v13: "\<not> IS_DTLS_1_OR_12 ss" using v by (simp add: IS_DTLS_1_OR_12_def not_less)
  have "(ucast (cs_epoch w) AND 3 :: byte) \<in> {0, 1, 2, 3}" by (rule byte_and_3)
  then have h0: "if IS_DTLS ss then hdr ! 0 AND 0xe0 = 0x20 else hdr ! 0 = ssl_ct_application_data"
    using ss' by (auto simp: hdr record_aad_def record_header_def)
  have hv: "\<not> IS_DTLS ss \<Longrightarrow> push_bit 8 (ucast (hdr ! 1)) OR ucast (hdr ! 2) = cs_recordVersion r"
    using ss' pr by (simp add: hdr record_aad_def record_header_def spec_peers_def join_u16)
  have nonce: "tls13_WriteNonce (cs_iv w) (be_bytes 8 (unat (cs_nextSeqNum w))) 12 = record_nonce w (cs_nextSeqNum w)"
    using tls13_WriteNonce_record_nonce aead_specD(6) [OF w] by blast
  have aead: "tls13_AEAD_decrypt tk r (cs_iv w) 12 (be_bytes 8 (unat (cs_nextSeqNum w)))
      (record_aad ss' w (length pIn + 17)) 16 (c @ tag) = Inr (pIn @ [ct])"
    using len dec pr by (simp add: tls13_AEAD_decrypt_def nonce Let_def spec_peers_def)
  have inner: "tls13_inner_checks ss r (hdr ! 0) (pIn @ [ct]) = (Inr (pIn, ct), r)"
    using fits pr nonempty D(4) ct
    by (auto simp: tls13_inner_checks_def Let_def strip_padding_snoc spec_peers_def)
  show ?thesis
    using h0 hv fits pr len v D inner
    by (auto simp: tls13_UnprotectRecord_def Let_def tls13_FormatAdditionalData_ok [OF v13 n13(2,1)] n13(3) aead
        spec_peers_def)
qed

lemma dtls13_MaskSequenceNumber_ivContext:
  "dtls13_MaskSequenceNumber tk (w\<lparr>cs_ivContext := x\<rparr>) = dtls13_MaskSequenceNumber tk w"
  by (simp add: dtls13_MaskSequenceNumber_def fun_eq_iff)

lemma dtls13_MaskSequenceNumber_append:
  assumes "dtls13_MaskSequenceNumber tk spec hdr cipherText = Inr mh"
    and "2 \<le> length hdr" "hdr ! 0 AND 8 \<noteq> 0 \<Longrightarrow> 3 \<le> length hdr"
  shows "dtls13_MaskSequenceNumber tk spec (hdr @ rest) cipherText = Inr (mh @ rest)"
    and "length mh = length hdr" "mh ! 0 = hdr ! 0"
  using assms by (auto simp: dtls13_MaskSequenceNumber_def nth_append list_update_append Let_def
      split: option.splits sum.splits if_splits)

lemma dtls13_MaskSequenceNumber_involution:
  assumes mask: "dtls13_MaskSequenceNumber tk spec hdr cipherText = Inr mh"
    and len: "2 \<le> length hdr" "hdr ! 0 AND 8 \<noteq> 0 \<Longrightarrow> 3 \<le> length hdr"
  shows "dtls13_MaskSequenceNumber tk spec mh cipherText = Inr hdr"
proof -
  have x: "(a XOR b) XOR b = (a :: byte)" for a b by (simp add: xor.assoc)
  have u: "hdr[Suc 0 := hdr ! Suc 0] = hdr" "hdr[2 := hdr ! 2] = hdr" by simp_all
  show ?thesis
    using assms
    by (auto simp: dtls13_MaskSequenceNumber_def Let_def x list_update_swap [of 2 "Suc 0"]
        split: option.splits sum.splits if_splits)
qed

lemma record_header_shape:
  "2 \<le> length (record_header ss spec)"
  "IS_DTLS ss \<Longrightarrow> record_header ss spec ! 0 AND 8 \<noteq> 0 \<longleftrightarrow> \<not> short_header ss spec"
  "\<not> short_header ss spec \<Longrightarrow> length (record_header ss spec) = 3"
  "short_header ss spec \<Longrightarrow> length (record_header ss spec) = 2"
  "IS_DTLS ss \<Longrightarrow> ucast (record_header ss spec ! 0) AND 3 = cs_epoch spec AND 3"
  "IS_DTLS ss \<Longrightarrow> record_header ss spec ! 0 AND 0xe0 = 0x20"
proof -
  have b3: "(ucast (cs_epoch spec) AND 3 :: byte) \<in> {0, 1, 2, 3}" by (rule byte_and_3)
  show "2 \<le> length (record_header ss spec)"
    "\<not> short_header ss spec \<Longrightarrow> length (record_header ss spec) = 3"
    "short_header ss spec \<Longrightarrow> length (record_header ss spec) = 2"
    by (auto simp: record_header_def short_header_def)
  show "IS_DTLS ss \<Longrightarrow> record_header ss spec ! 0 AND 8 \<noteq> 0 \<longleftrightarrow> \<not> short_header ss spec"
     "IS_DTLS ss \<Longrightarrow> record_header ss spec ! 0 AND 0xe0 = 0x20"
    using b3 by (auto simp: record_header_def)
  have m: "(3 :: u16) = mask 2" "(3 :: byte) = mask 2" by (simp_all add: mask_eq_exp_minus_1)
  have "(ucast ((ucast (cs_epoch spec) :: byte) AND 3) :: u16) = cs_epoch spec AND 3"
    unfolding m by (rule bit_word_eqI) (auto simp: bit_simps)
  moreover have "ucast x AND (3 :: u16) = ucast (x AND 3)" for x :: byte
    unfolding m by (rule bit_word_eqI) (auto simp: bit_simps)
  moreover have "(0x20 OR (y AND 3)) AND 3 = (y AND 3 :: byte)" "(0x2c OR (y AND 3)) AND 3 = (y AND 3 :: byte)" for y
    using byte_and_3 [of y] by auto
  ultimately show "IS_DTLS ss \<Longrightarrow> ucast (record_header ss spec ! 0) AND 3 = cs_epoch spec AND 3"
    by (auto simp: record_header_def)
qed

definition wire_header :: "aead_token \<Rightarrow> sslSocket \<Rightarrow> ssl3CipherSpec \<Rightarrow> byte list \<Rightarrow> byte list result" where
  "wire_header tk ss spec cipherText =
     (if IS_DTLS ss then dtls13_MaskSequenceNumber tk spec (record_header ss spec) cipherText
      else Inr (record_header ss spec))"

lemma ssl_ProtectRecord_ok:
  assumes snd: "sender_ready w" and v: "ss_version ss \<ge> SSL_LIBRARY_VERSION_TLS_1_3" and tk: "aead_token_ok tk"
    and pIn: "unat contentLen = length pIn" "length pIn + 17 < 65536"
    and b: "sslBuffer_room b (length pIn + 22)" "sslBuffer_contents b = []"
    and enc: "tk_encrypt tk (cs_key w) (record_nonce w (cs_nextSeqNum w))
                (record_aad ss w (length pIn + 17)) 16 (pIn @ [ct]) = Inr (c, tag)"
    and mask: "wire_header tk ss w (c @ tag) = Inr mh"
  shows "\<exists>b' ctx. ssl_ProtectRecord h tk legacy ss w ct pIn contentLen b =
             (Inr b', w\<lparr>cs_ivContext := ctx, cs_nextSeqNum := cs_nextSeqNum w + 1\<rparr>) \<and>
           sslBuffer_inv b' \<and>
           sslBuffer_contents b' =
             mh @ (if short_header ss w then [] else be_bytes 2 (length pIn + 17)) @ c @ tag \<and>
           iv_ctx_ready ctx 12 32 CKG_GENERATE_COUNTER_XOR \<and> iv_counter ctx = cs_nextSeqNum w + 1"
proof -
  have sp: "aead_spec w" and lt: "\<not> cs_nextSeqNum w \<ge> bc_max_records (cs_cipherDef w)"
    using snd by (simp_all add: sender_ready_def not_le)
  have v13: "\<not> IS_DTLS_1_OR_12 ss" using v by (simp add: IS_DTLS_1_OR_12_def not_less)
  have wv: "cs_version w \<ge> SSL_LIBRARY_VERSION_TLS_1_3" using aead_specD(7) [OF sp] by simp
  have len: "length c = length pIn + 1" "length tag = 16"
    using tk enc unfolding aead_token_ok_def by fastforce+
  let ?hd = "record_header ss w"
  obtain b1 where b1: "ssl_InsertRecordHeader h ss w ct b = Inr (b1, \<not> short_header ss w)"
      "sslBuffer_room b1 (length pIn + 22 - length ?hd)" "unat (sb_len b1) = length ?hd"
      "sslBuffer_contents b1 = ?hd"
    using ssl_InsertRecordHeader_room [OF sp b(1), where h = h and ss = ss and ct = ct] b
      length_sslBuffer_contents [of b] by (auto simp: sslBuffer_room_def)
  have "\<exists>b2 off gap. (if \<not> short_header ss w
        then res_bind (sslBuffer_Skip h b1 2) (\<lambda>(b, lenOffset). Inr (b, Some lenOffset))
        else Inr (b1, None)) = Inr (b2, off) \<and> sslBuffer_room b2 (length pIn + 17) \<and>
      sslBuffer_contents b2 = ?hd @ gap \<and>
      (if short_header ss w then gap = [] \<and> off = None else length gap = 2 \<and> off = Some (sb_len b1))"
  proof (cases "short_header ss w")
    case True
    then show ?thesis
      using b1(4) sslBuffer_room_mono [OF b1(2), of "length pIn + 17"] record_header_shape(4) [of ss w] by auto
  next
    case False
    have n: "unat (2 :: u32) \<le> length pIn + 22 - length ?hd" using record_header_shape(3) [OF False] by simp
    from sslBuffer_Skip_room [OF b1(2) n, of h] False record_header_shape(3) [OF False] b1(4)
      sslBuffer_room_mono [of _ "length pIn + 22 - length ?hd - unat (2 :: u32)" "length pIn + 17"]
    show ?thesis by auto
  qed
  then obtain b2 off gap where b2: "(if \<not> short_header ss w
        then res_bind (sslBuffer_Skip h b1 2) (\<lambda>(b, lenOffset). Inr (b, Some lenOffset))
        else Inr (b1, None)) = Inr (b2, off)" "sslBuffer_room b2 (length pIn + 17)"
      "sslBuffer_contents b2 = ?hd @ gap"
      "if short_header ss w then gap = [] \<and> off = None else length gap = 2 \<and> off = Some (sb_len b1)"
    by blast
  obtain b3 ctx where b3: "tls13_ProtectRecord h tk ss w ct pIn contentLen b2 = (Inr b3, w\<lparr>cs_ivContext := ctx\<rparr>)"
      "sslBuffer_inv b3" "sslBuffer_contents b3 = ?hd @ gap @ c @ tag"
      "iv_ctx_ready ctx 12 32 CKG_GENERATE_COUNTER_XOR" "iv_counter ctx = cs_nextSeqNum w + 1"
    using tls13_ProtectRecord_ok [OF snd v13 tk pIn b2(2) enc, of h] b2(3) by auto
  have l2: "unat (sb_len b2) = length (?hd @ gap)"
    using length_sslBuffer_contents [of b2] b2(2,3) by (simp add: sslBuffer_room_def)
  have l3: "unat (sb_len b3) = length (?hd @ gap @ c @ tag)"
    using length_sslBuffer_contents [OF b3(2)] b3(3) by simp
  have sbit: "3 \<le> length ?hd" if "IS_DTLS ss" "?hd ! 0 AND 8 \<noteq> 0"
    using record_header_shape(2) [OF that(1), of w] record_header_shape(3) [of ss w] that(2) by simp
  have m: "dtls13_MaskSequenceNumber tk w ?hd (c @ tag) = Inr mh" if "IS_DTLS ss"
    using mask that by (simp add: wire_header_def)
  have lm: "length mh = length ?hd"
  proof (cases "IS_DTLS ss")
    case True
    show ?thesis
      by (rule dtls13_MaskSequenceNumber_append(2) [OF m [OF True] record_header_shape(1)]) (rule sbit [OF True])
  next
    case False
    then show ?thesis using mask by (simp add: wire_header_def)
  qed
  have "\<exists>b4. (if IS_DTLS ss
        then res_bind (dtls13_MaskSequenceNumber tk (w\<lparr>cs_ivContext := ctx\<rparr>)
                 (take (unat (sb_len b2)) (sslBuffer_contents b3)) (drop (unat (sb_len b2)) (sslBuffer_contents b3)))
               (sslBuffer_put b3 0)
        else Inr b3) = Inr b4 \<and> sslBuffer_inv b4 \<and> sslBuffer_contents b4 = mh @ gap @ c @ tag"
  proof (cases "IS_DTLS ss")
    case True
    have "dtls13_MaskSequenceNumber tk (w\<lparr>cs_ivContext := ctx\<rparr>) (?hd @ gap) (c @ tag) = Inr (mh @ gap)"
      unfolding dtls13_MaskSequenceNumber_ivContext
      by (rule dtls13_MaskSequenceNumber_append(1) [OF m [OF True] record_header_shape(1)]) (rule sbit [OF True])
    then show ?thesis
      using True sslBuffer_put_inside [OF b3(2), of 0 "mh @ gap"] l3 lm by (auto simp: b3(3) l2)
  next
    case False
    then show ?thesis using b3 mask by (simp add: wire_header_def)
  qed
  then obtain b4 where b4: "(if IS_DTLS ss
        then res_bind (dtls13_MaskSequenceNumber tk (w\<lparr>cs_ivContext := ctx\<rparr>)
                 (take (unat (sb_len b2)) (sslBuffer_contents b3)) (drop (unat (sb_len b2)) (sslBuffer_contents b3)))
               (sslBuffer_put b3 0)
        else Inr b3) = Inr b4" "sslBuffer_inv b4" "sslBuffer_contents b4 = mh @ gap @ c @ tag"
    by blast
  have "\<exists>b5. (case off of None \<Rightarrow> Inr b4 | Some at \<Rightarrow> sslBuffer_InsertLength b4 at 2) = Inr b5 \<and>
      sslBuffer_inv b5 \<and>
      sslBuffer_contents b5 = mh @ (if short_header ss w then [] else be_bytes 2 (length pIn + 17)) @ c @ tag"
  proof (cases "short_header ss w")
    case True
    then show ?thesis using b2(4) b4 by simp
  next
    case False
    then show ?thesis
      using sslBuffer_InsertLength_ok [OF b4(2) _ b4(3), of 2 "sb_len b1"] b2(4) lm b1(3) len pIn
      by (auto simp: add.commute [of 17])
  qed
  then obtain b5 where b5: "(case off of None \<Rightarrow> Inr b4 | Some at \<Rightarrow> sslBuffer_InsertLength b4 at 2) = Inr b5"
      "sslBuffer_inv b5"
      "sslBuffer_contents b5 = mh @ (if short_header ss w then [] else be_bytes 2 (length pIn + 17)) @ c @ tag"
    by blast
  have "ssl_ProtectRecord h tk legacy ss w ct pIn contentLen b =
      (Inr b5, w\<lparr>cs_ivContext := ctx, cs_nextSeqNum := cs_nextSeqNum w + 1\<rparr>)"
    unfolding ssl_ProtectRecord_def if_not_P [OF lt] b1(1) res_bind_simps prod.case b2(1) sum.case
      Let_def if_P [OF wv] b3(1) b4(1) b5(1) by simp
  then show ?thesis using b5 b3 by blast
qed

section \<open>From the sender to the receiver\<close>

definition aead_token_works :: "aead_token \<Rightarrow> bool" where
  "aead_token_works tk \<longleftrightarrow> aead_token_ok tk \<and>
     (\<forall>key iv aad n pt. \<exists>r. tk_encrypt tk key iv aad n pt = Inr r) \<and>
     (\<forall>key ct n. \<exists>m. tk_mask tk key ct n = Inr m)"

definition receiver_expects :: "sslSocket \<Rightarrow> ssl3CipherSpec \<Rightarrow> u64 \<Rightarrow> nat \<Rightarrow> bool" where
  "receiver_expects ss r seqNum k \<longleftrightarrow>
     unat (cs_recordSizeLimit r) \<le> 16385 \<and>
     (if IS_DTLS ss
      then unat (cs_nextSeqNum r) < 2 ^ 48 \<and> unat (cs_nextSeqNum r) < unat seqNum + 2 ^ (k - 1) \<and>
           unat seqNum \<le> unat (cs_nextSeqNum r) + 2 ^ (k - 1) \<and>
           recvd_inv (cs_recvdRecords r) \<and> dtls_RecordGetRecvd (cs_recvdRecords r) seqNum = 0
      else cs_nextSeqNum r = seqNum)"

lemma record_header_seq:
  assumes "IS_DTLS ss"
  shows "(hd0 = record_header ss w @ rest) \<Longrightarrow>
    (hd0 ! 0 AND 8 \<noteq> 0 \<and> (if short_header ss w then 8 else 16) = (16 :: nat) \<and>
       hd0 ! 1 = ucast (drop_bit 8 (cs_nextSeqNum w)) \<and> hd0 ! 2 = ucast (cs_nextSeqNum w)) \<or>
    (hd0 ! 0 AND 8 = 0 \<and> (if short_header ss w then 8 else 16) = (8 :: nat) \<and> hd0 ! 1 = ucast (cs_nextSeqNum w))"
  using record_header_shape(2) [OF assms, of w] assms
  by (cases "short_header ss w") (auto simp: record_header_def)

lemma not_long_header:
  assumes "aead_spec w" "IS_DTLS ss"
  shows "\<not> dtls_IsLongHeader (cs_version w) (record_header ss w ! 0)"
proof -
  have "record_header ss w ! 0 \<noteq> b" if "b AND 0xe0 \<noteq> 0x20" for b
    using record_header_shape(6) [OF assms(2), of w] that by auto
  then show ?thesis using aead_specD(7) [OF assms(1)] by (simp add: dtls_IsLongHeader_def)
qed

lemma wire_header_shape:
  assumes "wire_header tk ss w cipherText = Inr mh"
  shows "length mh = length (record_header ss w)"
    and "IS_DTLS ss \<Longrightarrow>
      dtls13_MaskSequenceNumber tk w (mh @ rest) cipherText = Inr (record_header ss w @ rest)"
proof -
  let ?hd = "record_header ss w"
  have sbit: "3 \<le> length ?hd" if "IS_DTLS ss" "?hd ! 0 AND 8 \<noteq> 0"
    using record_header_shape(2) [OF that(1), of w] record_header_shape(3) [of ss w] that(2) by simp
  have m: "dtls13_MaskSequenceNumber tk w ?hd cipherText = Inr mh" if "IS_DTLS ss"
    using assms that by (simp add: wire_header_def)
  have mh: "length mh = length ?hd" "mh ! 0 = ?hd ! 0" if "IS_DTLS ss"
  proof -
    show "length mh = length ?hd"
      by (rule dtls13_MaskSequenceNumber_append(2) [OF m [OF that] record_header_shape(1)]) (rule sbit [OF that])
    show "mh ! 0 = ?hd ! 0"
      by (rule dtls13_MaskSequenceNumber_append(3) [OF m [OF that] record_header_shape(1)]) (rule sbit [OF that])
  qed
  then show "length mh = length ?hd"
    using assms by (cases "IS_DTLS ss") (simp_all add: wire_header_def)
  assume d: "IS_DTLS ss"
  have "dtls13_MaskSequenceNumber tk w mh cipherText = Inr ?hd"
    by (rule dtls13_MaskSequenceNumber_involution [OF m [OF d] record_header_shape(1)]) (rule sbit [OF d])
  then show "dtls13_MaskSequenceNumber tk w (mh @ rest) cipherText = Inr (?hd @ rest)"
    by (rule dtls13_MaskSequenceNumber_append(1)) (use mh [OF d] record_header_shape(1) sbit d in auto)
qed

lemma recvd_inv_rel: "recvd_inv r \<Longrightarrow> \<exists>S. recvd_rel r S"
  by (rule exI [of _ "{s. unat (rr_left r) \<le> s \<and> s \<le> unat (rr_right r) \<and> ring_bit (rr_data r) s}"])
    (auto simp: recvd_rel_def)

lemma ssl3_HandleRecord_open_ok:
  assumes w: "sender_ready w" and pr: "spec_peers w r" and v: "ss_version ss \<ge> SSL_LIBRARY_VERSION_TLS_1_3"
    and ss': "IS_DTLS ss' = IS_DTLS ss" and tk: "aead_token_ok tk"
    and enc: "tk_encrypt tk (cs_key w) (record_nonce w (cs_nextSeqNum w))
                (record_aad ss' w (length pIn + 17)) 16 (pIn @ [ct]) = Inr (c, tag)"
    and mask: "wire_header tk ss' w (c @ tag) = Inr mh"
    and fits: "length pIn \<le> unat (cs_recordSizeLimit w)" and ct: "ct \<noteq> 0"
    and nonempty: "pIn \<noteq> [] \<or> ct \<noteq> ssl_ct_alert \<and> ct \<noteq> ssl_ct_handshake"
    and exp: "receiver_expects ss r (cs_nextSeqNum w) (if short_header ss' w then 8 else 16)"
    and hdr: "hdr = mh @ (if short_header ss' w then [] else be_bytes 2 (length pIn + 17)) @ pad"
      "unat n = length mh + (if short_header ss' w then 0 else 2)"
  shows "\<exists>r'. ssl3_HandleRecord_open h tk legacy ss r \<lparr>ct_hdr = hdr, ct_hdrLen = n, ct_buf = c @ tag\<rparr> =
           Some (RecordContent ct (cs_nextSeqNum w) pIn, ss, r')"
proof -
  have sp: "aead_spec w" and lt: "cs_nextSeqNum w < bc_max_records (cs_cipherDef w)"
    using w by (simp_all add: sender_ready_def)
  let ?hd = "record_header ss' w" and ?tl = "(if short_header ss' w then [] else be_bytes 2 (length pIn + 17)) @ pad"
  let ?ct = "\<lparr>ct_hdr = ?hd @ ?tl, ct_hdrLen = n, ct_buf = c @ tag\<rparr>"
  have len: "length c = length pIn + 1" "length tag = 16"
    using tk enc unfolding aead_token_ok_def by fastforce+
  have peer: "dtls13_MaskSequenceNumber tk r = dtls13_MaskSequenceNumber tk w"
    using pr by (simp add: fun_eq_iff dtls13_MaskSequenceNumber_def spec_peers_def)
  have front: "record_number tk ss r \<lparr>ct_hdr = hdr, ct_hdrLen = n, ct_buf = c @ tag\<rparr> =
      Inr (?hd @ ?tl, Some (cs_nextSeqNum w))"
  proof (cases "IS_DTLS ss")
    case True
    have nl: "\<not> dtls_IsLongHeader (cs_version w) ((?hd @ ?tl) ! 0)"
      using not_long_header [OF sp, of ss'] True ss' record_header_shape(1) [of ss' w]
      by (cases ?hd) simp_all
    have "dtls_ReadSequenceNumber (cs_version w) (cs_nextSeqNum r) (?hd @ ?tl) = Inr (cs_nextSeqNum w)"
      by (rule dtls_ReadSequenceNumber_short [OF nl _ _ _ record_header_seq [OF _ refl]])
        (use exp True ss' in \<open>auto simp: receiver_expects_def\<close>)
    then have "dtls_IsRelevant r (?hd @ ?tl) = Inr (Some (cs_nextSeqNum w))"
      using exp True pr by (simp add: dtls_IsRelevant_def receiver_expects_def spec_peers_def)
    then show ?thesis
      using wire_header_shape(2) [OF mask, of ?tl] True ss' by (simp add: record_number_def peer hdr)
  next
    case False
    then show ?thesis using exp mask ss' hdr by (simp add: record_number_def receiver_expects_def wire_header_def)
  qed
  have aad: "?hd @ ?tl = record_aad ss' w (length pIn + 17) @ pad"
      "unat n = length (record_aad ss' w (length pIn + 17))"
    using hdr(2) wire_header_shape(1) [OF mask] by (simp_all add: record_aad_def)
  have unp: "record_unprotect h tk legacy ss r ?ct (cs_nextSeqNum w) = (Inr (pIn, ct), r)"
    using tls13_UnprotectRecord_ok [OF sp pr v ss' tk enc fits ct nonempty aad] aead_specD [OF sp] pr
    by (simp add: record_unprotect_def spec_peers_def)
  have size: "\<not> length (c @ tag) > unat (cs_recordSizeLimit r + 256)"
    using exp fits pr len by (auto simp: receiver_expects_def spec_peers_def unat_plus_no_wrap)
  have max: "\<not> cs_nextSeqNum w \<ge> bc_max_records (cs_cipherDef r)"
    using lt pr by (simp add: spec_peers_def not_le)
  have mark: "\<exists>rr. dtls_RecordSetRecvd (cs_recvdRecords r) (cs_nextSeqNum w) = Some rr" if "IS_DTLS ss"
  proof -
    have "cs_nextSeqNum w \<le> RECORD_SEQ_MAX" using lt aead_specD(5) [OF sp] by simp
    moreover have "\<exists>S. recvd_rel (cs_recvdRecords r) S"
      using exp that by (intro recvd_inv_rel) (simp add: receiver_expects_def)
    ultimately show ?thesis using dtls_filter.mark_ok by blast
  qed
  show ?thesis
    unfolding ssl3_HandleRecord_open_def SSL3Ciphertext.simps front sum.case prod.case option.case Let_def
      if_P [OF v] if_not_P [OF max] if_not_P [OF size] unp
    using mark by auto
qed

section \<open>Replays\<close>

text \<open>The sequence numbers under which a stream of datagrams is accepted with one cipher spec.\<close>

fun dtls_accepted ::
    "nspr \<Rightarrow> aead_token \<Rightarrow>
     (ssl3CipherSpec \<Rightarrow> SSL3Ciphertext \<Rightarrow> u64 \<Rightarrow>
        ((SSL3AlertDescription \<times> sec_error) + (byte list \<times> byte)) \<times> ssl3CipherSpec) \<Rightarrow>
     sslSocket \<Rightarrow> ssl3CipherSpec \<Rightarrow> SSL3Ciphertext list \<Rightarrow> u64 list option" where
  "dtls_accepted h tk legacy ss spec [] = Some []"
| "dtls_accepted h tk legacy ss spec (c # cs) =
     (case ssl3_HandleRecord_open h tk legacy ss spec c of
        None \<Rightarrow> None
      | Some (out, ss', spec') \<Rightarrow>
          map_option (\<lambda>seqs. case out of RecordContent _ seqNum _ \<Rightarrow> seqNum # seqs | _ \<Rightarrow> seqs)
            (dtls_accepted h tk legacy ss' spec' cs))"

definition keeps_window ::
    "(ssl3CipherSpec \<Rightarrow> SSL3Ciphertext \<Rightarrow> u64 \<Rightarrow> 'a \<times> ssl3CipherSpec) \<Rightarrow> bool" where
  "keeps_window f \<longleftrightarrow>
     (\<forall>spec c s. cs_recvdRecords (snd (f spec c s)) = cs_recvdRecords spec \<and>
                 cs_cipherDef (snd (f spec c s)) = cs_cipherDef spec)"

lemma keeps_window_tls13: "keeps_window (tls13_UnprotectRecord h tk ss)"
  by (auto simp: keeps_window_def tls13_UnprotectRecord_def tls13_inner_checks_def Let_def
      split: sum.splits)

lemma keeps_window_record_unprotect:
  "keeps_window legacy \<Longrightarrow> keeps_window (record_unprotect h tk legacy ss)"
  using keeps_window_tls13 [of h tk ss] by (simp add: keeps_window_def record_unprotect_def Let_def)

lemma record_error_dtls:
  "record_error ss spec c alert err = (out, ss') \<Longrightarrow>
     IS_DTLS ss' = IS_DTLS ss \<and> (\<forall>t s p. out \<noteq> RecordContent t s p)"
  by (auto simp: record_error_def Let_def split: if_splits)

lemma ssl3_HandleRecord_open_window:
  assumes d: "IS_DTLS ss" and rel: "recvd_rel (cs_recvdRecords spec) S"
    and max: "bc_max_records (cs_cipherDef spec) \<le> RECORD_SEQ_MAX" and keep: "keeps_window legacy"
  obtains out ss' spec' where "ssl3_HandleRecord_open h tk legacy ss spec c = Some (out, ss', spec')"
    "IS_DTLS ss'" "cs_cipherDef spec' = cs_cipherDef spec"
    "case out of RecordContent t s p \<Rightarrow> unat s \<notin> S \<and> recvd_rel (cs_recvdRecords spec') (insert (unat s) S)
                | _ \<Rightarrow> recvd_rel (cs_recvdRecords spec') S"
proof -
  consider e where "record_number tk ss spec c = Inl e"
    | hdr where "record_number tk ss spec c = Inr (hdr, None)"
    | hdr s where "record_number tk ss spec c = Inr (hdr, Some s)"
    by (cases "record_number tk ss spec c"; auto; metis option.exhaust)
  then show ?thesis
  proof cases
    case 1
    show ?thesis
      by (rule that [of "RecordFailed None e" ss spec])
        (simp_all only: ssl3_HandleRecord_open_def 1 sum.case record_outcome.case d rel)
  next
    case 2
    show ?thesis
      by (rule that [of RecordDropped ss spec])
        (simp_all only: ssl3_HandleRecord_open_def 2 sum.case prod.case option.case record_outcome.case d rel)
  next
    case 3
    have fresh: "dtls_RecordGetRecvd (cs_recvdRecords spec) s = 0"
      using 3 d by (auto simp: record_number_def dtls_IsRelevant_def split: if_splits)
    then have notin: "unat s \<notin> S" using dtls_filter.marked_rejected [OF rel] by blast
    let ?c = "c\<lparr>ct_hdr := hdr\<rparr>"
    let ?lim = "cs_recordSizeLimit spec + (if ss_version ss \<ge> SSL_LIBRARY_VERSION_TLS_1_3 then 256 else 2048)"
    obtain res sp where up: "record_unprotect h tk legacy ss spec ?c s = (res, sp)" by fastforce
    have sp: "cs_recvdRecords sp = cs_recvdRecords spec" "cs_cipherDef sp = cs_cipherDef spec"
      using keeps_window_record_unprotect [OF keep, of h tk ss] up unfolding keeps_window_def
      by (metis snd_conv)+
    note unf = ssl3_HandleRecord_open_def 3 sum.case prod.case option.case Let_def up
    show ?thesis
    proof (cases "s \<ge> bc_max_records (cs_cipherDef spec)")
      case True
      show ?thesis
        by (rule that [of "RecordFailed None SSL_ERROR_TOO_MANY_RECORDS" ss spec])
          (simp_all add: unf True d rel)
    next
      case lt: False
      show ?thesis
      proof (cases "length (ct_buf ?c) > unat ?lim")
        case True
        show ?thesis by (rule that [of RecordDropped ss spec]) (use True lt d rel in \<open>simp_all add: unf\<close>)
      next
        case short: False
        show ?thesis
        proof (cases res)
          case (Inl ae)
          obtain alert err where ae: "ae = (alert, err)" by fastforce
          obtain out ss' where e: "record_error ss sp ?c alert err = (out, ss')" by fastforce
          note E = record_error_dtls [OF e]
          have "ssl3_HandleRecord_open h tk legacy ss spec c = Some (out, ss', sp)"
            using Inl lt short ae e by (simp add: unf)
          moreover have "case out of RecordContent t s p \<Rightarrow>
                unat s \<notin> S \<and> recvd_rel (cs_recvdRecords sp) (insert (unat s) S)
              | _ \<Rightarrow> recvd_rel (cs_recvdRecords sp) S"
            using E rel sp by (cases out) simp_all
          ultimately show ?thesis using that [of out ss' sp] E d sp by simp
        next
          case (Inr pr)
          obtain p t where pr: "pr = (p, t)" by fastforce
          have "s \<le> RECORD_SEQ_MAX" using lt max by simp
          from dtls_filter.mark_ok [OF rel this] obtain rr where
            rr: "dtls_RecordSetRecvd (cs_recvdRecords sp) s = Some rr" "recvd_rel rr (insert (unat s) S)"
            using sp by auto
          show ?thesis
            by (rule that [of "RecordContent t s p" ss
                  "sp\<lparr>cs_recvdRecords := rr, cs_nextSeqNum := max (cs_nextSeqNum sp) (s + 1)\<rparr>"])
              (use Inr pr rr lt short d sp notin in \<open>simp_all add: unf\<close>)
        qed
      qed
    qed
  qed
qed

lemma dtls_accepted_distinct:
  "IS_DTLS ss \<Longrightarrow> recvd_rel (cs_recvdRecords spec) S \<Longrightarrow>
   bc_max_records (cs_cipherDef spec) \<le> RECORD_SEQ_MAX \<Longrightarrow> keeps_window legacy \<Longrightarrow>
   \<exists>seqs. dtls_accepted h tk legacy ss spec cs = Some seqs \<and> distinct seqs \<and> unat ` set seqs \<inter> S = {}"
proof (induction cs arbitrary: ss spec S)
  case (Cons c cs)
  obtain out ss' spec' where o: "ssl3_HandleRecord_open h tk legacy ss spec c = Some (out, ss', spec')"
    "IS_DTLS ss'" "cs_cipherDef spec' = cs_cipherDef spec"
    "case out of RecordContent t s p \<Rightarrow> unat s \<notin> S \<and> recvd_rel (cs_recvdRecords spec') (insert (unat s) S)
                | _ \<Rightarrow> recvd_rel (cs_recvdRecords spec') S"
    by (rule ssl3_HandleRecord_open_window [OF Cons.prems])
  show ?case
  proof (cases "\<exists>t s p. out = RecordContent t s p")
    case True
    then obtain t s p where out: "out = RecordContent t s p" by blast
    then obtain seqs where "dtls_accepted h tk legacy ss' spec' cs = Some seqs" "distinct seqs"
        "unat ` set seqs \<inter> insert (unat s) S = {}"
      using Cons.IH [OF o(2), of spec' "insert (unat s) S"] o Cons.prems by auto
    then show ?thesis using o out by (auto simp: image_iff)
  next
    case False
    then have "recvd_rel (cs_recvdRecords spec') S" using o(4) by (cases out) auto
    then obtain seqs where "dtls_accepted h tk legacy ss' spec' cs = Some seqs" "distinct seqs"
        "unat ` set seqs \<inter> S = {}"
      using Cons.IH [OF o(2)] o(3) Cons.prems by force
    then show ?thesis using o False by (cases out) auto
  qed
qed simp

lemma wire_header_works:
  "aead_token_works tk \<Longrightarrow> 16 \<le> length ct \<Longrightarrow> \<exists>mh. wire_header tk ss w ct = Inr mh"
  unfolding aead_token_works_def wire_header_def dtls13_MaskSequenceNumber_def Let_def
  by (auto split: option.splits sum.splits) (metis Inl_Inr_False)

text \<open>
  C1: A record that the TLS 1.3 or DTLS 1.3 sender protects is opened by its peer: with a
  conforming token, matching cipher specs and a receiver within half a window of the sender, the
  bytes that ssl_ProtectRecord leaves in the write buffer, split by the receiver into header and
  body, come out of ssl3_HandleRecord's opening half as the same content, content type and sequence
  number.  The write side has advanced its sequence number and is ready for the next record.
\<close>

theorem tls13_record_roundtrip:
  assumes tk: "aead_token_works tk" and w: "sender_ready w" and pr: "spec_peers w r"
    and v: "ss_version sw \<ge> SSL_LIBRARY_VERSION_TLS_1_3" "ss_version sr \<ge> SSL_LIBRARY_VERSION_TLS_1_3"
    and d: "IS_DTLS sw = IS_DTLS sr"
    and len: "unat contentLen = length pIn" "length pIn \<le> unat (cs_recordSizeLimit w)"
    and b: "sslBuffer_room b (length pIn + 22)" "sslBuffer_contents b = []"
    and ct: "ct \<noteq> 0" and nonempty: "pIn \<noteq> [] \<or> ct \<noteq> ssl_ct_alert \<and> ct \<noteq> ssl_ct_handshake"
    and exp: "receiver_expects sr r (cs_nextSeqNum w) (if short_header sw w then 8 else 16)"
    and n: "n = (if short_header sw w then 2 else 5)"
  shows "\<exists>b' w' r'. ssl_ProtectRecord h tk legacyW sw w ct pIn contentLen b = (Inr b', w') \<and>
           ssl3_HandleRecord_open h tk legacyR sr r
             \<lparr>ct_hdr = take n (sslBuffer_contents b') @ pad, ct_hdrLen = of_nat n,
              ct_buf = drop n (sslBuffer_contents b')\<rparr> =
             Some (RecordContent ct (cs_nextSeqNum w) pIn, sr, r') \<and>
           cs_nextSeqNum w' = cs_nextSeqNum w + 1 \<and>
           (cs_nextSeqNum w' < bc_max_records (cs_cipherDef w) \<longrightarrow> sender_ready w')"
proof -
  have tok: "aead_token_ok tk" using tk by (simp add: aead_token_works_def)
  obtain c tag where enc: "tk_encrypt tk (cs_key w) (record_nonce w (cs_nextSeqNum w))
      (record_aad sw w (length pIn + 17)) 16 (pIn @ [ct]) = Inr (c, tag)"
    using tk unfolding aead_token_works_def by (metis prod.exhaust)
  obtain mh where mh: "wire_header tk sw w (c @ tag) = Inr mh"
    using wire_header_works [OF tk, of "c @ tag" sw w] tok enc unfolding aead_token_ok_def by fastforce
  have "length pIn + 17 < 65536"
    using len exp pr by (simp add: receiver_expects_def spec_peers_def)
  from ssl_ProtectRecord_ok [OF w v(1) tok len(1) this b enc mh]
  obtain b' ctx where b': "ssl_ProtectRecord h tk legacyW sw w ct pIn contentLen b =
      (Inr b', w\<lparr>cs_ivContext := ctx, cs_nextSeqNum := cs_nextSeqNum w + 1\<rparr>)"
    "sslBuffer_contents b' = (mh @ (if short_header sw w then [] else be_bytes 2 (length pIn + 17))) @ c @ tag"
    "iv_ctx_ready ctx 12 32 CKG_GENERATE_COUNTER_XOR" "iv_counter ctx = cs_nextSeqNum w + 1"
    unfolding append_assoc by blast
  have l: "length mh + (if short_header sw w then 0 else 2) = n"
    using wire_header_shape(1) [OF mh] n by (simp add: record_header_def short_header_def)
  have r: "\<exists>r'. ssl3_HandleRecord_open h tk legacyR sr r
      \<lparr>ct_hdr = mh @ (if short_header sw w then [] else be_bytes 2 (length pIn + 17)) @ pad,
       ct_hdrLen = of_nat n, ct_buf = c @ tag\<rparr> = Some (RecordContent ct (cs_nextSeqNum w) pIn, sr, r')"
    by (rule ssl3_HandleRecord_open_ok [OF w pr v(2) d tok enc mh len(2) ct nonempty exp refl])
      (use l n in \<open>simp split: if_splits\<close>)
  have "take n (sslBuffer_contents b') @ pad = mh @ (if short_header sw w then [] else be_bytes 2 (length pIn + 17)) @ pad"
    "drop n (sslBuffer_contents b') = c @ tag"
    using l unfolding b'(2) by (auto split: if_splits)
  with r obtain r' where "ssl3_HandleRecord_open h tk legacyR sr r
      \<lparr>ct_hdr = take n (sslBuffer_contents b') @ pad, ct_hdrLen = of_nat n,
       ct_buf = drop n (sslBuffer_contents b')\<rparr> = Some (RecordContent ct (cs_nextSeqNum w) pIn, sr, r')"
    by metis
  moreover have "sender_ready (w\<lparr>cs_ivContext := ctx, cs_nextSeqNum := cs_nextSeqNum w + 1\<rparr>)"
    if "cs_nextSeqNum w + 1 < bc_max_records (cs_cipherDef w)"
    using w b' that by (simp add: sender_ready_def aead_spec_def)
  ultimately show ?thesis using b'(1) by simp
qed

text \<open>
  C2: A DTLS receiver never accepts two records with the same sequence number under one cipher
  spec, whatever datagrams arrive, in whatever order, and whatever the token answers.  None of the
  numbers already in the replay window is accepted again.
\<close>

theorem dtls_records_accepted_once:
  assumes "IS_DTLS ss" and "recvd_rel (cs_recvdRecords spec) S"
    and "bc_max_records (cs_cipherDef spec) \<le> RECORD_SEQ_MAX" and "keeps_window legacy"
  shows "\<exists>seqs. dtls_accepted h tk legacy ss spec cs = Some seqs \<and> distinct seqs \<and>
           unat ` set seqs \<inter> S = {}"
  by (rule dtls_accepted_distinct [OF assms])

section \<open>Witnesses\<close>

text \<open>
  A token whose ciphertext is the plaintext, two DTLS 1.3 sockets with short headers, and an
  AES-128-GCM cipher spec in the application epoch.
\<close>

definition plain_token :: aead_token where
  "plain_token =
     \<lparr>tk_encrypt = (\<lambda>key iv aad n pt. Inr (pt, replicate n 0)),
      tk_decrypt = (\<lambda>key iv aad tag ct. Inr ct),
      tk_mask = (\<lambda>key ct n. Inr (replicate n 0x55)),
      tk_random = (\<lambda>n. Inr (replicate n 7))\<rparr>"

definition dtls13_socket :: sslSocket where
  "dtls13_socket =
     \<lparr>IS_DTLS = True, ss_version = SSL_LIBRARY_VERSION_TLS_1_3, ss_isServer = True,
      ss_enableDtlsShortHeader = True, ss_zeroRttIgnore = ssl_0rtt_ignore_none,
      ss_zeroRttAccepted = False, ss_idleHandshake = True, ss_rejectCcs = False,
      ss_allowPreviousEpoch = False, ss_firstHsDone = True, ss_fatalAlertSent = False,
      ss_tokenPresent = True\<rparr>"

definition gcm_spec :: ssl3CipherSpec where
  "gcm_spec =
     \<lparr>cs_version = SSL_LIBRARY_VERSION_TLS_1_3, cs_recordVersion = SSL_LIBRARY_VERSION_TLS_1_2,
      cs_cipherDef = ssl3BulkCipherDef.make cipher_aes_128_gcm ssl_calg_aes_gcm 16 16 type_aead 4 0 16 8 MR_128,
      cs_key = replicate 16 1, cs_ivContext = gcm_InitIVContext, cs_iv = replicate 24 9,
      cs_epoch = 3, cs_nextSeqNum = 0, cs_recvdRecords = dtls_InitRecvdRecords,
      cs_earlyDataRemaining = 0, cs_recordSizeLimit = 16385, cs_maskContext = Some [1, 2],
      cs_deprotectionFailures = 0\<rparr>"

lemma plain_token_works: "aead_token_works plain_token"
  by (simp add: aead_token_works_def aead_token_ok_def plain_token_def)

lemma gcm_spec_ready: "sender_ready gcm_spec"
  by (simp add: sender_ready_def aead_spec_def gcm_spec_def ssl_bulk_cipher_defs_def MAX_IV_LENGTH_def
      iv_ctx_ready_def gcm_InitIVContext_def ssl3BulkCipherDef.make_def)

theorem tls13_record_roundtrip_witness:
  "\<exists>b' w' r'. ssl_ProtectRecord zero_nspr plain_token (\<lambda>spec ct pIn n b. (Inl SEC_ERROR_LIBRARY_FAILURE, spec))
       dtls13_socket gcm_spec 23 [104, 105] 2
       \<lparr>sb_buf = Some (replicate 64 0), sb_len = 0, sb_space = 64, sb_fixed = True\<rparr> = (Inr b', w') \<and>
     ssl3_HandleRecord_open zero_nspr plain_token (\<lambda>spec c s. (Inl (bad_record_mac, SSL_ERROR_BAD_MAC_READ), spec))
       dtls13_socket gcm_spec
       \<lparr>ct_hdr = take 2 (sslBuffer_contents b') @ replicate 11 0, ct_hdrLen = of_nat 2,
        ct_buf = drop 2 (sslBuffer_contents b')\<rparr> =
       Some (RecordContent 23 0 [104, 105], dtls13_socket, r') \<and>
     cs_nextSeqNum w' = 1"
proof -
  let ?b = "\<lparr>sb_buf = Some (replicate 64 0), sb_len = 0, sb_space = 64, sb_fixed = True\<rparr>"
  have s: "short_header dtls13_socket gcm_spec"
    by (simp add: short_header_def dtls13_socket_def gcm_spec_def)
  have n: "2 = (if short_header dtls13_socket gcm_spec then 2 else (5::nat))" using s by simp
  have b: "sslBuffer_room ?b (length [104, 105 :: byte] + 22)" "sslBuffer_contents ?b = []"
    by (simp_all add: sslBuffer_room_def sslBuffer_inv_def sslBuffer_contents_def)
  have exp: "receiver_expects dtls13_socket gcm_spec (cs_nextSeqNum gcm_spec)
      (if short_header dtls13_socket gcm_spec then 8 else 16)"
    using recvd_rel_init dtls_filter.seen_iff [OF recvd_rel_init, of 0] s
    by (simp add: receiver_expects_def gcm_spec_def recvd_rel_def dtls13_socket_def
        dtls_InitRecvdRecords_def DTLS_RECVD_RECORDS_WINDOW_def)
  have rest: "spec_peers gcm_spec gcm_spec" "ss_version dtls13_socket \<ge> SSL_LIBRARY_VERSION_TLS_1_3"
    "unat (2 :: u32) = length [104, 105 :: byte]" "length [104, 105 :: byte] \<le> unat (cs_recordSizeLimit gcm_spec)"
    by (simp_all add: spec_peers_def dtls13_socket_def gcm_spec_def)
  have seq: "cs_nextSeqNum gcm_spec = 0" by (simp add: gcm_spec_def)
  show ?thesis
    using tls13_record_roundtrip [OF plain_token_works gcm_spec_ready rest(1) rest(2) rest(2) refl rest(3) rest(4)
        b _ _ exp n, of 23] unfolding seq by (simp; blast)
qed

theorem dtls_records_accepted_once_witness:
  "let rec = \<lparr>ct_hdr = [0x23, 0x55] @ replicate 11 0, ct_hdrLen = 2,
              ct_buf = [104, 105, 23] @ replicate 16 0\<rparr> in
   \<exists>seqs. dtls_accepted zero_nspr plain_token
            (\<lambda>spec c s. (Inl (bad_record_mac, SSL_ERROR_BAD_MAC_READ), spec)) dtls13_socket gcm_spec
            [rec, rec] = Some seqs \<and> distinct seqs \<and> seqs = [0]"
proof -
  have "keeps_window (\<lambda>spec c s. (Inl (bad_record_mac, SSL_ERROR_BAD_MAC_READ), spec))"
    "IS_DTLS dtls13_socket" "bc_max_records (cs_cipherDef gcm_spec) \<le> RECORD_SEQ_MAX"
    "recvd_rel (cs_recvdRecords gcm_spec) {}"
    using recvd_rel_init by (simp_all add: keeps_window_def dtls13_socket_def gcm_spec_def
      ssl3BulkCipherDef.make_def RECORD_SEQ_MAX_def)
  note once = dtls_records_accepted_once [OF this(2,4,3,1)]
  have "dtls_accepted zero_nspr plain_token
      (\<lambda>spec c s. (Inl (bad_record_mac, SSL_ERROR_BAD_MAC_READ), spec)) dtls13_socket gcm_spec
      (replicate 2 \<lparr>ct_hdr = [0x23, 0x55] @ replicate 11 0, ct_hdrLen = 2,
         ct_buf = [104, 105, 23] @ replicate 16 0\<rparr>) = Some [0]"
    by code_simp
  then show ?thesis using once unfolding Let_def numeral_2_eq_2 replicate_Suc replicate_0 by fastforce
qed

end
