(* ===== verification/Base64_Encode.thy ===== *)
theory Base64_Encode
  imports Sec_Item
begin

text \<open>
  \<^verbatim>\<open>lib/util/nssb64e.c\<close>: Base64 encoding, streaming to a callback and into a buffer.
\<close>

section \<open>The encoder\<close>

text \<open>
  The output function and its argument are one field, absent when the function pointer is null. The
  callback maps its argument's state and the bytes to a new state and the number it returns. The
  output pointer of the C code always is the output buffer plus \<open>output_length\<close>.
\<close>

type_synonym 's output_fn = "'s \<Rightarrow> byte list \<Rightarrow> 's \<times> int"

record 's PLBase64Encoder =
  en_in_buffer :: "byte list"
  en_in_buffer_count :: nat
  en_line_length :: u32
  en_current_column :: u32
  en_output :: "('s output_fn \<times> 's) option"
  en_output_buffer :: "byte list option"
  en_output_buflen :: u32
  en_output_length :: u32

definition sizeof_PLBase64Encoder :: nat where
  "sizeof_PLBase64Encoder = 48"

definition base64_valuetocode :: "byte list" where
  "base64_valuetocode =
     map of_char ''ABCDEFGHIJKLMNOPQRSTUVWXYZabcdefghijklmnopqrstuvwxyz0123456789+/''"

definition B64_PAD :: byte where
  "B64_PAD = of_char (CHR ''='')"

definition B64_CR :: byte where
  "B64_CR = 13"

definition B64_LF :: byte where
  "B64_LF = 10"

text \<open>Writing at the output pointer, and reading what has been written.\<close>

definition encode_put :: "'s PLBase64Encoder \<Rightarrow> byte list \<Rightarrow> 's PLBase64Encoder result" where
  "encode_put data bs =
     (case en_output_buffer data of
        None \<Rightarrow> Inl UNDEFINED_BEHAVIOUR
      | Some m \<Rightarrow>
          res_bind (mem_write m (unat (en_output_length data)) bs) (\<lambda>m.
          Inr (data\<lparr>en_output_buffer := Some m,
                    en_output_length := en_output_length data + of_nat (length bs)\<rparr>)))"

definition encode_contents :: "'s PLBase64Encoder \<Rightarrow> byte list" where
  "encode_contents data =
     take (unat (en_output_length data)) (case en_output_buffer data of None \<Rightarrow> [] | Some m \<Rightarrow> m)"

definition encode_break :: "'s PLBase64Encoder \<Rightarrow> 's PLBase64Encoder result" where
  "encode_break data =
     (if en_line_length data > 0 \<and> en_current_column data \<ge> en_line_length data
      then encode_put (data\<lparr>en_current_column := 0\<rparr>) [B64_CR, B64_LF]
      else Inr data)"

definition token_chars :: "u32 \<Rightarrow> byte list" where
  "token_chars n = map (\<lambda>j. base64_valuetocode ! unat (drop_bit j n AND 0x3F)) [18, 12, 6, 0]"

definition encode_token :: "'s PLBase64Encoder \<Rightarrow> u32 \<Rightarrow> 's PLBase64Encoder result" where
  "encode_token data n =
     res_bind (encode_break data) (\<lambda>data.
     encode_put
       (if en_line_length data > 0
        then data\<lparr>en_current_column := en_current_column data + 4\<rparr> else data)
       (token_chars n))"

definition encode_drain :: "'s PLBase64Encoder \<Rightarrow> bool \<Rightarrow> unit result \<times> 's PLBase64Encoder" where
  "encode_drain data todo =
     (if en_output_length data \<ge> en_output_buflen data - 3
      then case en_output data of
             Some (output_fn, arg) \<Rightarrow>
               (case output_fn arg (encode_contents data) of (arg, output_result) \<Rightarrow>
                  if output_result < 0
                  then (Inl NO_ERROR_SET, data\<lparr>en_output := Some (output_fn, arg)\<rparr>)
                  else (Inr (), data\<lparr>en_output := Some (output_fn, arg), en_output_length := 0\<rparr>))
           | None \<Rightarrow> (if todo then Inl PR_BUFFER_OVERFLOW_ERROR else Inr (), data)
      else (Inr (), data))"

function encode_loop ::
    "'s PLBase64Encoder \<Rightarrow> byte list \<Rightarrow> nat \<Rightarrow> nat \<Rightarrow> nat \<Rightarrow> u32 \<Rightarrow> unit result \<times> 's PLBase64Encoder" where
  "encode_loop data inp stop p i n =
     (if p < stop then
        (case mem_read inp p (3 - i) of
           Inl e \<Rightarrow> (Inl e, data)
         | Inr bs \<Rightarrow>
             (case encode_token data (foldl (\<lambda>n b. push_bit 8 n OR ucast b) n bs) of
                Inl e \<Rightarrow> (Inl e, data)
              | Inr data \<Rightarrow>
                  (case encode_drain data (p + (3 - i) < stop) of
                     (Inl e, data) \<Rightarrow> (Inl e, data)
                   | (Inr _, data) \<Rightarrow> encode_loop data inp stop (p + (3 - i)) 0 0)))
      else (Inr (), data))"
  by pat_completeness auto
termination
  by (relation "measure (\<lambda>(data, inp, stop, p, i, n). 2 * (stop - p) + (if 3 \<le> i then 1 else 0))")
    auto

declare encode_loop.simps [simp del]

definition pl_base64_encode_buffer ::
    "'s PLBase64Encoder \<Rightarrow> byte list \<Rightarrow> u32 \<Rightarrow> unit result \<times> 's PLBase64Encoder" where
  "pl_base64_encode_buffer data inp size32 =
     (let i = en_in_buffer_count data in
      if size32 < of_nat (3 - i)
      then (case res_bind (mem_read inp 0 (if size32 > 1 then 2 else 1)) (mem_write (en_in_buffer data) i) of
              Inl e \<Rightarrow> (Inl e, data)
            | Inr b \<Rightarrow>
                (Inr (), data\<lparr>en_in_buffer := b,
                              en_in_buffer_count := i + (if size32 > 1 then 2 else 1)\<rparr>))
      else
        let n = (if i > 1 then push_bit 8 (ucast (en_in_buffer data ! 0)) OR ucast (en_in_buffer data ! 1)
                 else if i > 0 then ucast (en_in_buffer data ! 0) else 0);
            off = (size32 + of_nat i) mod 3
        in case (if off > 0
                 then res_bind (mem_read inp (unat (size32 - off)) (unat off)) (mem_write (en_in_buffer data) 0)
                 else Inr (en_in_buffer data)) of
             Inl e \<Rightarrow> (Inl e, data)
           | Inr b \<Rightarrow>
               encode_loop (data\<lparr>en_in_buffer := b, en_in_buffer_count := unat off\<rparr>)
                 inp (unat size32 - unat off) 0 i n)"

definition pl_base64_encode_flush :: "'s PLBase64Encoder \<Rightarrow> unit result \<times> 's PLBase64Encoder" where
  "pl_base64_encode_flush data =
     (let i = en_in_buffer_count data in
      if i = 0 \<and> en_output_length data = 0 then (Inr (), data)
      else
        case (if i > 0
              then
                let n = push_bit 16 (ucast (en_in_buffer data ! 0)) OR
                        (if i > 1 then push_bit 8 (ucast (en_in_buffer data ! 1)) else 0);
                    cs = token_chars n
                in res_bind (encode_break (data\<lparr>en_in_buffer_count := 0\<rparr>)) (\<lambda>data.
                   encode_put data ((if i = 1 then cs[2 := B64_PAD] else cs)[3 := B64_PAD]))
              else Inr data) of
          Inl e \<Rightarrow> (Inl e, data)
        | Inr data \<Rightarrow>
            (case en_output data of
               Some (output_fn, arg) \<Rightarrow>
                 (case output_fn arg (encode_contents data) of (arg, output_result) \<Rightarrow>
                    (if output_result < 0 then Inl NO_ERROR_SET else Inr (),
                     data\<lparr>en_output := Some (output_fn, arg), en_output_length := 0\<rparr>))
             | None \<Rightarrow> (Inr (), data)))"

definition PL_Base64MaxEncodedLength :: "u32 \<Rightarrow> u32 \<Rightarrow> u32" where
  "PL_Base64MaxEncodedLength size32 line_length =
     (if size32 > 0x3fffffff then 0
      else
        let tokens = (size32 + 2) div 3 in
        if line_length = 0 then tokens * 4
        else
          let line_length = (if line_length < 4 then 4 else line_length);
              tokens_per_line = line_length div 4;
              full_lines = tokens div tokens_per_line;
              remainder = (tokens - full_lines * tokens_per_line) * 4;
              line_break_chars = full_lines * 2;
              line_break_chars = (if remainder = 0 then line_break_chars - 2 else line_break_chars)
          in full_lines * tokens_per_line * 4 + line_break_chars + remainder)"

definition pl_base64_create_encoder ::
    "nspr \<Rightarrow> u32 \<Rightarrow> byte list option \<Rightarrow> u32 \<Rightarrow> 's PLBase64Encoder result" where
  "pl_base64_create_encoder h line_length output_buffer output_buflen =
     (case PR_Calloc h sizeof_PLBase64Encoder of
        None \<Rightarrow> Inl NO_ERROR_SET
      | Some _ \<Rightarrow>
          let line_length = (if line_length > 0 \<and> line_length < 4 then 4 else line_length);
              line_length = line_length div 4 * 4;
              output_buflen =
                (if output_buffer = None \<and> output_buflen = 0
                 then if line_length > 0 then line_length + 2 else 64
                 else output_buflen)
          in case (case output_buffer of None \<Rightarrow> PR_Malloc h (unat output_buflen) | b \<Rightarrow> b) of
               None \<Rightarrow> Inl NO_ERROR_SET
             | Some b \<Rightarrow>
                 Inr \<lparr>en_in_buffer = [0, 0], en_in_buffer_count = 0, en_line_length = line_length,
                      en_current_column = 0, en_output = None, en_output_buffer = Some b,
                      en_output_buflen = output_buflen, en_output_length = 0\<rparr>)"

definition PL_CreateBase64Encoder ::
    "nspr \<Rightarrow> ('s output_fn \<times> 's) option \<Rightarrow> u32 \<Rightarrow> 's PLBase64Encoder result" where
  "PL_CreateBase64Encoder h output line_length =
     (if output = None then Inl PR_INVALID_ARGUMENT_ERROR
      else res_bind (pl_base64_create_encoder h line_length None 0) (\<lambda>data.
           Inr (data\<lparr>en_output := output\<rparr>)))"

definition PL_UpdateBase64Encoder ::
    "'s PLBase64Encoder \<Rightarrow> byte list option \<Rightarrow> u32 \<Rightarrow> unit result \<times> 's PLBase64Encoder" where
  "PL_UpdateBase64Encoder data buffer size32 =
     (case buffer of
        None \<Rightarrow> (Inl PR_INVALID_ARGUMENT_ERROR, data)
      | Some b \<Rightarrow>
          if size32 = 0 then (Inl PR_INVALID_ARGUMENT_ERROR, data)
          else pl_base64_encode_buffer data b size32)"

definition PL_DestroyBase64Encoder ::
    "'s PLBase64Encoder \<Rightarrow> bool \<Rightarrow> unit result \<times> 's PLBase64Encoder" where
  "PL_DestroyBase64Encoder data abort_p =
     (if abort_p then (Inr (), data) else pl_base64_encode_flush data)"

text \<open>The result is the output buffer and what the function leaves in \<^verbatim>\<open>*output_destlen\<close>.\<close>

definition PL_Base64EncodeBuffer ::
    "nspr \<Rightarrow> byte list \<Rightarrow> u32 \<Rightarrow> u32 \<Rightarrow> byte list option \<Rightarrow> u32 \<Rightarrow> u32 \<Rightarrow> (byte list option \<times> u32) result" where
  "PL_Base64EncodeBuffer h src srclen line_length dest maxdestlen destlen =
     (if srclen = 0 then Inr (dest, destlen)
      else
        let need_length = PL_Base64MaxEncodedLength srclen line_length in
        if need_length = 0 then Inl SEC_ERROR_INVALID_ARGS
        else if dest \<noteq> None \<and> maxdestlen < need_length then Inl PR_BUFFER_OVERFLOW_ERROR
        else
          let maxdestlen = (if dest = None then need_length else maxdestlen) in
          res_bind (pl_base64_create_encoder h line_length dest maxdestlen) (\<lambda>data :: unit PLBase64Encoder.
          case pl_base64_encode_buffer data src srclen of
            (Inl e, data) \<Rightarrow> Inl e
          | (Inr _, data) \<Rightarrow>
              (case pl_base64_encode_flush data of
                 (Inl e, data) \<Rightarrow> Inl e
               | (Inr _, data) \<Rightarrow>
                   (case PL_DestroyBase64Encoder (data\<lparr>en_output_buffer := None\<rparr>) False of
                      (Inl e, _) \<Rightarrow> Inl e
                    | (Inr _, _) \<Rightarrow> Inr (en_output_buffer data, en_output_length data)))))"

section \<open>The NSS cover functions\<close>

definition NSSBase64Encoder_Create ::
    "nspr \<Rightarrow> ('s output_fn \<times> 's) option \<Rightarrow> 's PLBase64Encoder result" where
  "NSSBase64Encoder_Create h output =
     res_bind (PORT_ZAlloc h 8) (\<lambda>_. PL_CreateBase64Encoder h output 64)"

definition NSSBase64Encoder_Update ::
    "'s PLBase64Encoder option \<Rightarrow> byte list option \<Rightarrow> u32 \<Rightarrow> unit result \<times> 's PLBase64Encoder option" where
  "NSSBase64Encoder_Update data buffer size32 =
     (case data of
        None \<Rightarrow> (Inl SEC_ERROR_INVALID_ARGS, None)
      | Some data \<Rightarrow> map_prod id Some (PL_UpdateBase64Encoder data buffer size32))"

definition NSSBase64Encoder_Destroy ::
    "'s PLBase64Encoder option \<Rightarrow> bool \<Rightarrow> unit result \<times> 's PLBase64Encoder option" where
  "NSSBase64Encoder_Destroy data abort_p =
     (case data of
        None \<Rightarrow> (Inl SEC_ERROR_INVALID_ARGS, None)
      | Some data \<Rightarrow> map_prod id Some (PL_DestroyBase64Encoder data abort_p))"

text \<open>The string that is returned ends with a null byte at the encoded length.\<close>

definition NSSBase64_EncodeItem ::
    "nspr \<Rightarrow> bool \<Rightarrow> byte list option \<Rightarrow> u32 \<Rightarrow> SECItem option \<Rightarrow> byte list result" where
  "NSSBase64_EncodeItem h arenaOpt outStrOpt maxOutLen inItem =
     (case inItem of
        None \<Rightarrow> Inl SEC_ERROR_INVALID_ARGS
      | Some item \<Rightarrow>
          (case si_data item of
             None \<Rightarrow> Inl SEC_ERROR_INVALID_ARGS
           | Some src \<Rightarrow>
               if si_len item = 0 then Inl SEC_ERROR_INVALID_ARGS
               else
                 let max_out_len = PL_Base64MaxEncodedLength (si_len item) 64 in
                 if max_out_len = 0 then Inl SEC_ERROR_INVALID_ARGS
                 else
                   res_bind
                     (case outStrOpt of
                        None \<Rightarrow>
                          res_bind (item_alloc h arenaOpt (unat (max_out_len + 1))) (\<lambda>s. Inr (s, max_out_len))
                      | Some s \<Rightarrow>
                          if max_out_len + 1 > maxOutLen then Inl SEC_ERROR_OUTPUT_LEN
                          else Inr (s, maxOutLen)) (\<lambda>(out_string, max_out_len).
                   res_bind (mem_read src 0 (unat (si_len item))) (\<lambda>src.
                   res_bind (PL_Base64EncodeBuffer h src (si_len item) 64 (Some out_string) max_out_len 0)
                     (\<lambda>(out, out_len).
                   case out of
                     None \<Rightarrow> Inl NO_ERROR_SET
                   | Some s \<Rightarrow> mem_write s (unat out_len) [0])))))"

definition BTOA_DataToAscii :: "nspr \<Rightarrow> byte list option \<Rightarrow> u32 \<Rightarrow> byte list result" where
  "BTOA_DataToAscii h data len =
     NSSBase64_EncodeItem h False None 0 (Some \<lparr>si_type = siBuffer, si_data = data, si_len = len\<rparr>)"

definition BTOA_ConvertItemToAscii :: "nspr \<Rightarrow> SECItem option \<Rightarrow> byte list result" where
  "BTOA_ConvertItemToAscii h binary_item = NSSBase64_EncodeItem h False None 0 binary_item"


section \<open>The text of a byte string\<close>

text \<open>
  The reference: a group of three bytes is a 24-bit number and its four digits in base 64; a shorter
  last group is padded. A token that does not fit on the line of \<open>L\<close> characters goes to the next one.
\<close>

definition b64_digits :: "nat \<Rightarrow> byte list" where
  "b64_digits v = map (\<lambda>k. base64_valuetocode ! (v div 64 ^ k mod 64)) [3, 2, 1, 0]"

fun b64_tokens :: "byte list \<Rightarrow> byte list list" where
  "b64_tokens (a # b # c # bs) = b64_digits (be_value [a, b, c]) # b64_tokens bs"
| "b64_tokens [a, b] = [take 3 (b64_digits (be_value [a, b, 0])) @ [B64_PAD]]"
| "b64_tokens [a] = [take 2 (b64_digits (be_value [a, 0, 0])) @ [B64_PAD, B64_PAD]]"
| "b64_tokens [] = []"

fun b64_emit :: "nat \<Rightarrow> nat \<times> byte list \<Rightarrow> byte list \<Rightarrow> nat \<times> byte list" where
  "b64_emit L (col, out) t =
     (if L = 0 then (col, out @ t)
      else if L \<le> col then (4, out @ [B64_CR, B64_LF] @ t)
      else (col + 4, out @ t))"

definition b64_text :: "nat \<Rightarrow> byte list \<Rightarrow> byte list" where
  "b64_text L bs = snd (foldl (b64_emit L) (0, []) (b64_tokens bs))"

section \<open>Tokens\<close>

lemma foldl_or_be_value:
  "length (as @ bs) \<le> 3 \<Longrightarrow>
     foldl (\<lambda>n b. push_bit 8 n OR ucast b) (word_of_nat (be_value as) :: u32) bs =
       word_of_nat (be_value (as @ bs))"
proof (induction bs arbitrary: as)
  case (Cons b bs)
  have "be_value as < 256 ^ 2"
    using be_value_less [of as] Cons.prems power_increasing [of "length as" 2 "256 :: nat"] by simp
  then have u: "unat (word_of_nat (be_value as) :: u32) = be_value as"
    by (simp add: unat_of_nat take_bit_nat_eq_self)
  have "(push_bit 8 (word_of_nat (be_value as)) :: u32) AND ucast b = 0"
    by (rule bit_word_eqI) (auto simp: bit_simps dest: bit_imp_le_length)
  then have "push_bit 8 (word_of_nat (be_value as)) OR ucast b = (push_bit 8 (word_of_nat (be_value as)) + ucast b :: u32)"
    by (simp add: disjunctive_add_eq_or)
  also have "\<dots> = word_of_nat (be_value (as @ [b]))"
    by (simp add: push_bit_eq_mult)
  finally show ?case using Cons.IH [of "as @ [b]"] Cons.prems by simp
qed simp

lemma token_chars_digits: "v < 2 ^ 24 \<Longrightarrow> token_chars (word_of_nat v) = b64_digits v"
proof -
  assume v: "v < 2 ^ 24"
  have "unat (drop_bit j (word_of_nat v :: u32) AND 0x3F) = v div 2 ^ j mod 64" for j
    using unat_and_mask [of "drop_bit j (word_of_nat v :: u32)" 6] v
    by (simp add: mask_eq_exp_minus_1 unat_drop_bit_div unat_of_nat take_bit_nat_eq_self)
  then show ?thesis by (simp add: token_chars_def b64_digits_def)
qed

lemma length_b64_digits [simp]: "length (b64_digits v) = 4"
  by (simp add: b64_digits_def)

lemma length_b64_token: "t \<in> set (b64_tokens bs) \<Longrightarrow> length t = 4"
  by (induction bs rule: b64_tokens.induct) auto

lemma b64_tokens_append:
  "length as mod 3 = 0 \<Longrightarrow> b64_tokens (as @ bs) = b64_tokens as @ b64_tokens bs"
  by (induction as rule: b64_tokens.induct) auto

section \<open>Writing tokens\<close>

text \<open>
  \<open>enc_view\<close> is the text produced so far: what the callback has been given, then what is in the
  buffer. \<open>enc_same\<close> lists the fields that writing leaves alone.
\<close>

definition enc_view :: "('s \<Rightarrow> byte list) \<Rightarrow> 's PLBase64Encoder \<Rightarrow> byte list" where
  "enc_view view d = (case en_output d of None \<Rightarrow> [] | Some (f, s) \<Rightarrow> view s) @ encode_contents d"

definition enc_state :: "('s \<Rightarrow> byte list) \<Rightarrow> 's PLBase64Encoder \<Rightarrow> nat \<times> byte list" where
  "enc_state view d = (unat (en_current_column d), enc_view view d)"

definition enc_keeps :: "'s PLBase64Encoder \<Rightarrow> 's PLBase64Encoder \<Rightarrow> bool" where
  "enc_keeps d d' \<longleftrightarrow> en_line_length d' = en_line_length d \<and>
     map_option length (en_output_buffer d') = map_option length (en_output_buffer d)"

definition enc_same :: "'s PLBase64Encoder \<Rightarrow> 's PLBase64Encoder \<Rightarrow> bool" where
  "enc_same d d' \<longleftrightarrow> en_in_buffer d' = en_in_buffer d \<and> en_in_buffer_count d' = en_in_buffer_count d \<and>
     enc_keeps d d'"

definition enc_fits :: "'s PLBase64Encoder \<Rightarrow> bool" where
  "enc_fits d \<longleftrightarrow> (\<exists>m. en_output_buffer d = Some m \<and> unat (en_output_length d) \<le> length m)"

definition enc_wraps :: "'s PLBase64Encoder \<Rightarrow> bool" where
  "enc_wraps d \<longleftrightarrow> en_line_length d > 0 \<and> en_line_length d \<le> en_current_column d"

definition enc_room :: "'s PLBase64Encoder \<Rightarrow> bool" where
  "enc_room d \<longleftrightarrow> (\<exists>m. en_output_buffer d = Some m \<and> length m < 2 ^ 32 \<and>
     unat (en_output_length d) + (if enc_wraps d then 6 else 4) \<le> length m) \<and>
     4 dvd unat (en_line_length d) \<and> 4 dvd unat (en_current_column d)"

definition token_written :: "'s PLBase64Encoder \<Rightarrow> byte list \<Rightarrow> 's PLBase64Encoder \<Rightarrow> bool" where
  "token_written d t d1 \<longleftrightarrow> (\<exists>m m'.
     en_output_buffer d = Some m \<and> length m' = length m \<and>
     d1 = d\<lparr>en_current_column :=
               if en_line_length d > 0 then (if enc_wraps d then 4 else en_current_column d + 4)
               else en_current_column d,
             en_output_buffer := Some m',
             en_output_length := en_output_length d + (if enc_wraps d then 6 else 4)\<rparr> \<and>
     unat (en_output_length d1) = unat (en_output_length d) + (if enc_wraps d then 6 else 4) \<and>
     (en_line_length d > 0 \<and> \<not> enc_wraps d \<longrightarrow>
        unat (en_current_column d1) = unat (en_current_column d) + 4) \<and>
     encode_contents d1 = encode_contents d @ (if enc_wraps d then [B64_CR, B64_LF] else []) @ t)"

definition enc_put_rel :: "'s PLBase64Encoder \<Rightarrow> byte list \<Rightarrow> 's PLBase64Encoder \<Rightarrow> bool" where
  "enc_put_rel d bs d' \<longleftrightarrow> (\<exists>m m'. en_output_buffer d = Some m \<and> length m' = length m \<and>
     d' = d\<lparr>en_output_buffer := Some m', en_output_length := en_output_length d + of_nat (length bs)\<rparr> \<and>
     unat (en_output_length d') = unat (en_output_length d) + length bs \<and>
     encode_contents d' = encode_contents d @ bs)"

lemma encode_put_ok:
  assumes "en_output_buffer d = Some m" "unat (en_output_length d) + length bs \<le> length m" "length m < 2 ^ 32"
  shows "\<exists>d'. encode_put d bs = Inr d' \<and> enc_put_rel d bs d'"
proof -
  have "unat (of_nat (length bs) :: u32) = length bs"
    using assms by (simp add: unat_of_nat take_bit_nat_eq_self)
  then have len: "unat (en_output_length d + of_nat (length bs)) = unat (en_output_length d) + length bs"
    using assms by (subst unat_plus_no_wrap) simp_all
  let ?m = "take (unat (en_output_length d)) m @ bs @ drop (unat (en_output_length d) + length bs) m"
  let ?d = "d\<lparr>en_output_buffer := Some ?m, en_output_length := en_output_length d + of_nat (length bs)\<rparr>"
  have "enc_put_rel d bs ?d"
    unfolding enc_put_rel_def using assms len
    by (intro exI [of _ m] exI [of _ ?m]) (simp add: encode_contents_def)
  then show ?thesis using assms by (auto simp: encode_put_def mem_simps)
qed

lemma dvd4_room:
  assumes "a < (b :: u32)" "4 dvd unat a" "4 dvd unat b"
  shows "unat (a + 4) = unat a + 4" "unat a + 4 \<le> unat b"
proof -
  show "unat a + 4 \<le> unat b"
    using assms by (auto simp: word_less_nat_alt elim!: dvdE)
  then have "unat a + unat (4 :: u32) < 2 ^ LENGTH(32)" using unsigned_less [of b, where 'a = nat] by simp
  then show "unat (a + 4) = unat a + 4" by (subst unat_plus_no_wrap) simp_all
qed

lemma encode_token_ok:
  assumes room: "enc_room d" and v: "v < 2 ^ 24"
  shows "\<exists>d1. encode_token d (word_of_nat v) = Inr d1 \<and> token_written d (b64_digits v) d1"
proof -
  obtain m where m: "en_output_buffer d = Some m" "length m < 2 ^ 32"
    "unat (en_output_length d) + (if enc_wraps d then 6 else 4) \<le> length m"
    and dvd: "4 dvd unat (en_line_length d)" "4 dvd unat (en_current_column d)"
    using room by (auto simp: enc_room_def)
  have len: "length (token_chars (word_of_nat v)) = 4" by (simp add: token_chars_def)
  show ?thesis
  proof (cases "enc_wraps d")
    case True
    let ?d = "d\<lparr>en_current_column := 0\<rparr>"
    obtain d1 where d1: "encode_put ?d [B64_CR, B64_LF] = Inr d1" "enc_put_rel ?d [B64_CR, B64_LF] d1"
      using encode_put_ok [of ?d m "[B64_CR, B64_LF]"] m True by auto
    let ?e = "d1\<lparr>en_current_column := en_current_column d1 + 4\<rparr>"
    obtain m1 where m1: "en_output_buffer ?e = Some m1" "length m1 = length m"
        "unat (en_output_length ?e) = unat (en_output_length d) + 2"
      using d1(2) m by (auto simp: enc_put_rel_def)
    obtain d2 where d2: "encode_put ?e (b64_digits v) = Inr d2" "enc_put_rel ?e (b64_digits v) d2"
      using encode_put_ok [OF m1(1), of "b64_digits v"] m m1 True by auto
    have "encode_token d (word_of_nat v) = Inr d2"
      using d1 d2(1) True v
      by (auto simp: encode_token_def token_chars_digits enc_wraps_def encode_break_def enc_put_rel_def)
    moreover have "token_written d (b64_digits v) d2"
      using d1(2) d2(2) m True unfolding token_written_def enc_put_rel_def
      by (auto simp: enc_wraps_def encode_contents_def add.assoc)
    ultimately show ?thesis by blast
  next
    case False
    let ?e = "d\<lparr>en_current_column :=
      if en_line_length d > 0 then en_current_column d + 4 else en_current_column d\<rparr>"
    have e: "(if en_line_length d > 0 then d\<lparr>en_current_column := en_current_column d + 4\<rparr> else d) = ?e"
      by simp
    obtain d2 where d2: "encode_put ?e (b64_digits v) = Inr d2" "enc_put_rel ?e (b64_digits v) d2"
      using encode_put_ok [of ?e m "b64_digits v"] m False by auto
    have "encode_break d = Inr d" using False by (auto simp: encode_break_def enc_wraps_def)
    then have "encode_token d (word_of_nat v) = Inr d2"
      using d2(1) v by (cases "0 < en_line_length d") (simp_all add: encode_token_def token_chars_digits)
    moreover have "en_line_length d > 0 \<Longrightarrow> unat (en_current_column d + 4) = unat (en_current_column d) + 4"
      using dvd4_room(1) [OF _ dvd(2,1)] False by (auto simp: enc_wraps_def)
    then have "token_written d (b64_digits v) d2"
      using d2(2) m False unfolding token_written_def enc_put_rel_def
      by (auto simp: enc_wraps_def encode_contents_def split: if_splits)
    ultimately show ?thesis by blast
  qed
qed

text \<open>What the encoder has to hold after the bytes \<open>bs\<close>: all full groups written, the rest pending.\<close>

definition enc_holds :: "('s \<Rightarrow> byte list) \<Rightarrow> 's PLBase64Encoder \<Rightarrow> byte list \<Rightarrow> bool" where
  "enc_holds view d bs \<longleftrightarrow> (\<exists>full pend. bs = full @ pend \<and> length full mod 3 = 0 \<and> length pend < 3 \<and>
     en_in_buffer_count d = length pend \<and> length (en_in_buffer d) = 2 \<and>
     take (length pend) (en_in_buffer d) = pend \<and>
     enc_state view d = foldl (b64_emit (unat (en_line_length d))) (0, []) (b64_tokens full))"

lemma pending_number:
  assumes "length pend < 3" "take (length pend) b = pend" "length b = 2"
  shows "(if 1 < length pend then push_bit 8 (ucast (b ! 0)) OR ucast (b ! 1)
          else if 0 < length pend then ucast (b ! 0) else 0 :: u32) = word_of_nat (be_value pend)"
proof -
  have p: "pend ! j = b ! j" if "j < length pend" for j using assms(2) that by (metis nth_take)
  consider "pend = []" | x where "pend = [x]" | x y where "pend = [x, y]"
    using assms(1) by (cases pend rule: b64_tokens.cases) auto
  then show ?thesis
    using foldl_or_be_value [of "[]" pend] p [of 0] p [of 1] by cases auto
qed

lemma pad_token:
  assumes "length pend < 3" "pend \<noteq> []" "take (length pend) b = pend" "length b = 2"
  defines "n \<equiv> push_bit 16 (ucast (b ! 0)) OR (if 1 < length pend then push_bit 8 (ucast (b ! 1)) else 0) :: u32"
  shows "b64_tokens pend =
    [(if length pend = 1 then (token_chars n)[2 := B64_PAD] else token_chars n)[3 := B64_PAD]]"
proof -
  have p: "pend ! j = b ! j" if "j < length pend" for j using assms(3) that by (metis nth_take)
  have "n = word_of_nat (be_value (take 3 (pend @ [0, 0])))"
  proof -
    consider x where "pend = [x]" | x y where "pend = [x, y]"
      using assms(1,2) by (cases pend rule: b64_tokens.cases) auto
    then show ?thesis
      using foldl_or_be_value [of "[]" "take 3 (pend @ [0, 0])"] p [of 0] p [of 1]
      by cases (simp_all add: n_def push_bit_or)
  qed
  then have cs: "token_chars n = b64_digits (be_value (take 3 (pend @ [0, 0])))"
    using be_value_less [of "take 3 (pend @ [0, 0])"] assms(1,2)
    by (cases pend rule: b64_tokens.cases) (simp_all add: token_chars_digits)
  consider x where "pend = [x]" | x y where "pend = [x, y]"
    using assms(1,2) by (cases pend rule: b64_tokens.cases) auto
  then show ?thesis unfolding cs by cases (simp_all add: b64_digits_def)
qed

section \<open>Sinks\<close>

text \<open>
  Where the text goes: into one buffer, or through a small buffer to a callback. A sink is a condition
  on the encoder, with the number of tokens still to be written, under which a token fits and which
  draining the buffer re-establishes without losing text.
\<close>

locale encoder_sink =
  fixes view :: "'s \<Rightarrow> byte list" and sink :: "'s PLBase64Encoder \<Rightarrow> nat \<Rightarrow> bool"
  assumes sink_room: "sink d (Suc k) \<Longrightarrow> enc_room d"
    and sink_pending: "sink d k \<Longrightarrow> sink (d\<lparr>en_in_buffer := b, en_in_buffer_count := c\<rparr>) k"
    and sink_drain:
      "sink d (Suc k) \<Longrightarrow> token_written d t d1 \<Longrightarrow> (todo \<longrightarrow> 0 < k) \<Longrightarrow>
       \<exists>d2. encode_drain d1 todo = (Inr (), d2) \<and> sink d2 k \<and> enc_state view d2 = enc_state view d1 \<and>
         enc_same d1 d2"
    and sink_fn: "sink d k \<Longrightarrow> en_output d = Some (f, s) \<Longrightarrow> 0 \<le> snd (f s b) \<and> view (fst (f s b)) = view s @ b"
begin

lemma step_ok:
  assumes "sink d (Suc k)" "v < 2 ^ 24" "todo \<longrightarrow> 0 < k"
  shows "\<exists>d1 d2. encode_token d (word_of_nat v) = Inr d1 \<and> encode_drain d1 todo = (Inr (), d2) \<and> sink d2 k \<and>
    enc_same d d2 \<and>
    enc_state view d2 = b64_emit (unat (en_line_length d)) (enc_state view d) (b64_digits v)"
proof -
  obtain d1 where d1: "encode_token d (word_of_nat v) = Inr d1" "token_written d (b64_digits v) d1"
    using encode_token_ok [OF sink_room [OF assms(1)] assms(2)] by blast
  obtain d2 where d2: "encode_drain d1 todo = (Inr (), d2)" "sink d2 k"
      "enc_state view d2 = enc_state view d1" "enc_same d1 d2"
    using sink_drain [OF assms(1) d1(2) assms(3)] by blast
  have "enc_same d d1" using d1(2) by (auto simp: token_written_def enc_same_def enc_keeps_def)
  then have "enc_same d d2" using d2(4) by (simp add: enc_same_def enc_keeps_def)
  moreover have "enc_state view d1 = b64_emit (unat (en_line_length d)) (enc_state view d) (b64_digits v)"
    using d1(2) unfolding token_written_def
    by (auto simp: enc_state_def enc_view_def enc_wraps_def word_le_nat_alt word_less_nat_alt not_le)
  ultimately show ?thesis using d1(1) d2 by auto
qed

lemma loop_ok:
  assumes "sink d ((length pend + (stop - p)) div 3 + k)" "length pend < 3" "(length pend + (stop - p)) mod 3 = 0"
    "stop \<le> length inp" "p = stop \<Longrightarrow> pend = []" "p \<le> stop"
  shows "\<exists>d'. encode_loop d inp stop p (length pend) (word_of_nat (be_value pend)) = (Inr (), d') \<and> sink d' k \<and>
    enc_same d d' \<and>
    enc_state view d' = foldl (b64_emit (unat (en_line_length d))) (enc_state view d)
      (b64_tokens (pend @ take (stop - p) (drop p inp)))"
  using assms
proof (induction "stop - p" arbitrary: d pend p rule: less_induct)
  case less
  show ?case
  proof (cases "p < stop")
    case False
    then show ?thesis using less.prems by (simp add: enc_same_def enc_keeps_def encode_loop.simps [of d])
  next
    case True
    define q where "q = p + (3 - length pend)"
    define bs where "bs = take (3 - length pend) (drop p inp)"
    have q: "q \<le> stop" using less.prems(2,3) True unfolding q_def by presburger
    have bs: "mem_read inp p (3 - length pend) = Inr bs" "length (pend @ bs) = 3"
      using q less.prems(2,4) by (simp_all add: bs_def q_def mem_simps)
    have v: "be_value (pend @ bs) < 2 ^ 24" using be_value_less [of "pend @ bs"] bs(2) by simp
    have n: "foldl (\<lambda>n b. push_bit 8 n OR ucast b) (word_of_nat (be_value pend) :: u32) bs =
        word_of_nat (be_value (pend @ bs))"
      using foldl_or_be_value [of pend bs] bs(2) by simp
    have k: "(length pend + (stop - p)) div 3 + k = Suc ((stop - q) div 3 + k)"
      using q less.prems(2) by (simp add: q_def)
    have lt: "stop - q < stop - p" using True less.prems(2) q by (simp add: q_def)
    have m: "(stop - q) mod 3 = 0" using q less.prems(2,3) unfolding q_def by presburger
    have todo: "q < stop \<longrightarrow> 0 < (stop - q) div 3 + k" using m by presburger
    obtain d1 d2 where d: "encode_token d (word_of_nat (be_value (pend @ bs))) = Inr d1"
        "encode_drain d1 (q < stop) = (Inr (), d2)" "sink d2 ((stop - q) div 3 + k)" "enc_same d d2"
        "enc_state view d2 = b64_emit (unat (en_line_length d)) (enc_state view d) (b64_digits (be_value (pend @ bs)))"
      using step_ok [OF less.prems(1) [unfolded k] v todo] by blast
    obtain d' where d': "encode_loop d2 inp stop q 0 0 = (Inr (), d')" "sink d' k" "enc_same d2 d'"
        "enc_state view d' = foldl (b64_emit (unat (en_line_length d2))) (enc_state view d2)
           (b64_tokens (take (stop - q) (drop q inp)))"
      using less.hyps [OF lt, where d = d2 and pend = "[]"] d(3) m q less.prems(4) by auto
    have step: "encode_loop d inp stop p (length pend) (word_of_nat (be_value pend)) = (Inr (), d')"
      using True bs(1) n d(1,2) d'(1) by (subst encode_loop.simps) (simp add: q_def [symmetric])
    have "stop - p = (3 - length pend) + (stop - q)" using q less.prems(2) by (simp add: q_def)
    then have "pend @ take (stop - p) (drop p inp) = (pend @ bs) @ take (stop - q) (drop q inp)"
      by (simp only: take_add bs_def q_def drop_drop append_assoc add.commute)
    moreover obtain a b c where "pend @ bs = [a, b, c]"
      using bs(2) by (metis (no_types, opaque_lifting) length_0_conv length_Suc_conv numeral_3_eq_3)
    ultimately have "b64_tokens (pend @ take (stop - p) (drop p inp)) =
        b64_digits (be_value (pend @ bs)) # b64_tokens (take (stop - q) (drop q inp))"
      by simp
    then show ?thesis using step d(4,5) d'(2,3,4) by (simp add: enc_same_def enc_keeps_def)
  qed
qed

lemma buffer_ok:
  assumes h: "enc_holds view d bs" and len: "length inp = unat size32" "inp \<noteq> []"
    "length bs mod 3 + length inp < 2 ^ 32" and snk: "sink d ((length bs mod 3 + length inp) div 3 + k)"
  shows "\<exists>d'. pl_base64_encode_buffer d inp size32 = (Inr (), d') \<and> enc_holds view d' (bs @ inp) \<and> sink d' k \<and>
    enc_keeps d d'"
proof -
  let ?L = "unat (en_line_length d)"
  obtain full pend where fp: "bs = full @ pend" "length full mod 3 = 0" "length pend < 3"
      "en_in_buffer_count d = length pend" "length (en_in_buffer d) = 2"
      "take (length pend) (en_in_buffer d) = pend"
      "enc_state view d = foldl (b64_emit ?L) (0, []) (b64_tokens full)"
    using h by (auto simp: enc_holds_def)
  have i: "length bs mod 3 = length pend" using fp(1,2,3) by (simp add: mod_add_eq [symmetric])
  have thr: "size32 < of_nat (3 - length pend) \<longleftrightarrow> length inp < 3 - length pend"
    using len(1) by (simp add: word_less_nat_alt unat_of_nat take_bit_nat_eq_self)
  show ?thesis
  proof (cases "length inp < 3 - length pend")
    case True
    then have small: "length inp = (if size32 > 1 then 2 else 1)"
      using len(1,2) by (cases inp) (auto simp: word_less_nat_alt)
    let ?b = "take (length pend) (en_in_buffer d) @ inp @ drop (length pend + length inp) (en_in_buffer d)"
    let ?d = "d\<lparr>en_in_buffer := ?b, en_in_buffer_count := length pend + length inp\<rparr>"
    have "pl_base64_encode_buffer d inp size32 = (Inr (), ?d)"
      using True thr fp(4,5) unfolding pl_base64_encode_buffer_def small [symmetric]
      by (simp add: mem_simps Let_def)
    moreover have "enc_holds view ?d (bs @ inp)"
      unfolding enc_holds_def using fp True
      by (intro exI [of _ full] exI [of _ "pend @ inp"])
        (auto simp: enc_state_def enc_view_def encode_contents_def)
    moreover have "sink ?d k" using snk True i by (intro sink_pending) simp
    ultimately show ?thesis by (auto simp: enc_keeps_def)
  next
    case False
    define off where "off = (length pend + length inp) mod 3"
    have wrap: "unat (size32 + of_nat (length pend)) = length pend + length inp"
      using len i fp(3) by (subst unat_plus_no_wrap) (simp_all add: unat_of_nat take_bit_nat_eq_self)
    have off: "unat ((size32 + of_nat (length pend)) mod 3) = off"
      unfolding off_def by (simp add: unat_mod_word wrap)
    have le: "off < 3" "off < length inp" using False fp(3) unfolding off_def by presburger+
    let ?off = "(size32 + of_nat (length pend)) mod 3"
    have sub: "unat (size32 - ?off) = length inp - off"
      using len(1) off le by (subst unat_sub) (simp_all add: word_le_nat_alt)
    let ?b = "if off > 0 then drop (length inp - off) inp @ drop off (en_in_buffer d) else en_in_buffer d"
    let ?d = "d\<lparr>en_in_buffer := ?b, en_in_buffer_count := off\<rparr>"
    have b: "(if ?off > 0 then res_bind (mem_read inp (unat (size32 - ?off)) (unat ?off)) (mem_write (en_in_buffer d) 0)
        else Inr (en_in_buffer d)) = Inr ?b"
      using le off fp(5) by (simp add: sub word_less_nat_alt mem_simps)
    have call: "pl_base64_encode_buffer d inp size32 =
        encode_loop ?d inp (length inp - off) 0 (length pend) (word_of_nat (be_value pend))"
      using False thr unfolding pl_base64_encode_buffer_def Let_def fp(4) pending_number [OF fp(3,6,5)] b
      unfolding off len(1) [symmetric] by simp
    have mid: "length pend + (length inp - off - 0) = 3 * ((length pend + length inp) div 3)"
      using le unfolding off_def by presburger
    have st: "enc_state view ?d = enc_state view d" by (simp add: enc_state_def enc_view_def encode_contents_def)
    have "sink ?d ((length pend + (length inp - off - 0)) div 3 + k)"
      using snk i mid by (intro sink_pending) simp
    from loop_ok [OF this fp(3), of inp] obtain d' where d':
        "encode_loop ?d inp (length inp - off) 0 (length pend) (word_of_nat (be_value pend)) = (Inr (), d')"
        "sink d' k" "enc_same ?d d'"
        "enc_state view d' = foldl (b64_emit ?L) (enc_state view ?d)
           (b64_tokens (pend @ take (length inp - off) inp))"
      using mid le by auto
    let ?mid = "pend @ take (length inp - off) inp" and ?rest = "drop (length inp - off) inp"
    have "length (full @ ?mid) mod 3 = 0" using fp(2) mid le by (simp add: mod_add_eq [symmetric])
    moreover have "enc_state view d' = foldl (b64_emit ?L) (0, []) (b64_tokens (full @ ?mid))"
      using d'(4) fp(2,7) st by (simp add: b64_tokens_append)
    moreover have "bs @ inp = (full @ ?mid) @ ?rest" using fp(1) by simp
    moreover have "length ?b = 2" "take off ?b = ?rest" using le fp(5) by auto
    ultimately have "enc_holds view d' (bs @ inp)"
      unfolding enc_holds_def using d'(3) le
      by (intro exI [of _ "full @ ?mid"] exI [of _ ?rest]) (simp add: enc_same_def enc_keeps_def)
    then show ?thesis using call d'(1,2,3) by (auto simp: enc_same_def enc_keeps_def)
  qed
qed

lemma put_break_ok:
  assumes "enc_room d" "length t = 4"
  shows "\<exists>d'. res_bind (encode_break d) (\<lambda>d. encode_put d t) = Inr d' \<and> en_output d' = en_output d \<and> enc_keeps d d' \<and> enc_fits d' \<and>
    enc_view view d' = snd (b64_emit (unat (en_line_length d)) (enc_state view d) t)"
proof -
  obtain m where m: "en_output_buffer d = Some m" "length m < 2 ^ 32"
    "unat (en_output_length d) + (if enc_wraps d then 6 else 4) \<le> length m"
    using assms(1) by (auto simp: enc_room_def)
  show ?thesis
  proof (cases "enc_wraps d")
    case True
    let ?d = "d\<lparr>en_current_column := 0\<rparr>"
    obtain d1 where d1: "encode_put ?d [B64_CR, B64_LF] = Inr d1" "enc_put_rel ?d [B64_CR, B64_LF] d1"
      using encode_put_ok [of ?d m "[B64_CR, B64_LF]"] m True by auto
    obtain m1 where m1: "en_output_buffer d1 = Some m1" "length m1 = length m"
        "unat (en_output_length d1) = unat (en_output_length d) + 2"
      using d1(2) m by (auto simp: enc_put_rel_def)
    obtain d2 where d2: "encode_put d1 t = Inr d2" "enc_put_rel d1 t d2"
      using encode_put_ok [OF m1(1), of t] m m1 True assms(2) by auto
    have "enc_view view d2 = enc_view view d @ [B64_CR, B64_LF] @ t" "en_output d2 = en_output d" "enc_keeps d d2" "enc_fits d2"
      using d1(2) d2(2) m True assms(2)
      by (auto simp: enc_put_rel_def enc_view_def encode_contents_def enc_keeps_def enc_fits_def)
    then show ?thesis using d1 d2 True
      by (auto simp: encode_break_def enc_wraps_def enc_state_def word_le_nat_alt word_less_nat_alt)
  next
    case False
    obtain d2 where d2: "encode_put d t = Inr d2" "enc_put_rel d t d2"
      using encode_put_ok [OF m(1), of t] m False assms(2) by auto
    have "enc_view view d2 = enc_view view d @ t" "en_output d2 = en_output d" "enc_keeps d d2" "enc_fits d2"
      using d2(2) m False assms(2)
      by (auto simp: enc_put_rel_def enc_view_def encode_contents_def enc_keeps_def enc_fits_def)
    then show ?thesis using d2 False
      by (auto simp: encode_break_def enc_wraps_def enc_state_def word_le_nat_alt word_less_nat_alt not_le)
  qed
qed

lemma flush_ok:
  assumes h: "enc_holds view d bs" and snk: "sink d (if length bs mod 3 = 0 then 0 else Suc k)"
  shows "\<exists>d'. pl_base64_encode_flush d = (Inr (), d') \<and>
    enc_view view d' = b64_text (unat (en_line_length d)) bs \<and> enc_keeps d d' \<and>
    (enc_fits d \<longrightarrow> enc_fits d') \<and> (en_output d = None \<longleftrightarrow> en_output d' = None) \<and> (en_output d \<noteq> None \<longrightarrow> encode_contents d' = [])"
proof -
  let ?L = "unat (en_line_length d)"
  obtain full pend where fp: "bs = full @ pend" "length full mod 3 = 0" "length pend < 3"
      "en_in_buffer_count d = length pend" "length (en_in_buffer d) = 2"
      "take (length pend) (en_in_buffer d) = pend"
      "enc_state view d = foldl (b64_emit ?L) (0, []) (b64_tokens full)"
    using h by (auto simp: enc_holds_def)
  have i: "length bs mod 3 = length pend" using fp(1,2,3) by (simp add: mod_add_eq [symmetric])
  have tx: "b64_text ?L bs = snd (foldl (b64_emit ?L) (enc_state view d) (b64_tokens pend))"
    unfolding b64_text_def fp(1) b64_tokens_append [OF fp(2)] foldl_append fp(7) ..
  let ?n = "push_bit 16 (ucast (en_in_buffer d ! 0)) OR
    (if 1 < length pend then push_bit 8 (ucast (en_in_buffer d ! 1)) else 0) :: u32"
  let ?t = "(if length pend = 1 then (token_chars ?n)[2 := B64_PAD] else token_chars ?n)[3 := B64_PAD]"
  let ?w = "if 0 < length pend
    then res_bind (encode_break (d\<lparr>en_in_buffer_count := 0\<rparr>)) (\<lambda>d. encode_put d ?t) else Inr d"
  have "\<exists>d1. ?w = Inr d1 \<and> en_output d1 = en_output d \<and> enc_keeps d d1 \<and> (enc_fits d \<longrightarrow> enc_fits d1) \<and>
      enc_view view d1 = b64_text ?L bs"
  proof (cases "pend = []")
    case True
    then show ?thesis using tx by (simp add: enc_state_def enc_keeps_def)
  next
    case False
    have "sink (d\<lparr>en_in_buffer := en_in_buffer d, en_in_buffer_count := 0\<rparr>) (Suc k)"
      using snk i False by (intro sink_pending) simp
    then have "enc_room (d\<lparr>en_in_buffer_count := 0\<rparr>)" using sink_room by simp
    moreover have "length ?t = 4" by (simp add: token_chars_def)
    ultimately obtain d1 where d1: "res_bind (encode_break (d\<lparr>en_in_buffer_count := 0\<rparr>)) (\<lambda>d. encode_put d ?t) = Inr d1"
        "en_output d1 = en_output d" "enc_keeps (d\<lparr>en_in_buffer_count := 0\<rparr>) d1" "enc_fits d1"
        "enc_view view d1 = snd (b64_emit ?L (enc_state view (d\<lparr>en_in_buffer_count := 0\<rparr>)) ?t)"
      using put_break_ok by fastforce
    have "enc_state view (d\<lparr>en_in_buffer_count := 0\<rparr>) = enc_state view d"
      by (simp add: enc_state_def enc_view_def encode_contents_def)
    then have "enc_view view d1 = b64_text ?L bs"
      using d1(5) tx pad_token [OF fp(3) False fp(6,5)] by (simp del: b64_emit.simps)
    then show ?thesis using d1(1,2,3,4) False by (auto simp: enc_keeps_def)
  qed
  then obtain d1 where d1: "?w = Inr d1" "en_output d1 = en_output d" "enc_keeps d d1" "enc_fits d \<Longrightarrow> enc_fits d1"
      "enc_view view d1 = b64_text ?L bs"
    by blast
  show ?thesis
  proof (cases "length pend = 0 \<and> en_output_length d = 0")
    case True
    then have "pl_base64_encode_flush d = (Inr (), d)" by (simp add: pl_base64_encode_flush_def fp(4))
    then show ?thesis using d1 True by (simp add: encode_contents_def enc_keeps_def)
  next
    case False
    have unf: "pl_base64_encode_flush d =
        (case ?w of Inl e \<Rightarrow> (Inl e, d)
         | Inr data \<Rightarrow> (case en_output data of
             Some (output_fn, arg) \<Rightarrow>
               (case output_fn arg (encode_contents data) of (arg, output_result) \<Rightarrow>
                  (if output_result < 0 then Inl NO_ERROR_SET else Inr (),
                   data\<lparr>en_output := Some (output_fn, arg), en_output_length := 0\<rparr>))
           | None \<Rightarrow> (Inr (), data)))"
      unfolding pl_base64_encode_flush_def Let_def fp(4) if_not_P [OF False] ..
    show ?thesis
    proof (cases "en_output d")
      case None
      then show ?thesis using unf d1 by simp
    next
      case (Some fs)
      obtain f s where fs: "fs = (f, s)" by fastforce
      obtain s' r where r: "f s (encode_contents d1) = (s', r)" by fastforce
      have "0 \<le> r" "view s' = view s @ encode_contents d1"
        using sink_fn [OF snk, of f s "encode_contents d1"] Some fs r by auto
      then show ?thesis using unf d1 Some fs r
        by (auto simp: enc_view_def encode_contents_def enc_keeps_def enc_fits_def)
    qed
  qed
qed

end
text \<open>Streaming: the callback keeps what it is given, and the buffer has room for one line.\<close>

definition stream_sink :: "('s \<Rightarrow> byte list) \<Rightarrow> 's PLBase64Encoder \<Rightarrow> nat \<Rightarrow> bool" where
  "stream_sink view d k \<longleftrightarrow>
     (\<exists>f s. en_output d = Some (f, s) \<and> (\<forall>s b. 0 \<le> snd (f s b) \<and> view (fst (f s b)) = view s @ b)) \<and>
     (\<exists>m. en_output_buffer d = Some m \<and> length m = unat (en_output_buflen d)) \<and>
     (let L = unat (en_line_length d); col = unat (en_current_column d); n = unat (en_output_length d) in
      4 dvd L \<and> 4 dvd col \<and> unat (en_output_buflen d) = (if L = 0 then 64 else L + 2) \<and>
      (if L = 0 then n \<le> 60 else col = L \<and> n = 0 \<or> col < L \<and> col \<le> n \<and> n \<le> col + 2))"

lemma stream_sink_room: "stream_sink view d k \<Longrightarrow> enc_room d"
  using unsigned_less [of "en_output_buflen d", where 'a = nat]
  by (auto simp: stream_sink_def enc_room_def enc_wraps_def Let_def word_le_nat_alt word_less_nat_alt
      split: if_splits elim!: dvdE)

lemma stream_sink_drain:
  assumes snk: "stream_sink view d (Suc k)" and tw: "token_written d t d1"
  shows "\<exists>d2. encode_drain d1 todo = (Inr (), d2) \<and> stream_sink view d2 k \<and>
    enc_state view d2 = enc_state view d1 \<and> enc_same d1 d2"
proof -
  let ?L = "unat (en_line_length d)" and ?col = "unat (en_current_column d)" and ?n = "unat (en_output_length d)"
    and ?n1 = "unat (en_output_length d1)" and ?col1 = "unat (en_current_column d1)"
  obtain f s where fs: "en_output d = Some (f, s)" "\<And>s b. 0 \<le> snd (f s b)" "\<And>s b. view (fst (f s b)) = view s @ b"
    using snk by (auto simp: stream_sink_def)
  have inv: "4 dvd ?L" "4 dvd ?col" "unat (en_output_buflen d) = (if ?L = 0 then 64 else ?L + 2)"
    "?L = 0 \<Longrightarrow> ?n \<le> 60" "?L \<noteq> 0 \<Longrightarrow> ?col = ?L \<and> ?n = 0 \<or> ?col < ?L \<and> ?col \<le> ?n \<and> ?n \<le> ?col + 2"
    using snk by (auto simp: stream_sink_def Let_def split: if_splits)
  have wr: "enc_wraps d \<longleftrightarrow> ?L \<noteq> 0 \<and> ?L \<le> ?col"
    by (auto simp: enc_wraps_def word_le_nat_alt word_less_nat_alt)
  have d1: "?n1 = ?n + (if enc_wraps d then 6 else 4)"
    "?col1 = (if ?L = 0 then ?col else if enc_wraps d then 4 else ?col + 4)"
    "en_output d1 = Some (f, s)" "en_output_buflen d1 = en_output_buflen d" "en_line_length d1 = en_line_length d"
    "\<exists>m. en_output_buffer d1 = Some m \<and> length m = unat (en_output_buflen d)"
    using tw snk fs(1) by (auto simp: token_written_def stream_sink_def word_less_nat_alt)
  have thr: "en_output_length d1 \<ge> en_output_buflen d1 - 3 \<longleftrightarrow> unat (en_output_buflen d) \<le> ?n1 + 3"
    using inv(1,3) by (auto simp: d1 word_le_nat_alt unat_sub split: if_splits elim!: dvdE)
  obtain s' r where r: "f s (encode_contents d1) = (s', r)" "0 \<le> r" "view s' = view s @ encode_contents d1"
    using fs(2,3) [of s "encode_contents d1"] by (cases "f s (encode_contents d1)") auto
  have sum: "?col < ?L \<Longrightarrow> ?col + 4 \<le> ?L" "?col < ?L \<Longrightarrow> ?L \<le> ?col + 7 \<Longrightarrow> ?col + 4 = ?L"
    using inv(1,2) by presburger+
  show ?thesis
  proof (cases "unat (en_output_buflen d) \<le> ?n1 + 3")
    case True
    let ?d2 = "d1\<lparr>en_output := Some (f, s'), en_output_length := 0\<rparr>"
    have "encode_drain d1 todo = (Inr (), ?d2)" using thr True d1(3) r by (simp add: encode_drain_def)
    moreover have "stream_sink view ?d2 k"
      using True inv d1 fs wr sum unfolding stream_sink_def Let_def
      by (auto split: if_splits)
    moreover have "enc_state view ?d2 = enc_state view d1"
      using d1(3) r by (simp add: enc_state_def enc_view_def encode_contents_def)
    ultimately show ?thesis by (auto simp: enc_same_def enc_keeps_def)
  next
    case False
    then have "encode_drain d1 todo = (Inr (), d1)" using thr by (simp add: encode_drain_def)
    moreover have "stream_sink view d1 k"
      using False inv d1 fs wr sum unfolding stream_sink_def Let_def
      by (auto split: if_splits)
    ultimately show ?thesis by (auto simp: enc_same_def enc_keeps_def)
  qed
qed

interpretation stream: encoder_sink view "stream_sink view" for view
proof (unfold_locales, goal_cases)
  case (1 d k)
  then show ?case by (rule stream_sink_room)
next
  case (2 d k b c)
  then show ?case by (simp add: stream_sink_def)
next
  case (3 d k t d1 todo)
  then show ?case by (intro stream_sink_drain)
next
  case (4 d k f s b)
  then show ?case by (auto simp: stream_sink_def)
qed

text \<open>Buffered: the rest of the buffer holds what the remaining tokens and line breaks need.\<close>

fun b64_need :: "nat \<Rightarrow> nat \<Rightarrow> nat \<Rightarrow> nat" where
  "b64_need L col 0 = 0"
| "b64_need L col (Suc k) =
     (if L = 0 then 4 + b64_need L col k
      else if L \<le> col then 6 + b64_need L 4 k else 4 + b64_need L (col + 4) k)"

definition buffer_sink :: "'s PLBase64Encoder \<Rightarrow> nat \<Rightarrow> bool" where
  "buffer_sink d k \<longleftrightarrow> en_output d = None \<and>
     (\<exists>m. en_output_buffer d = Some m \<and> unat (en_output_buflen d) \<le> length m \<and> length m < 2 ^ 32) \<and>
     4 dvd unat (en_line_length d) \<and> 4 dvd unat (en_current_column d) \<and>
     unat (en_output_length d) + b64_need (unat (en_line_length d)) (unat (en_current_column d)) k
       \<le> unat (en_output_buflen d)"

interpretation buffered: encoder_sink view buffer_sink for view
proof (unfold_locales, goal_cases)
  case (1 d k)
  then show ?case
    by (auto simp: buffer_sink_def enc_room_def enc_wraps_def word_le_nat_alt word_less_nat_alt split: if_splits)
next
  case (2 d k b c)
  then show ?case by (simp add: buffer_sink_def)
next
  case (3 d k t d1 todo)
  have wr: "enc_wraps d \<longleftrightarrow> unat (en_line_length d) \<noteq> 0 \<and> unat (en_line_length d) \<le> unat (en_current_column d)"
    by (auto simp: enc_wraps_def word_le_nat_alt word_less_nat_alt)
  have d1: "buffer_sink d1 k" "en_output d1 = None"
    using 3(1,2) wr unfolding token_written_def buffer_sink_def
    by (auto simp: word_less_nat_alt split: if_splits)
  have "todo \<Longrightarrow> unat (en_output_length d1) + 4 \<le> unat (en_output_buflen d1)"
    using d1(1) 3(3) by (cases k) (auto simp: buffer_sink_def split: if_splits)
  then have "todo \<Longrightarrow> \<not> en_output_buflen d1 - 3 \<le> en_output_length d1"
    by (auto simp: word_le_nat_alt unat_sub)
  then have "encode_drain d1 todo = (Inr (), d1)" using d1(2) by (auto simp: encode_drain_def)
  then show ?case using d1(1) by (auto simp: enc_same_def enc_keeps_def)
next
  case (4 d k f s b)
  then show ?case by (simp add: buffer_sink_def)
qed

section \<open>The length of the text\<close>

lemma b64_need_lines:
  "0 < n \<Longrightarrow> c \<le> n \<Longrightarrow> b64_need (4 * n) (4 * c) (Suc k) = 4 * Suc k + 2 * ((c + k) div n)"
proof (induction k arbitrary: c)
  case (Suc k)
  have step: "b64_need (4 * n) (4 * c) (Suc (Suc k)) =
      (if n \<le> c then 6 + b64_need (4 * n) (4 * 1) (Suc k) else 4 + b64_need (4 * n) (4 * Suc c) (Suc k))"
    using Suc.prems(1) by (subst b64_need.simps(2)) simp
  show ?case
  proof (cases "n \<le> c")
    case True
    then have "c = n" using Suc.prems by simp
    moreover have "(n + Suc k) div n = Suc (Suc k div n)" using Suc.prems(1) by (simp only: div_add_self1)
    ultimately show ?thesis using step Suc.IH [of 1] Suc.prems by (simp del: b64_need.simps)
  next
    case False
    then show ?thesis using step Suc.IH [of "Suc c"] Suc.prems by simp
  qed
qed simp

lemma b64_need_one_line: "b64_need 0 col k = 4 * k"
  by (induction k arbitrary: col) auto

lemma length_foldl_emit:
  "\<forall>t \<in> set ts. length t = 4 \<Longrightarrow>
     length (snd (foldl (b64_emit L) (col, out) ts)) = length out + b64_need L col (length ts)"
  by (induction ts arbitrary: col out) auto

lemma length_b64_tokens: "length (b64_tokens bs) = (length bs + 2) div 3"
  by (induction bs rule: b64_tokens.induct) auto

lemma length_b64_text: "length (b64_text L bs) = b64_need L 0 ((length bs + 2) div 3)"
  using length_foldl_emit [of "b64_tokens bs" L 0 "[]"]
  by (auto simp: b64_text_def length_b64_tokens length_b64_token)

lemma PL_Base64MaxEncodedLength_exact:
  assumes "0 < size32" "size32 \<le> 0x3fffffff" "line_length = 0 \<or> 4 \<le> line_length"
  shows "unat (PL_Base64MaxEncodedLength size32 line_length) =
    b64_need (4 * (unat line_length div 4)) 0 ((unat size32 + 2) div 3)"
proof -
  define t where "t = (unat size32 + 2) div 3"
  have s: "unat size32 \<le> 0x3fffffff" "unat size32 > 0" using assms(1,2) by (simp_all add: word_le_nat_alt word_less_nat_alt)
  have tok: "unat ((size32 + 2) div 3) = t"
    using s unfolding t_def by (simp add: unat_div_word unat_plus_no_wrap)
  have t: "0 < t" "t \<le> 0x15555555" "t \<noteq> 0" using s unfolding t_def by simp_all
  show ?thesis
  proof (cases "line_length = 0")
    case True
    have "unat ((size32 + 2) div 3 * 4) = t * 4" using t tok by (subst unat_mult_lem [THEN iffD1]) simp_all
    then show ?thesis
      using assms(2) True by (simp add: PL_Base64MaxEncodedLength_def t_def b64_need_one_line not_less)
  next
    case False
    define n where "n = unat (line_length div 4)"
    have n: "n = unat line_length div 4" "0 < n"
      using False assms(3) by (simp_all add: n_def unat_div_word word_le_nat_alt)
    let ?T = "(size32 + 2) div 3" and ?N = "line_length div 4"
    define f r where "f = t div n" and "r = t mod n"
    have fr: "f * n + r = t" "r < n" using n(2) by (simp_all add: f_def r_def)
    have fn: "f * n \<le> t" "f \<le> t" using fr(1) n(2) by (simp_all add: f_def)
    have F: "unat (?T div ?N) = f" by (simp only: unat_div_word [of ?T ?N] tok f_def n_def)
    have FN: "unat (?T div ?N * ?N) = f * n"
      using fn t(2) by (subst unat_mult_lem [THEN iffD1]) (simp_all add: F n_def)
    have R: "unat ((?T - ?T div ?N * ?N) * 4) = r * 4"
    proof -
      have "unat (?T - ?T div ?N * ?N) = r"
        using fn fr by (subst unat_sub) (simp_all add: word_le_nat_alt FN tok)
      then show ?thesis using fr t(2) by (subst unat_mult_lem [THEN iffD1]) simp_all
    qed
    have B: "unat (?T div ?N * 2) = f * 2"
      using fn t(2) by (subst unat_mult_lem [THEN iffD1]) (simp_all add: F)
    have FN4: "unat (?T div ?N * ?N * 4) = f * n * 4"
      using fn t(2) by (subst unat_mult_lem [THEN iffD1]) (simp_all add: FN)
    let ?b = "if (?T - ?T div ?N * ?N) * 4 = 0 then ?T div ?N * 2 - 2 else ?T div ?N * 2"
    have r0: "(?T - ?T div ?N * ?N) * 4 = 0 \<longleftrightarrow> r = 0"
      unfolding word_unat_eq_iff R by simp
    have "r = 0 \<Longrightarrow> 1 \<le> f" using fr(1) t(1) by (cases f) simp_all
    then have b: "unat ?b = (if r = 0 then f * 2 - 2 else f * 2)"
      unfolding r0 using B by (auto simp: unat_sub word_le_nat_alt)
    have val: "unat (?T div ?N * ?N * 4 + ?b + (?T - ?T div ?N * ?N) * 4) =
        f * n * 4 + (if r = 0 then f * 2 - 2 else f * 2) + r * 4"
    proof -
      have le: "f * n * 4 + (if r = 0 then f * 2 - 2 else f * 2) + r * 4 < 2 ^ 32"
      proof -
        have "f * n * 4 + f * 2 + r * 4 < 4294967296" using fn(2) fr(1) t(2) by linarith
        then show ?thesis by (cases "r = 0") simp_all
      qed
      have "unat (?T div ?N * ?N * 4 + ?b) = f * n * 4 + (if r = 0 then f * 2 - 2 else f * 2)"
        using le by (subst unat_plus_no_wrap) (simp_all only: FN4 b, simp)
      then show ?thesis using le by (subst unat_plus_no_wrap) (simp_all only: R, simp)
    qed
    have dv: "(t - 1) div n = (if r = 0 then f - 1 else f)"
    proof (cases "r = 0")
      case True
      with fr t(1) have "t - 1 = (f - 1) * n + (n - 1)" by (cases f) (auto simp: algebra_simps)
      then have "(t - 1) div n = (f - 1) + (n - 1) div n" using n(2) by (simp only: div_mult_self3)
      then show ?thesis using True n(2) by simp
    next
      case False
      with fr have "t - 1 = f * n + (r - 1)" "r - 1 < n" by auto
      then have "(t - 1) div n = f + (r - 1) div n" using n(2) by (simp only: div_mult_self3)
      then show ?thesis using False \<open>r - 1 < n\<close> by simp
    qed
    have need: "b64_need (4 * n) 0 t = 4 * t + 2 * ((t - 1) div n)"
      using b64_need_lines [OF n(2), of 0 "t - 1"] t(1) by (simp del: b64_need.simps)
    have c: "\<not> size32 > 0x3fffffff" "\<not> line_length < 4" using assms(2,3) False by auto
    have "PL_Base64MaxEncodedLength size32 line_length = ?T div ?N * ?N * 4 + ?b + (?T - ?T div ?N * ?N) * 4"
      unfolding PL_Base64MaxEncodedLength_def Let_def if_not_P [OF c(1)] if_not_P [OF False] if_not_P [OF c(2)] ..
    then show ?thesis
      unfolding val n(1) [symmetric] t_def [symmetric] need dv using fr(1) by (simp only: val) auto
  qed
qed

section \<open>Encoding a whole buffer\<close>

text \<open>An allocator that never runs out, for the statements about results that are returned.\<close>

definition nspr_total :: "nspr \<Rightarrow> bool" where
  "nspr_total h \<longleftrightarrow> (\<forall>n. PR_Malloc h n \<noteq> None \<and> PR_Calloc h n \<noteq> None \<and> PL_ARENA_ALLOCATE h n \<noteq> None \<and>
     (\<forall>m. PR_Realloc h m n \<noteq> None))"

lemma zero_nspr_total: "nspr_total zero_nspr"
  by (simp add: nspr_total_def zero_nspr_def)

lemma fresh_holds:
  "enc_holds view \<lparr>en_in_buffer = [0, 0], en_in_buffer_count = 0, en_line_length = ll, en_current_column = 0,
     en_output = out, en_output_buffer = b, en_output_buflen = n, en_output_length = 0\<rparr> [] \<longleftrightarrow>
   (case out of None \<Rightarrow> True | Some (f, s) \<Rightarrow> view s = [])"
  by (auto simp: enc_holds_def enc_state_def enc_view_def encode_contents_def split: option.splits)

lemma unat_round_4: "unat (w div 4 * 4 :: u32) = 4 * (unat w div 4)"
  by (subst unat_mult_lem [THEN iffD1]) (simp_all add: unat_div_word, use unsigned_less [of w, where 'a = nat] in simp)

lemma destroy_empty:
  "en_in_buffer_count data = 0 \<Longrightarrow> en_output data = None \<Longrightarrow>
     PL_DestroyBase64Encoder data False = (Inr (), data)"
  by (simp add: PL_DestroyBase64Encoder_def pl_base64_encode_flush_def)

lemma flush_count: "pl_base64_encode_flush d = (Inr (), d') \<Longrightarrow> en_in_buffer_count d' = 0"
  by (auto simp: pl_base64_encode_flush_def Let_def encode_break_def encode_put_def
      split: if_splits sum.splits option.splits prod.splits)

lemma PL_Base64EncodeBuffer_text:
  assumes h: "nspr_ok h" and src: "length src = unat srclen" "0 < srclen" "srclen \<le> 0x3fffffff"
    and ll: "line_length = 0 \<or> 4 \<le> line_length"
    and dest: "\<And>m0. dest = Some m0 \<Longrightarrow> unat maxdestlen \<le> length m0 \<and> length m0 < 2 ^ 32 \<and>
      PL_Base64MaxEncodedLength srclen line_length \<le> maxdestlen"
  defines "txt \<equiv> b64_text (4 * (unat line_length div 4)) src"
  shows "PL_Base64EncodeBuffer h src srclen line_length dest maxdestlen destlen = Inl NO_ERROR_SET \<and> \<not> nspr_total h \<or>
    (\<exists>m. PL_Base64EncodeBuffer h src srclen line_length dest maxdestlen destlen =
       Inr (Some m, of_nat (length txt)) \<and> take (length txt) m = txt \<and>
       length m = (case dest of None \<Rightarrow> length txt | Some m0 \<Rightarrow> length m0))"
proof -
  let ?need = "PL_Base64MaxEncodedLength srclen line_length"
  let ?L = "4 * (unat line_length div 4)"
  have need: "unat ?need = length txt"
    using PL_Base64MaxEncodedLength_exact [OF src(2,3) ll] src(1) by (simp add: txt_def length_b64_text)
  have pos: "0 < length txt"
    using src(1,2) need
    by (cases "(length src + 2) div 3") (auto simp: txt_def length_b64_text word_less_nat_alt)
  have nz: "?need \<noteq> 0" using need pos by auto
  have ok: "\<not> (dest \<noteq> None \<and> maxdestlen < ?need)" using dest by fastforce
  define mx where "mx = (if dest = None then ?need else maxdestlen)"
  define b where "b = (case dest of None \<Rightarrow> PR_Malloc h (unat mx) | x \<Rightarrow> x)"
  have ll4: "(if line_length > 0 \<and> line_length < 4 then 4 else line_length) = line_length" using ll by auto
  have mx0: "\<not> (dest = None \<and> mx = 0)" using nz by (auto simp: mx_def)
  have create: "pl_base64_create_encoder h line_length dest mx =
      (case PR_Calloc h sizeof_PLBase64Encoder of None \<Rightarrow> Inl NO_ERROR_SET
       | Some _ \<Rightarrow> (case b of None \<Rightarrow> Inl NO_ERROR_SET
         | Some m \<Rightarrow> Inr \<lparr>en_in_buffer = [0, 0], en_in_buffer_count = 0, en_line_length = line_length div 4 * 4,
                      en_current_column = 0, en_output = None, en_output_buffer = Some m,
                      en_output_buflen = mx, en_output_length = 0\<rparr>))"
    unfolding pl_base64_create_encoder_def Let_def ll4 if_not_P [OF mx0] b_def ..
  note unf = PL_Base64EncodeBuffer_def Let_def if_not_P [OF less_imp_neq [OF src(2), symmetric]]
    if_not_P [OF nz] if_not_P [OF ok] mx_def [symmetric] create
  show ?thesis
  proof (cases "PR_Calloc h sizeof_PLBase64Encoder = None \<or> b = None")
    case True
    then have "\<not> nspr_total h" using dest by (auto simp: b_def nspr_total_def split: option.splits)
    moreover have "PL_Base64EncodeBuffer h src srclen line_length dest maxdestlen destlen = Inl NO_ERROR_SET"
      unfolding unf using True by (auto split: option.splits)
    ultimately show ?thesis by simp
  next
    case False
    then obtain z m where zm: "PR_Calloc h sizeof_PLBase64Encoder = Some z" "b = Some m" by auto
    let ?d = "\<lparr>en_in_buffer = [0, 0], en_in_buffer_count = 0, en_line_length = line_length div 4 * 4,
        en_current_column = 0, en_output = None, en_output_buffer = Some m,
        en_output_buflen = mx, en_output_length = 0\<rparr> :: unit PLBase64Encoder"
    have m: "unat mx \<le> length m" "length m < 2 ^ 32" "unat ?need \<le> unat mx"
      "length m = (case dest of None \<Rightarrow> length txt | Some m0 \<Rightarrow> length m0)"
      using zm(2) h dest need unsigned_less [of ?need, where 'a = nat]
      by (auto simp: b_def mx_def nspr_ok_def word_le_nat_alt split: option.splits)
    let ?k = "if length src mod 3 = 0 then 0 else Suc 0"
    have k: "(0 mod 3 + length src) div 3 + ?k = (length src + 2) div 3" by presburger
    have snk: "buffer_sink ?d ((length ([] :: byte list) mod 3 + length src) div 3 + ?k)"
      using m need k unfolding buffer_sink_def by (simp add: unat_round_4 txt_def length_b64_text)
    have ne: "src \<noteq> []" using src(1,2) by (auto simp: word_less_nat_alt)
    obtain d1 where d1: "pl_base64_encode_buffer ?d src srclen = (Inr (), d1)"
        "enc_holds (\<lambda>_. []) d1 ([] @ src)" "buffer_sink d1 ?k" "enc_keeps ?d d1"
      using buffered.buffer_ok [OF _ src(1) ne _ snk, of "\<lambda>_. []"] src(1) unsigned_less [of srclen, where 'a = nat]
      by (auto simp: fresh_holds word_less_nat_alt)
    obtain d2 where d2: "pl_base64_encode_flush d1 = (Inr (), d2)"
        "enc_view (\<lambda>_. []) d2 = b64_text (unat (en_line_length d1)) src" "enc_keeps d1 d2" "en_output d2 = None" "enc_fits d2"
    proof -
      have "enc_fits d1" "en_output d1 = None" using d1(3) by (auto simp: buffer_sink_def enc_fits_def)
      then show ?thesis using buffered.flush_ok [OF d1(2), of 0] d1(3) that by auto
    qed
    obtain m2 where m2: "en_output_buffer d2 = Some m2" "length m2 = length m"
      using d1(4) d2(3) by (auto simp: enc_keeps_def)
    have tx: "take (unat (en_output_length d2)) m2 = txt"
      using d2(2,4) d1(4) m2 by (simp add: enc_view_def encode_contents_def enc_keeps_def unat_round_4 txt_def)
    then have len: "unat (en_output_length d2) = length txt"
      using d2(5) m2(1) by (metis enc_fits_def length_take min.absorb2 option.inject)
    have "PL_DestroyBase64Encoder (d2\<lparr>en_output_buffer := None\<rparr>) False = (Inr (), d2\<lparr>en_output_buffer := None\<rparr>)"
      using flush_count [OF d2(1)] d2(4) by (intro destroy_empty) simp_all
    then have "PL_Base64EncodeBuffer h src srclen line_length dest maxdestlen destlen = Inr (Some m2, en_output_length d2)"
      unfolding unf using zm d1(1) d2(1) m2(1) by simp
    moreover have "en_output_length d2 = of_nat (length txt)" using len [symmetric] by simp
    ultimately show ?thesis using tx len m2(2) m(4) by simp
  qed
qed

lemma item_alloc_length:
  "nspr_ok h \<Longrightarrow> 0 < n \<Longrightarrow> item_alloc h arena n = Inr m \<Longrightarrow> length m = n \<and> n \<le> MAX_SIZE"
  by (auto simp: item_alloc_def PORT_Alloc_def PORT_ArenaAlloc_def nspr_ok_def Let_def
      split: if_splits option.splits)

lemma b64_text_64_small:
  assumes "length bs \<le> 0x3fffffff"
  shows "length (b64_text 64 bs) \<le> 0x7FFFFFFE"
proof (cases "bs = []")
  case False
  define t where "t = (length bs + 2) div 3"
  have t: "0 < t" "t \<le> 0x15555555" using False assms by (cases bs; simp add: t_def)+
  have "length (b64_text 64 bs) = b64_need (4 * 16) (4 * 0) (Suc (t - 1))"
    using t(1) by (simp add: length_b64_text t_def del: b64_need.simps)
  also have "\<dots> = 4 * Suc (t - 1) + 2 * ((0 + (t - 1)) div 16)" by (rule b64_need_lines) simp_all
  also have "\<dots> \<le> 6 * t" using t(1) div_le_dividend [of "t - 1" 16] by (cases t) simp_all
  finally show ?thesis using t(2) by simp
qed (simp add: b64_text_def)

lemma NSSBase64_EncodeItem_text:
  assumes h: "nspr_ok h" and it: "si_data item = Some src" "unat (si_len item) \<le> length src"
    "0 < si_len item" "si_len item \<le> 0x3fffffff"
  defines "txt \<equiv> b64_text 64 (take (unat (si_len item)) src)"
  assumes out: "\<And>s. outStr = Some s \<Longrightarrow> unat maxOutLen \<le> length s \<and> length s < 2 ^ 32 \<and> length txt < unat maxOutLen"
  shows "NSSBase64_EncodeItem h arena outStr maxOutLen (Some item) \<in> {Inl SEC_ERROR_NO_MEMORY, Inl NO_ERROR_SET} \<and>
      \<not> nspr_total h \<or>
    (\<exists>s. NSSBase64_EncodeItem h arena outStr maxOutLen (Some item) = Inr (txt @ 0 # s))"
proof -
  let ?n = "si_len item"
  let ?need = "PL_Base64MaxEncodedLength ?n 64"
  let ?src = "take (unat ?n) src"
  have src: "length ?src = unat ?n" "mem_read src 0 (unat ?n) = Inr ?src" using it(2) by (simp_all add: mem_simps)
  have need: "unat ?need = length txt"
    using PL_Base64MaxEncodedLength_exact [OF it(3,4), of 64] src(1) by (simp add: txt_def length_b64_text)
  have small: "length txt \<le> 0x7FFFFFFE"
    using it(4) src(1) unfolding txt_def by (intro b64_text_64_small) (simp add: word_le_nat_alt)
  have pos: "0 < length txt" "length txt < 2 ^ 31"
    using small it(3) src(1)
    by (cases "(length ?src + 2) div 3"; simp add: txt_def length_b64_text word_less_nat_alt)+
  have nz: "?need \<noteq> 0" using need pos by auto
  have p1: "unat (?need + 1) = length txt + 1" using need pos by (subst unat_plus_no_wrap) simp_all
  have lt: "unat (of_nat (length txt) :: u32) = length txt" using pos by (simp add: unat_of_nat take_bit_nat_eq_self)
  have nl: "\<not> ?n = 0" using it(3) by auto
  let ?X = "\<lambda>(s0, mx). res_bind (PL_Base64EncodeBuffer h ?src ?n 64 (Some s0) mx 0) (\<lambda>(out, out_len).
      case out of None \<Rightarrow> Inl NO_ERROR_SET | Some s \<Rightarrow> mem_write s (unat out_len) [0])"
  have unf: "NSSBase64_EncodeItem h arena outStr maxOutLen (Some item) =
      res_bind (case outStr of None \<Rightarrow> res_bind (item_alloc h arena (unat (?need + 1))) (\<lambda>s. Inr (s, ?need))
        | Some s \<Rightarrow> if ?need + 1 > maxOutLen then Inl SEC_ERROR_OUTPUT_LEN else Inr (s, maxOutLen)) ?X"
    unfolding NSSBase64_EncodeItem_def option.case it(1) if_not_P [OF nl] Let_def if_not_P [OF nz] src(2)
      res_bind_simps ..
  have call: "(\<exists>s. ?X (s0, mx) = Inr (txt @ 0 # s)) \<or> ?X (s0, mx) = Inl NO_ERROR_SET \<and> \<not> nspr_total h"
    if "unat mx \<le> length s0" "length s0 < 2 ^ 32" "length txt \<le> unat mx" "length txt < length s0" for s0 mx
    using PL_Base64EncodeBuffer_text [OF h src(1) it(3,4), of 64 "Some s0" mx 0] that need lt
    by (auto simp: txt_def word_le_nat_alt mem_write_def)
  show ?thesis
  proof (cases outStr)
    case None
    show ?thesis
    proof (cases "item_alloc h arena (unat (?need + 1))")
      case (Inl e)
      then have "e = SEC_ERROR_NO_MEMORY"
        by (auto simp: item_alloc_def dest: PORT_Alloc_error PORT_ArenaAlloc_error split: if_splits)
      moreover have "\<not> nspr_total h"
        using Inl p1 small by (auto simp: item_alloc_def PORT_Alloc_def PORT_ArenaAlloc_def nspr_total_def MAX_SIZE_def
            Let_def split: if_splits option.splits)
      ultimately show ?thesis using unf None Inl by simp
    next
      case (Inr s0)
      then have "length s0 = length txt + 1" using item_alloc_length [OF h _ Inr] p1 by simp
      then show ?thesis using call [of ?need s0] need pos unfolding unf unfolding None option.case Inr res_bind_simps by auto
    qed
  next
    case (Some s0)
    have c: "\<not> ?need + 1 > maxOutLen" using out [OF Some] p1 by (simp add: word_less_nat_alt)
    show ?thesis
      using call [of maxOutLen s0] out [OF Some] unfolding unf unfolding Some option.case if_not_P [OF c] res_bind_simps by auto
  qed
qed

section \<open>Encoding a stream\<close>

text \<open>A client of the streaming interface: create, update with each chunk, destroy.\<close>

fun encoder_updates ::
    "'s PLBase64Encoder option \<Rightarrow> byte list list \<Rightarrow> unit result \<times> 's PLBase64Encoder option" where
  "encoder_updates data [] = (Inr (), data)"
| "encoder_updates data (c # cs) =
     (case NSSBase64Encoder_Update data (Some c) (of_nat (length c)) of
        (Inl e, data) \<Rightarrow> (Inl e, data)
      | (Inr _, data) \<Rightarrow> encoder_updates data cs)"

definition encode_stream :: "nspr \<Rightarrow> 's output_fn \<Rightarrow> 's \<Rightarrow> byte list list \<Rightarrow> 's result" where
  "encode_stream h output_fn arg cs =
     res_bind (NSSBase64Encoder_Create h (Some (output_fn, arg))) (\<lambda>data.
     case encoder_updates (Some data) cs of
       (Inl e, _) \<Rightarrow> Inl e
     | (Inr _, data) \<Rightarrow>
         (case NSSBase64Encoder_Destroy data False of
            (Inr _, Some data) \<Rightarrow> (case en_output data of Some (_, arg) \<Rightarrow> Inr arg | None \<Rightarrow> Inl NO_ERROR_SET)
          | (Inl e, _) \<Rightarrow> Inl e
          | (Inr _, None) \<Rightarrow> Inl NO_ERROR_SET))"

lemma stream_sink_any: "stream_sink view d k = stream_sink view d j"
  by (simp add: stream_sink_def)

lemma encoder_updates_ok:
  assumes "enc_holds view d bs" "stream_sink view d 0" "\<forall>c \<in> set cs. c \<noteq> [] \<and> length c < 2 ^ 32 - 2"
  shows "\<exists>d'. encoder_updates (Some d) cs = (Inr (), Some d') \<and> enc_holds view d' (bs @ concat cs) \<and>
    stream_sink view d' 0 \<and> en_line_length d' = en_line_length d"
  using assms
proof (induction cs arbitrary: d bs)
  case (Cons c cs)
  have len: "length c = unat (of_nat (length c) :: u32)"
    using Cons.prems(3) by (simp add: unat_of_nat take_bit_nat_eq_self)
  have ne: "(of_nat (length c) :: u32) \<noteq> 0" using Cons.prems(3) len by (auto simp del: unat_of_nat)
  have "length bs mod 3 < 3" "length c < 4294967294" using Cons.prems(3) by simp_all
  then have "length bs mod 3 + length c < 4294967296" by linarith
  then have lt: "length bs mod 3 + length c < 2 ^ 32" by simp
  obtain d1 where d1: "pl_base64_encode_buffer d c (of_nat (length c)) = (Inr (), d1)"
      "enc_holds view d1 (bs @ c)" "stream_sink view d1 0" "enc_keeps d d1"
    using stream.buffer_ok [OF Cons.prems(1) len _ lt, of 0] Cons.prems(2,3) stream_sink_any by fastforce
  have "NSSBase64Encoder_Update (Some d) (Some c) (of_nat (length c)) = (Inr (), Some d1)"
    using ne d1(1) by (simp add: NSSBase64Encoder_Update_def PL_UpdateBase64Encoder_def)
  then show ?case using Cons.IH [OF d1(2,3)] Cons.prems(3) d1(4) by (auto simp: enc_keeps_def)
qed simp

lemma encode_stream_text:
  assumes h: "nspr_ok h" and cs: "\<forall>c \<in> set cs. c \<noteq> [] \<and> length c < 2 ^ 32 - 2"
    and fn: "\<And>s b. 0 \<le> snd (f s b)" "\<And>s b. view (fst (f s b)) = view s @ b" and s: "view s = []"
  shows "encode_stream h f s cs \<in> {Inl SEC_ERROR_NO_MEMORY, Inl NO_ERROR_SET} \<and> \<not> nspr_total h \<or>
    (\<exists>s'. encode_stream h f s cs = Inr s' \<and> view s' = b64_text 64 (concat cs))"
proof (cases "NSSBase64Encoder_Create h (Some (f, s))")
  case (Inl e)
  then have "e \<in> {SEC_ERROR_NO_MEMORY, NO_ERROR_SET}"
    by (auto simp: NSSBase64Encoder_Create_def PL_CreateBase64Encoder_def pl_base64_create_encoder_def
        res_bind_Inl_iff Let_def dest: PORT_ZAlloc_error split: option.splits)
  moreover have "\<not> nspr_total h"
    using Inl by (auto simp: NSSBase64Encoder_Create_def PL_CreateBase64Encoder_def pl_base64_create_encoder_def
        res_bind_Inl_iff Let_def PORT_ZAlloc_def MAX_SIZE_def nspr_total_def split: option.splits if_splits)
  ultimately show ?thesis using Inl by (auto simp: encode_stream_def)
next
  case (Inr d)
  then obtain m where m: "d = \<lparr>en_in_buffer = [0, 0], en_in_buffer_count = 0, en_line_length = 64,
      en_current_column = 0, en_output = Some (f, s), en_output_buffer = Some m,
      en_output_buflen = 66, en_output_length = 0\<rparr>" "length m = 66"
    using h by (auto simp: NSSBase64Encoder_Create_def PL_CreateBase64Encoder_def pl_base64_create_encoder_def
        Let_def nspr_ok_def split: option.splits)
  have "enc_holds view d []" "stream_sink view d 0"
    using fn s m by (auto simp: fresh_holds stream_sink_def)
  from encoder_updates_ok [OF this cs] obtain d1 where d1: "encoder_updates (Some d) cs = (Inr (), Some d1)"
      "enc_holds view d1 (concat cs)" "stream_sink view d1 0" "en_line_length d1 = 64"
    using m(1) by auto
  obtain d2 where d2: "pl_base64_encode_flush d1 = (Inr (), d2)" "enc_view view d2 = b64_text 64 (concat cs)"
      "encode_contents d2 = []" "en_output d2 \<noteq> None"
  proof -
    have "stream_sink view d1 (if length (concat cs) mod 3 = 0 then 0 else Suc 0)" "en_output d1 \<noteq> None"
      using d1(3) stream_sink_any by (auto simp: stream_sink_def)
    then show ?thesis using stream.flush_ok [OF d1(2)] d1(4) that by fastforce
  qed
  then show ?thesis
    using Inr d1(1) d2 by (auto simp: encode_stream_def NSSBase64Encoder_Destroy_def PL_DestroyBase64Encoder_def enc_view_def)
qed
text \<open>
  C21: The length computed in advance is exact: for up to 0x3fffffff bytes and every line length the
  encoder supports, PL_Base64EncodeBuffer returns a block of exactly PL_Base64MaxEncodedLength
  characters, which is the Base64 text of the input with its line breaks.
\<close>

theorem base64_encode_exact_length:
  assumes "nspr_ok h" "nspr_total h" "length src = unat srclen" "0 < srclen" "srclen \<le> 0x3fffffff"
    "line_length = 0 \<or> 4 \<le> line_length"
  shows "\<exists>m n. PL_Base64EncodeBuffer h src srclen line_length None maxdestlen destlen = Inr (Some m, n) \<and>
    m = b64_text (4 * (unat line_length div 4)) src \<and>
    n = PL_Base64MaxEncodedLength srclen line_length \<and> length m = unat n"
proof -
  let ?txt = "b64_text (4 * (unat line_length div 4)) src"
  have len: "length ?txt = unat (PL_Base64MaxEncodedLength srclen line_length)"
    using PL_Base64MaxEncodedLength_exact [OF assms(4,5,6)] assms(3) by (simp add: length_b64_text)
  obtain m where "PL_Base64EncodeBuffer h src srclen line_length None maxdestlen destlen = Inr (Some m, of_nat (length ?txt))"
      "take (length ?txt) m = ?txt" "length m = length ?txt"
    using PL_Base64EncodeBuffer_text [OF assms(1,3,4,5,6), of None maxdestlen destlen] assms(2) by auto
  then show ?thesis using len by simp
qed

theorem base64_encode_exact_length_witness:
  "\<exists>m n. PL_Base64EncodeBuffer zero_nspr [77, 97, 110, 33] 4 5 None 0 0 = Inr (Some m, n) \<and>
    m = b64_text 4 [77, 97, 110, 33] \<and> n = PL_Base64MaxEncodedLength 4 5 \<and> length m = unat n"
  using base64_encode_exact_length [OF zero_nspr_ok zero_nspr_total, of "[77, 97, 110, 33]" 4 5] by simp

end
