(* ===== verification/Base64_Decode.thy ===== *)
theory Base64_Decode
  imports Base64_Encode
begin

text \<open>
  \<^verbatim>\<open>lib/util/nssb64d.c\<close>: Base64 decoding, into a buffer and streaming to a callback, with
  its memory safety for every input and the round trip with the encoder.
\<close>

section \<open>The decoder\<close>

record 's PLBase64Decoder =
  de_token :: "byte list"
  de_token_size :: nat
  de_output :: "('s output_fn \<times> 's) option"
  de_output_buffer :: "byte list option"
  de_output_buflen :: u32
  de_output_length :: u32

definition sizeof_PLBase64Decoder :: nat where
  "sizeof_PLBase64Decoder = 40"

definition ct_u8_in_range :: "byte \<Rightarrow> byte \<Rightarrow> byte \<Rightarrow> byte" where
  "ct_u8_in_range x a b = word_of_int (drop_bit 8 ((uint a - uint x - 1) AND (uint x - uint b - 1)))"

definition pl_base64_codetovaluep1 :: "byte \<Rightarrow> byte" where
  "pl_base64_codetovaluep1 code =
     (ct_u8_in_range code (of_char (CHR ''A'')) (of_char (CHR ''Z'')) AND (code - of_char (CHR ''A'') + 1)) OR
     (ct_u8_in_range code (of_char (CHR ''a'')) (of_char (CHR ''z'')) AND (code - of_char (CHR ''a'') + 27)) OR
     (ct_u8_in_range code (of_char (CHR ''0'')) (of_char (CHR ''9'')) AND (code - of_char (CHR ''0'') + 53)) OR
     (ct_u8_in_range code (of_char (CHR ''+'')) (of_char (CHR ''+'')) AND 63) OR
     (ct_u8_in_range code (of_char (CHR ''/'')) (of_char (CHR ''/'')) AND 64)"

text \<open>The three token decoders return the bytes they write, or \<open>None\<close> for -1.\<close>

definition pl_base64_decode_4to3 :: "byte list \<Rightarrow> byte list option" where
  "pl_base64_decode_4to3 tok =
     (let bits = map pl_base64_codetovaluep1 (take 4 tok) in
      if 0 \<in> set bits then None
      else
        let num = foldl (\<lambda>num b. push_bit 6 num OR ucast (b - 1)) (0 :: u32) bits in
        Some [ucast (drop_bit 16 num), ucast (drop_bit 8 num AND 0xFF), ucast (num AND 0xFF)])"

definition pl_base64_decode_3to2 :: "byte list \<Rightarrow> byte list option" where
  "pl_base64_decode_3to2 tok =
     (let bits1 = pl_base64_codetovaluep1 (tok ! 0); bits2 = pl_base64_codetovaluep1 (tok ! 1);
          bits3 = pl_base64_codetovaluep1 (tok ! 2)
      in if bits1 = 0 \<or> bits2 = 0 \<or> bits3 = 0 then None
         else
           let num = push_bit 10 (ucast (bits1 - 1)) OR push_bit 4 (ucast (bits2 - 1)) OR
                     drop_bit 2 (ucast (bits3 - 1)) :: u32
           in Some [ucast (drop_bit 8 num), ucast (num AND 0xFF)])"

definition pl_base64_decode_2to1 :: "byte list \<Rightarrow> byte list option" where
  "pl_base64_decode_2to1 tok =
     (let bits1 = pl_base64_codetovaluep1 (tok ! 0); bits2 = pl_base64_codetovaluep1 (tok ! 1) in
      if bits1 = 0 \<or> bits2 = 0 then None
      else Some [ucast (push_bit 2 (ucast (bits1 - 1)) OR drop_bit 4 (ucast (bits2 - 1)) :: u32)])"

definition pl_base64_decode_token :: "byte list \<Rightarrow> byte list option" where
  "pl_base64_decode_token tok =
     (if tok ! 3 \<noteq> B64_PAD then pl_base64_decode_4to3 tok
      else if tok ! 2 = B64_PAD then pl_base64_decode_2to1 tok
      else pl_base64_decode_3to2 tok)"

text \<open>
  The inner loop collects a token, skipping characters outside the alphabet. The outer loop decodes
  tokens until the input ends or a token has padding. A block that is missing has no bytes.
\<close>

fun decode_fill :: "byte list \<Rightarrow> nat \<Rightarrow> byte list \<Rightarrow> byte list \<times> nat \<times> byte list" where
  "decode_fill token i [] = (token, i, [])"
| "decode_fill token i (c # cs) =
     (if i < 4
      then if pl_base64_codetovaluep1 c > 0 \<or> c = B64_PAD
           then decode_fill (token[i := c]) (i + 1) cs
           else decode_fill token i cs
      else (token, i, c # cs))"

lemma decode_fill_shorter:
  "decode_fill token i inp = (token', i', rest) \<Longrightarrow>
     length rest \<le> length inp \<and> (i < 4 \<and> 4 \<le> i' \<longrightarrow> length rest < length inp)"
  by (induction token i inp rule: decode_fill.induct) (auto split: if_splits)

function decode_loop ::
    "byte list \<Rightarrow> nat \<Rightarrow> byte list \<Rightarrow> nat \<Rightarrow> byte list \<Rightarrow>
     (byte list \<times> nat \<times> byte list \<times> nat \<times> byte list \<times> bool) result" where
  "decode_loop token i buf pos inp =
     (if inp = [] then Inr (token, 0, buf, pos, [], False)
      else case decode_fill token i inp of (token, i', rest) \<Rightarrow>
        if i' < 4 then Inr (token, i', buf, pos, rest, False)
        else case pl_base64_decode_4to3 token of
               None \<Rightarrow> Inr (token, 0, buf, pos, rest, True)
             | Some bs \<Rightarrow>
                 (case mem_write buf pos bs of
                    Inl e \<Rightarrow> Inl e
                  | Inr buf \<Rightarrow> decode_loop token 0 buf (pos + length bs) rest))"
  by pat_completeness auto
termination
  by (relation "measure (\<lambda>(token, i, buf, pos, inp). 2 * length inp + (if 4 \<le> i then 1 else 0))")
    (auto dest!: decode_fill_shorter [OF sym])

declare decode_loop.simps [simp del]

definition decode_last :: "byte list \<Rightarrow> bool \<Rightarrow> byte list \<Rightarrow> nat \<Rightarrow> (byte list \<times> nat) result" where
  "decode_last token stopped buf pos =
     (if stopped
      then case pl_base64_decode_token token of
             None \<Rightarrow> Inl NO_ERROR_SET
           | Some bs \<Rightarrow> res_bind (mem_write buf pos bs) (\<lambda>buf. Inr (buf, pos + length bs))
      else Inr (buf, pos))"

definition pl_base64_decode_buffer ::
    "'s PLBase64Decoder \<Rightarrow> byte list \<Rightarrow> unit result \<times> 's PLBase64Decoder" where
  "pl_base64_decode_buffer data inp =
     (let buf = (case de_output_buffer data of None \<Rightarrow> [] | Some m \<Rightarrow> m) in
      case decode_loop (de_token data) (de_token_size data) buf 0 inp of
        Inl e \<Rightarrow> (Inl e, data)
      | Inr (token, token_size, buf, pos, rest, stopped) \<Rightarrow>
          let data = data\<lparr>de_token := token, de_token_size := token_size,
                          de_output_buffer := map_option (\<lambda>_. buf) (de_output_buffer data)\<rparr>
          in case decode_last token stopped buf pos of
               Inl e \<Rightarrow> (Inl e, data)
             | Inr (buf, pos) \<Rightarrow>
                 let data = data\<lparr>de_output_buffer := map_option (\<lambda>_. buf) (de_output_buffer data)\<rparr> in
                 if \<exists>c \<in> set rest. pl_base64_codetovaluep1 c > 0 then (Inl NO_ERROR_SET, data)
                 else (Inr (), data\<lparr>de_output_length := of_nat pos\<rparr>))"

definition pl_base64_decode_flush :: "'s PLBase64Decoder \<Rightarrow> unit result \<times> 's PLBase64Decoder" where
  "pl_base64_decode_flush data =
     (if de_token_size data = 0 \<or> de_token data ! 0 = B64_PAD then (Inr (), data)
      else case de_output_buffer data of
        None \<Rightarrow> (Inl NO_ERROR_SET, data)
      | Some buf \<Rightarrow>
          let token = take (de_token_size data) (de_token data) @ replicate (4 - de_token_size data) B64_PAD;
              data = data\<lparr>de_token := token, de_token_size := 0\<rparr>
          in case pl_base64_decode_token token of
               None \<Rightarrow> (Inl NO_ERROR_SET, data)
             | Some bs \<Rightarrow>
                 (case mem_write buf (unat (de_output_length data)) bs of
                    Inl e \<Rightarrow> (Inl e, data)
                  | Inr buf \<Rightarrow>
                      let data = data\<lparr>de_output_buffer := Some buf\<rparr> in
                      case de_output data of
                        Some (output_fn, arg) \<Rightarrow>
                          (case output_fn arg (take (length bs) buf) of (arg, output_result) \<Rightarrow>
                             (if output_result < 0 then Inl NO_ERROR_SET else Inr (),
                              data\<lparr>de_output := Some (output_fn, arg)\<rparr>))
                      | None \<Rightarrow>
                          (Inr (), data\<lparr>de_output_length := de_output_length data + of_nat (length bs)\<rparr>)))"

definition PL_Base64MaxDecodedLength :: "u32 \<Rightarrow> u32" where
  "PL_Base64MaxDecodedLength size32 = ucast ((ucast size32 :: u64) * 3 div 4)"

definition pl_base64_create_decoder :: "nspr \<Rightarrow> 's PLBase64Decoder result" where
  "pl_base64_create_decoder h =
     (case PR_Calloc h sizeof_PLBase64Decoder of
        None \<Rightarrow> Inl NO_ERROR_SET
      | Some _ \<Rightarrow>
          Inr \<lparr>de_token = [0, 0, 0, 0], de_token_size = 0, de_output = None, de_output_buffer = None,
               de_output_buflen = 0, de_output_length = 0\<rparr>)"

definition PL_CreateBase64Decoder ::
    "nspr \<Rightarrow> ('s output_fn \<times> 's) option \<Rightarrow> 's PLBase64Decoder result" where
  "PL_CreateBase64Decoder h output =
     (if output = None then Inl PR_INVALID_ARGUMENT_ERROR
      else res_bind (pl_base64_create_decoder h) (\<lambda>data. Inr (data\<lparr>de_output := output\<rparr>)))"

definition PL_UpdateBase64Decoder ::
    "nspr \<Rightarrow> 's PLBase64Decoder \<Rightarrow> byte list option \<Rightarrow> u32 \<Rightarrow> unit result \<times> 's PLBase64Decoder" where
  "PL_UpdateBase64Decoder h data buffer size32 =
     (case buffer of
        None \<Rightarrow> (Inl PR_INVALID_ARGUMENT_ERROR, data)
      | Some b \<Rightarrow>
          if size32 = 0 \<or> size32 > 0xffffffff - of_nat (de_token_size data)
          then (Inl PR_INVALID_ARGUMENT_ERROR, data)
          else
            let need_length = PL_Base64MaxDecodedLength (size32 + of_nat (de_token_size data)) in
            case (if need_length > de_output_buflen data
                  then map_option (\<lambda>m. data\<lparr>de_output_buffer := Some m, de_output_buflen := need_length\<rparr>)
                         (case de_output_buffer data of
                            Some m \<Rightarrow> PR_Realloc h m (unat need_length)
                          | None \<Rightarrow> PR_Malloc h (unat need_length))
                  else Some data) of
              None \<Rightarrow> (Inl NO_ERROR_SET, data)
            | Some data \<Rightarrow>
                (case mem_read b 0 (unat size32) of
                   Inl e \<Rightarrow> (Inl e, data)
                 | Inr inp \<Rightarrow>
                     (case pl_base64_decode_buffer (data\<lparr>de_output_length := 0\<rparr>) inp of
                        (Inl e, data) \<Rightarrow> (Inl e, data\<lparr>de_output_length := 0\<rparr>)
                      | (Inr _, data) \<Rightarrow>
                          (case (de_output data, de_output_buffer data) of
                             (Some (output_fn, arg), Some buf) \<Rightarrow>
                               if de_output_length data > 0
                               then case output_fn arg (take (unat (de_output_length data)) buf) of
                                      (arg, output_result) \<Rightarrow>
                                        (if output_result < 0 then Inl NO_ERROR_SET else Inr (),
                                         data\<lparr>de_output := Some (output_fn, arg), de_output_length := 0\<rparr>)
                               else (Inr (), data\<lparr>de_output_length := 0\<rparr>)
                           | _ \<Rightarrow>
                               (if de_output_length data > 0 then Inl UNDEFINED_BEHAVIOUR else Inr (),
                                data\<lparr>de_output_length := 0\<rparr>)))))"

definition PL_DestroyBase64Decoder ::
    "'s PLBase64Decoder \<Rightarrow> bool \<Rightarrow> unit result \<times> 's PLBase64Decoder" where
  "PL_DestroyBase64Decoder data abort_p =
     (if abort_p then (Inr (), data) else pl_base64_decode_flush data)"

definition PL_Base64DecodeBuffer ::
    "nspr \<Rightarrow> byte list \<Rightarrow> u32 \<Rightarrow> byte list option \<Rightarrow> u32 \<Rightarrow> (byte list \<times> u32) result" where
  "PL_Base64DecodeBuffer h src srclen dest maxdestlen =
     (if srclen = 0 then Inl PR_INVALID_ARGUMENT_ERROR
      else
        let need_length = PL_Base64MaxDecodedLength srclen in
        if dest \<noteq> None \<and> maxdestlen < need_length then Inl PR_BUFFER_OVERFLOW_ERROR
        else case (case dest of None \<Rightarrow> PR_Malloc h (unat need_length) | d \<Rightarrow> d) of
          None \<Rightarrow> Inl NO_ERROR_SET
        | Some output_buffer \<Rightarrow>
            res_bind (pl_base64_create_decoder h) (\<lambda>data :: unit PLBase64Decoder.
            res_bind (mem_read src 0 (unat srclen)) (\<lambda>inp.
            case pl_base64_decode_buffer
                   (data\<lparr>de_output_buflen := if dest = None then need_length else maxdestlen,
                         de_output_buffer := Some output_buffer\<rparr>) inp of
              (Inl e, _) \<Rightarrow> Inl e
            | (Inr _, data) \<Rightarrow>
                (case pl_base64_decode_flush data of
                   (Inl e, _) \<Rightarrow> Inl e
                 | (Inr _, data) \<Rightarrow>
                     (case PL_DestroyBase64Decoder (data\<lparr>de_output_buffer := None\<rparr>) False of
                        (Inl e, _) \<Rightarrow> Inl e
                      | (Inr _, _) \<Rightarrow>
                          (case de_output_buffer data of
                             None \<Rightarrow> Inl UNDEFINED_BEHAVIOUR
                           | Some buf \<Rightarrow> Inr (buf, de_output_length data)))))))"

section \<open>The NSS cover functions\<close>

definition NSSBase64Decoder_Create ::
    "nspr \<Rightarrow> ('s output_fn \<times> 's) option \<Rightarrow> 's PLBase64Decoder result" where
  "NSSBase64Decoder_Create h output = res_bind (PORT_ZAlloc h 8) (\<lambda>_. PL_CreateBase64Decoder h output)"

definition NSSBase64Decoder_Update ::
    "nspr \<Rightarrow> 's PLBase64Decoder option \<Rightarrow> byte list option \<Rightarrow> u32 \<Rightarrow>
     unit result \<times> 's PLBase64Decoder option" where
  "NSSBase64Decoder_Update h data buffer size32 =
     (case data of
        None \<Rightarrow> (Inl SEC_ERROR_INVALID_ARGS, None)
      | Some data \<Rightarrow> map_prod id Some (PL_UpdateBase64Decoder h data buffer size32))"

definition NSSBase64Decoder_Destroy ::
    "'s PLBase64Decoder option \<Rightarrow> bool \<Rightarrow> unit result \<times> 's PLBase64Decoder option" where
  "NSSBase64Decoder_Destroy data abort_p =
     (case data of
        None \<Rightarrow> (Inl SEC_ERROR_INVALID_ARGS, None)
      | Some data \<Rightarrow> map_prod id Some (PL_DestroyBase64Decoder data abort_p))"

text \<open>A failing call returns, beside the error, what it leaves in the caller's item.\<close>

definition NSSBase64_DecodeBuffer ::
    "nspr \<Rightarrow> bool \<Rightarrow> SECItem option \<Rightarrow> byte list \<Rightarrow> u32 \<Rightarrow> (sec_error \<times> SECItem option) + SECItem" where
  "NSSBase64_DecodeBuffer h arenaOpt outItemOpt inStr inLen =
     (if (case outItemOpt of None \<Rightarrow> False | Some it \<Rightarrow> si_data it \<noteq> None) \<or> inLen = 0
      then Inl (SEC_ERROR_INVALID_ARGS, outItemOpt)
      else
        let max_out_len = PL_Base64MaxDecodedLength inLen in
        if max_out_len = 0
        then Inl (NO_ERROR_SET, if arenaOpt then map_option SECITEM_FreeItem outItemOpt else outItemOpt)
        else case SECITEM_AllocItem h arenaOpt outItemOpt max_out_len of
          Inl (e, it) \<Rightarrow> Inl (e, it)
        | Inr out_item \<Rightarrow>
            (case PL_Base64DecodeBuffer h inStr inLen (si_data out_item) max_out_len of
               Inl e \<Rightarrow> Inl (e, map_option (\<lambda>_. SECITEM_FreeItem out_item) outItemOpt)
             | Inr (buf, len) \<Rightarrow> Inr (out_item\<lparr>si_data := Some buf, si_len := len\<rparr>)))"

definition PORT_Strlen :: "byte list \<Rightarrow> nat result" where
  "PORT_Strlen s = (if 0 \<in> set s then Inr (length (takeWhile (\<lambda>c. c \<noteq> 0) s)) else Inl UNDEFINED_BEHAVIOUR)"

definition ATOB_AsciiToData :: "nspr \<Rightarrow> byte list \<Rightarrow> (byte list option \<times> u32) result" where
  "ATOB_AsciiToData h str =
     res_bind (PORT_Strlen str) (\<lambda>n.
     case NSSBase64_DecodeBuffer h False (Some empty_item) str (of_nat n) of
       Inl (e, _) \<Rightarrow> Inl e
     | Inr dummy \<Rightarrow> Inr (si_data dummy, si_len dummy))"

definition ATOB_ConvertAsciiToItem :: "nspr \<Rightarrow> SECItem option \<Rightarrow> byte list \<Rightarrow> SECItem result" where
  "ATOB_ConvertAsciiToItem h binary_item ascii =
     (case binary_item of
        None \<Rightarrow> Inl SEC_ERROR_INVALID_ARGS
      | Some it \<Rightarrow>
          res_bind (PORT_Strlen ascii) (\<lambda>n.
          case NSSBase64_DecodeBuffer h False (Some (it\<lparr>si_data := None, si_len := 0\<rparr>)) ascii (of_nat n) of
            Inl (e, _) \<Rightarrow> Inl e
          | Inr dummy \<Rightarrow> Inr dummy))"

section \<open>The alphabet\<close>

lemma ct_u8_in_range_mask: "ct_u8_in_range x a b = (if a \<le> x \<and> x \<le> b then 0xFF else 0)"
proof -
  have shift: "drop_bit 8 (k :: int) = (if k < 0 then - 1 else 0)" if "- 256 \<le> k" "k < 256" for k
    using that by (simp add: drop_bit_eq_div) presburger
  have r: "0 \<le> uint y" "uint y < 256" for y :: byte
    using unsigned_less [of y, where 'a = int] by simp_all
  have "drop_bit 8 ((uint a - uint x - 1) AND (uint x - uint b - 1)) =
      drop_bit 8 (uint a - uint x - 1) AND drop_bit 8 (uint x - uint b - 1)"
    by (rule drop_bit_and)
  also have "\<dots> = (if uint a \<le> uint x then - 1 else 0) AND (if uint x \<le> uint b then - 1 else 0)"
  proof -
    have "drop_bit 8 (uint y - uint z - 1) = (if uint y \<le> uint z then - 1 else 0)" for y z :: byte
    proof -
      have "- 256 \<le> uint y - uint z - 1" "uint y - uint z - 1 < 256" using r [of y] r [of z] by linarith+
      from shift [OF this] show ?thesis by auto
    qed
    then show ?thesis by simp
  qed
  finally show ?thesis by (simp add: ct_u8_in_range_def word_le_def)
qed

lemma codetovaluep1_ranges:
  "pl_base64_codetovaluep1 c =
     (if 65 \<le> c \<and> c \<le> 90 then c - 64
      else if 97 \<le> c \<and> c \<le> 122 then c - 70
      else if 48 \<le> c \<and> c \<le> 57 then 5 + c
      else if c = 43 then 63 else if c = 47 then 64 else 0)"
proof -
  have "(0xFF :: byte) = - 1" by simp
  then have full: "0xFF AND w = (w :: byte)" for w by (metis and.left_neutral)
  show ?thesis
    unfolding pl_base64_codetovaluep1_def ct_u8_in_range_mask
    by (auto simp: full word_le_nat_alt word_unat_eq_iff)
qed

lemma valuetocode_unat:
  "map unat base64_valuetocode = [65..<91] @ [97..<123] @ [48..<58] @ [43, 47]"
  by (simp add: base64_valuetocode_def upt_conv_Cons)

lemma code_roundtrip: "k < 64 \<Longrightarrow> pl_base64_codetovaluep1 (base64_valuetocode ! k) = word_of_nat (k + 1)"
proof -
  assume k: "k < 64"
  let ?c = "base64_valuetocode ! k"
  have len: "length base64_valuetocode = 64" by (simp add: base64_valuetocode_def)
  have "unat ?c = ([65..<91] @ [97..<123] @ [48..<58] @ [43, 47]) ! k"
    using k len by (subst valuetocode_unat [symmetric]) simp
  then have u: "unat ?c = (if k < 26 then 65 + k else if k < 52 then 71 + k else if k < 62 then k - 4
      else if k = 62 then 43 else 47)"
    using k by (auto simp: nth_append nth_Cons')
  have c: "?c = word_of_nat (unat ?c)" by simp
  consider "k < 26" | "26 \<le> k" "k < 52" | "52 \<le> k" "k < 62" | "k = 62" | "k = 63" using k by linarith
  then show ?thesis
  proof cases
    case 3
    then have c: "?c = word_of_nat k - 4" and u': "unat ?c = k - 4" using u c by simp_all
    have "48 \<le> k - 4" "k - 4 \<le> 57" using 3 by simp_all
    then have "pl_base64_codetovaluep1 ?c = 5 + ?c"
      using 3 unfolding codetovaluep1_ranges word_le_nat_alt u' by simp
    then show ?thesis by (simp add: c)
  qed (use u c in \<open>simp_all add: codetovaluep1_ranges word_le_nat_alt word_unat_eq_iff [of _ "43"]\<close>)
qed

lemma code_zero: "c \<notin> set base64_valuetocode \<Longrightarrow> pl_base64_codetovaluep1 c = 0"
proof -
  assume "c \<notin> set base64_valuetocode"
  then have "unat c \<notin> unat ` set base64_valuetocode"
    by (metis imageE word_unat_eq_iff)
  then have "unat c \<notin> {65..<91} \<union> {97..<123} \<union> {48..<58} \<union> {43, 47}"
    unfolding set_map [symmetric] valuetocode_unat set_append set_upt by simp
  then show ?thesis unfolding codetovaluep1_ranges word_le_nat_alt word_unat_eq_iff by auto
qed

lemma code_pad: "pl_base64_codetovaluep1 B64_PAD = 0" "pl_base64_codetovaluep1 B64_CR = 0"
    "pl_base64_codetovaluep1 B64_LF = 0" "B64_CR \<noteq> B64_PAD" "B64_LF \<noteq> B64_PAD"
  by (simp_all add: codetovaluep1_ranges B64_PAD_def B64_CR_def B64_LF_def)

section \<open>Decoding tokens\<close>

lemma push_or_digit:
  assumes "d < 2 ^ k"
  shows "push_bit k (word_of_nat x :: 'a::len word) OR word_of_nat d = word_of_nat (x * 2 ^ k + d)"
proof -
  have "(push_bit k (word_of_nat x) :: 'a word) AND word_of_nat d = 0"
  proof (rule bit_word_eqI)
    fix n
    have "\<not> bit d n" if "k \<le> n" using assms that
      by (metis bit_take_bit_iff not_le take_bit_nat_eq_self)
    then show "bit ((push_bit k (word_of_nat x) :: 'a word) AND word_of_nat d) n = bit (0 :: 'a word) n"
      by (auto simp: bit_simps)
  qed
  then show ?thesis by (simp add: disjunctive_add_eq_or [symmetric] push_bit_eq_mult mult.commute)
qed

lemma code_value:
  assumes "d < 64"
  shows "pl_base64_codetovaluep1 (base64_valuetocode ! d) \<noteq> 0"
    "ucast (pl_base64_codetovaluep1 (base64_valuetocode ! d) - 1) = (word_of_nat d :: u32)"
proof -
  show "pl_base64_codetovaluep1 (base64_valuetocode ! d) \<noteq> 0"
    using assms by (simp add: code_roundtrip word_unat_eq_iff unat_of_nat take_bit_nat_eq_self del: of_nat_Suc)
  have "pl_base64_codetovaluep1 (base64_valuetocode ! d) - 1 = word_of_nat d"
    using assms by (simp add: code_roundtrip)
  then show "ucast (pl_base64_codetovaluep1 (base64_valuetocode ! d) - 1) = (word_of_nat d :: u32)"
    using assms by (simp add: word_unat_eq_iff unat_of_nat take_bit_nat_eq_self unat_ucast_le)
qed

lemma ucast_drop_byte: "ucast (drop_bit j (word_of_nat v :: u32)) = (word_of_nat (v div 2 ^ j) :: byte)" if "v < 2 ^ 32"
  using that by (simp add: word_unat_eq_iff unsigned_ucast_eq unat_drop_bit_div unat_of_nat take_bit_nat_eq_self take_bit_eq_mod)

lemma ucast_and_ff: "ucast ((w :: u32) AND 0xFF) = (ucast w :: byte)"
proof -
  have "ucast (w AND mask 8) = (ucast w :: byte)" by (auto intro!: bit_word_eqI simp: bit_simps)
  then show ?thesis by (simp add: mask_eq_exp_minus_1)
qed

lemma base64_digits_sum:
  fixes v :: nat assumes "v < 2 ^ 24"
  shows "((v div 64 ^ 3 mod 64 * 64 + v div 64 ^ 2 mod 64) * 64 + v div 64 ^ 1 mod 64) * 64 + v div 64 ^ 0 mod 64 = v"
proof -
  have "v div 64 = v div 64 div 64 * 64 + v div 64 mod 64"
    "v div 64 div 64 = v div 64 div 64 div 64 * 64 + v div 64 div 64 mod 64"
    "v = v div 64 * 64 + v mod 64"
    by (simp_all only: div_mult_mod_eq)
  moreover have "v div 64 div 64 div 64 mod 64 = v div 64 div 64 div 64"
    using assms by (simp add: div_mult2_eq [symmetric])
  moreover have "v div 64 ^ 3 = v div 64 div 64 div 64" "v div 64 ^ 2 = v div 64 div 64"
    by (simp_all add: div_mult2_eq [symmetric])
  ultimately show ?thesis by simp
qed

lemma push_or_code:
  "d < 64 \<Longrightarrow> push_bit 6 (word_of_nat x :: u32) OR ucast (pl_base64_codetovaluep1 (base64_valuetocode ! d) - 1) =
     word_of_nat (x * 64 + d)"
  using push_or_digit [of d 6 x] code_value(2) [of d] by simp

lemma decode_4to3_digits:
  assumes "v < 2 ^ 24"
  shows "pl_base64_decode_4to3 (b64_digits v) = Some (be_bytes 3 v)"
proof -
  let ?d = "\<lambda>k. v div 64 ^ k mod 64"
  have lt: "?d k < 64" for k by simp
  have "foldl (\<lambda>num b. push_bit 6 num OR ucast (b - 1)) (word_of_nat 0 :: u32)
      (map pl_base64_codetovaluep1 (b64_digits v)) =
      word_of_nat ((((0 * 64 + ?d 3) * 64 + ?d 2) * 64 + ?d 1) * 64 + ?d 0)"
    unfolding b64_digits_def list.map foldl.simps push_or_code [OF lt] ..
  then have num: "foldl (\<lambda>num b. push_bit 6 num OR ucast (b - 1)) (0 :: u32)
      (map pl_base64_codetovaluep1 (b64_digits v)) = word_of_nat v"
    using base64_digits_sum [OF assms] by (simp only: mult_0 add_0) simp
  have nz: "0 \<notin> set (map pl_base64_codetovaluep1 (b64_digits v))"
    using code_value(1) [of "v div 262144 mod 64"] code_value(1) [of "v div 4096 mod 64"]
      code_value(1) [of "v div 64 mod 64"] code_value(1) [of "v mod 64"]
    by (auto simp: b64_digits_def)
  have v: "v < 2 ^ 32" using assms by simp
  have "take 4 (b64_digits v) = b64_digits v" by simp
  then have "pl_base64_decode_4to3 (b64_digits v) =
      Some [ucast (drop_bit 16 (word_of_nat v :: u32)), ucast (drop_bit 8 (word_of_nat v :: u32) AND 0xFF),
            ucast ((word_of_nat v :: u32) AND 0xFF)]"
    unfolding pl_base64_decode_4to3_def Let_def using nz num by simp
  also have "\<dots> = Some (be_bytes 3 v)"
    using ucast_drop_byte [OF v, of 16] ucast_drop_byte [OF v, of 8] ucast_drop_byte [OF v, of 0]
    by (simp add: ucast_and_ff be_bytes_numeral div_mult2_eq [symmetric])
  finally show ?thesis .
qed

lemma decode_token_one:
  "pl_base64_decode_token (take 2 (b64_digits (be_value [a, 0, 0])) @ [B64_PAD, B64_PAD]) = Some [a]"
proof -
  define x where "x = unat a"
  have x: "x < 256" by (simp add: x_def)
  let ?v = "be_value [a, 0, 0]"
  have v: "?v = 262144 * (x div 4) + 65536 * (x mod 4)"
  proof -
    have "x = 4 * (x div 4) + x mod 4" by simp
    then have "65536 * x = 262144 * (x div 4) + 65536 * (x mod 4)" by linarith
    then show ?thesis by (simp add: be_simps x_def)
  qed
  have q: "?v div 64 ^ 3 = x div 4" "?v div 64 ^ 2 = 64 * (x div 4) + x mod 4 * 16"
    unfolding v by (simp_all add: div_nat_eqI)
  have d: "?v div 64 ^ 3 mod 64 = x div 4" "?v div 64 ^ 2 mod 64 = x mod 4 * 16"
    unfolding q mod_mult_self4 using x by simp_all
  have lt: "x div 4 < 64" "x mod 4 * 16 < 64" using x by simp_all
  have "drop_bit 4 (word_of_nat (x mod 4 * 16)) = (word_of_nat (x mod 4) :: u32)"
    by (simp add: word_unat_eq_iff unat_drop_bit_div unat_of_nat take_bit_nat_eq_self del: of_nat_mult)
  moreover have "push_bit 2 (word_of_nat (x div 4)) OR word_of_nat (x mod 4) = (word_of_nat x :: u32)"
    using push_or_digit [of "x mod 4" 2 "x div 4"] by simp
  moreover have "ucast (word_of_nat x :: u32) = a"
  proof -
    have "x < 2 ^ 32" using x by simp
    from ucast_drop_byte [OF this, of 0] show ?thesis by (simp add: x_def)
  qed
  ultimately show ?thesis
    using code_value [OF lt(1)] code_value [OF lt(2)] d
    by (simp add: pl_base64_decode_token_def pl_base64_decode_2to1_def b64_digits_def)
qed

lemma decode_token_two:
  "pl_base64_decode_token (take 3 (b64_digits (be_value [a, b, 0])) @ [B64_PAD]) = Some [a, b]"
proof -
  define p q r t where "p = unat a div 4" and "q = unat a mod 4" and "r = unat b div 16" and "t = unat b mod 16"
  have ab: "unat a = 4 * p + q" "unat b = 16 * r + t" by (simp_all add: p_def q_def r_def t_def)
  have lt: "p < 64" "q < 4" "r < 16" "t < 16"
    using unat_byte_less [of a] unat_byte_less [of b]
    by (simp_all add: p_def q_def r_def t_def less_mult_imp_div_less del: unat_byte_less)
  let ?v = "be_value [a, b, 0]"
  have v: "?v = 262144 * p + 65536 * q + 4096 * r + 256 * t" by (simp add: be_simps ab)
  have q: "?v div 64 ^ 3 = p" "?v div 64 ^ 2 = 64 * p + (16 * q + r)" "?v div 64 ^ 1 = 64 * (64 * p + 16 * q + r) + 4 * t"
    unfolding v using lt by (simp_all add: div_nat_eqI)
  have d: "?v div 64 ^ 3 mod 64 = p" "?v div 64 ^ 2 mod 64 = 16 * q + r" "?v div 64 ^ 1 mod 64 = 4 * t"
    unfolding q mod_mult_self4 using lt by simp_all
  have c: "16 * q + r < 64" "4 * t < 64" using lt by simp_all
  have 1: "drop_bit 2 (word_of_nat (4 * t)) = (word_of_nat t :: u32)"
    using lt by (simp add: word_unat_eq_iff unat_drop_bit_div unat_of_nat take_bit_nat_eq_self del: of_nat_mult)
  have 2: "push_bit 4 (word_of_nat (16 * q + r)) OR word_of_nat t = (word_of_nat ((16 * q + r) * 2 ^ 4 + t) :: u32)"
    by (rule push_or_digit) (use lt in simp)
  have 3: "push_bit 10 (word_of_nat p) OR word_of_nat ((16 * q + r) * 2 ^ 4 + t) =
      (word_of_nat (p * 2 ^ 10 + ((16 * q + r) * 2 ^ 4 + t)) :: u32)"
    by (rule push_or_digit) (use lt in simp)
  have n: "p * 2 ^ 10 + ((16 * q + r) * 2 ^ 4 + t) = unat a * 256 + unat b" by (simp add: ab)
  have low: "(word_of_nat (unat a * 256 + unat b) :: byte) = b"
    by (simp add: word_unat_eq_iff unat_of_nat take_bit_eq_mod del: of_nat_add of_nat_mult)
  have 4: "ucast (drop_bit 8 (word_of_nat (unat a * 256 + unat b) :: u32)) = a"
    "ucast (word_of_nat (unat a * 256 + unat b) :: u32) = b"
    using ucast_drop_byte [of "unat a * 256 + unat b" 8] ucast_drop_byte [of "unat a * 256 + unat b" 0]
      unat_byte_less [of a] unat_byte_less [of b] by (simp_all add: low del: of_nat_add of_nat_mult unat_byte_less)
  have "base64_valuetocode ! (4 * t) \<noteq> B64_PAD" using code_value(1) [OF c(2)] code_pad(1) by metis
  then show ?thesis
    using code_value [OF lt(1)] code_value [OF c(1)] code_value [OF c(2)] 1 2 3 4 d n lt
    by (simp add: pl_base64_decode_token_def pl_base64_decode_3to2_def b64_digits_def ucast_and_ff
       del: of_nat_add of_nat_mult)
qed

section \<open>Decoding a chunk of text\<close>

definition b64_relevant :: "byte \<Rightarrow> bool" where
  "b64_relevant c \<longleftrightarrow> pl_base64_codetovaluep1 c > 0 \<or> c = B64_PAD"

lemma decode_fill_partial:
  "length token = 4 \<Longrightarrow> i + length (filter b64_relevant inp) < 4 \<Longrightarrow>
     \<exists>token'. decode_fill token i inp = (token', i + length (filter b64_relevant inp), []) \<and> length token' = 4 \<and>
       take (i + length (filter b64_relevant inp)) token' = take i token @ filter b64_relevant inp"
proof (induction token i inp rule: decode_fill.induct)
  case (2 token i c cs)
  show ?case
  proof (cases "b64_relevant c")
    case True
    then obtain token' where "decode_fill (token[i := c]) (i + 1) cs = (token', i + 1 + length (filter b64_relevant cs), [])"
        "length token' = 4"
        "take (i + 1 + length (filter b64_relevant cs)) token' = take (i + 1) (token[i := c]) @ filter b64_relevant cs"
      using "2.IH"(1) "2.prems" by (auto simp: b64_relevant_def [of c])
    moreover have "take (i + 1) (token[i := c]) = take i token @ [c]"
      using "2.prems" True by (simp add: take_Suc_conv_app_nth)
    ultimately show ?thesis using "2.prems" True by (auto simp: b64_relevant_def [of c])
  next
    case False
    then show ?thesis using "2.IH"(2) "2.prems" by (auto simp: b64_relevant_def [of c])
  qed
qed simp

lemma decode_fill_full:
  "length token = 4 \<Longrightarrow> i \<le> 4 \<Longrightarrow> 4 \<le> i + length (filter b64_relevant inp) \<Longrightarrow>
     \<exists>rest. decode_fill token i inp = (take i token @ take (4 - i) (filter b64_relevant inp), 4, rest) \<and>
       filter b64_relevant rest = drop (4 - i) (filter b64_relevant inp) \<and> length rest + (4 - i) \<le> length inp"
proof (induction token i inp rule: decode_fill.induct)
  case (2 token i c cs)
  show ?case
  proof (cases "i = 4")
    case False
    then have i: "i < 4" using "2.prems" by simp
    show ?thesis
    proof (cases "b64_relevant c")
      case True
      then obtain rest where "decode_fill (token[i := c]) (i + 1) cs =
            (take (i + 1) (token[i := c]) @ take (4 - (i + 1)) (filter b64_relevant cs), 4, rest)"
          "filter b64_relevant rest = drop (4 - (i + 1)) (filter b64_relevant cs)" "length rest + (4 - (i + 1)) \<le> length cs"
        using "2.IH"(1) "2.prems" i by (auto simp: b64_relevant_def [of c])
      moreover have "take (i + 1) (token[i := c]) = take i token @ [c]"
        using "2.prems" i by (simp add: take_Suc_conv_app_nth)
      moreover have "4 - i = Suc (4 - (i + 1))" using i by simp
      ultimately show ?thesis using i True by (auto simp: b64_relevant_def [of c])
    next
      case False
      then show ?thesis using "2.IH"(2) "2.prems" i by (auto simp: b64_relevant_def [of c])
    qed
  qed (use "2.prems" in auto)
qed simp

lemma decode_4to3_length: "pl_base64_decode_4to3 tok = Some bs \<Longrightarrow> length bs = 3"
  by (auto simp: pl_base64_decode_4to3_def Let_def split: if_splits)

lemma decode_token_length: "pl_base64_decode_token tok = Some bs \<Longrightarrow> length bs \<le> 3"
  by (auto simp: pl_base64_decode_token_def pl_base64_decode_3to2_def pl_base64_decode_2to1_def Let_def
      dest: decode_4to3_length split: if_splits)

lemma decode_loop_partial:
  assumes "length token = 4" "i + length (filter b64_relevant inp) < 4" "inp = [] \<longrightarrow> i = 0"
  shows "\<exists>token'. decode_loop token i buf pos inp =
      Inr (token', i + length (filter b64_relevant inp), buf, pos, [], False) \<and> length token' = 4 \<and>
      take (i + length (filter b64_relevant inp)) token' = take i token @ filter b64_relevant inp"
  using decode_fill_partial [OF assms(1,2)] assms by (subst decode_loop.simps) auto

lemma decode_loop_full:
  assumes "length token = 4" "i < 4" "4 \<le> i + length (filter b64_relevant inp)"
  shows "\<exists>rest. decode_loop token i buf pos inp =
      (let token = take i token @ take (4 - i) (filter b64_relevant inp) in
       case pl_base64_decode_4to3 token of
         None \<Rightarrow> Inr (token, 0, buf, pos, rest, True)
       | Some bs \<Rightarrow>
           (case mem_write buf pos bs of
              Inl e \<Rightarrow> Inl e
            | Inr buf \<Rightarrow> decode_loop token 0 buf (pos + length bs) rest)) \<and>
      filter b64_relevant rest = drop (4 - i) (filter b64_relevant inp) \<and> length rest + (4 - i) \<le> length inp"
proof -
  obtain rest where "decode_fill token i inp = (take i token @ take (4 - i) (filter b64_relevant inp), 4, rest)"
      "filter b64_relevant rest = drop (4 - i) (filter b64_relevant inp)" "length rest + (4 - i) \<le> length inp"
    using decode_fill_full [OF assms(1) _ assms(3)] assms(2) by auto
  moreover have "inp \<noteq> []" using assms(2,3) by auto
  ultimately show ?thesis by (intro exI [of _ rest]) (simp add: decode_loop.simps [of token i] Let_def)
qed

lemma decode_loop_safe:
  assumes "length token = 4" "i < 4" "inp = [] \<longrightarrow> i = 0" "pos + 3 * (i + length inp) div 4 \<le> length buf"
  shows "\<exists>token' i' buf' pos' rest fl. decode_loop token i buf pos inp = Inr (token', i', buf', pos', rest, fl) \<and>
    length token' = 4 \<and> length buf' = length buf \<and> i' < 4 \<and> (fl \<longrightarrow> i' = 0) \<and>
    pos' + (if fl then 3 else 3 * i' div 4) \<le> pos + 3 * (i + length inp) div 4"
  using assms
proof (induction "length inp" arbitrary: token i buf pos inp rule: less_induct)
  case less
  have le: "length (filter b64_relevant inp) \<le> length inp" by simp
  show ?case
  proof (cases "i + length (filter b64_relevant inp) < 4")
    case True
    have "3 * (i + length (filter b64_relevant inp)) div 4 \<le> 3 * (i + length inp) div 4"
      using le by (intro div_le_mono) simp
    moreover obtain token' where "length token' = 4" "decode_loop token i buf pos inp =
        Inr (token', i + length (filter b64_relevant inp), buf, pos, [], False)"
      using decode_loop_partial [OF less.prems(1) True less.prems(3)] by blast
    ultimately show ?thesis using True
      by - (rule exI [of _ token'], rule exI [of _ "i + length (filter b64_relevant inp)"], rule exI [of _ buf], rule exI [of _ pos], rule exI [of _ "[]"], rule exI [of _ False], simp)
  next
    case False
    then have four: "4 \<le> i + length (filter b64_relevant inp)" by simp
    obtain rest where rest: "decode_loop token i buf pos inp =
        (let token = take i token @ take (4 - i) (filter b64_relevant inp) in
         case pl_base64_decode_4to3 token of
           None \<Rightarrow> Inr (token, 0, buf, pos, rest, True)
         | Some bs \<Rightarrow>
             (case mem_write buf pos bs of
                Inl e \<Rightarrow> Inl e
              | Inr buf \<Rightarrow> decode_loop token 0 buf (pos + length bs) rest))"
        "length rest + (4 - i) \<le> length inp"
      using decode_loop_full [OF less.prems(1,2) four] by blast
    let ?t = "take i token @ take (4 - i) (filter b64_relevant inp)"
    have t: "length ?t = 4" using less.prems(1,2) four by simp
    have room: "pos + 3 + 3 * (0 + length rest) div 4 \<le> pos + 3 * (i + length inp) div 4"
      using rest(2) less.prems(2) by simp
    show ?thesis
    proof (cases "pl_base64_decode_4to3 ?t")
      case None
      then have "decode_loop token i buf pos inp = Inr (?t, 0, buf, pos, rest, True)" using rest(1) by simp
      then show ?thesis using t room
        by - (rule exI [of _ ?t], rule exI [of _ 0], rule exI [of _ buf], rule exI [of _ pos],
          rule exI [of _ rest], rule exI [of _ True], simp)
    next
      case (Some bs)
      have bs: "length bs = 3" by (rule decode_4to3_length [OF Some])
      have lt: "length rest < length inp" using rest(2) less.prems(2) by simp
      obtain buf1 where buf1: "mem_write buf pos bs = Inr buf1" "length buf1 = length buf"
        using room less.prems(4) bs by (auto simp: mem_write_def)
      have step: "decode_loop token i buf pos inp = decode_loop ?t 0 buf1 (pos + 3) rest"
        using rest(1) Some buf1(1) bs by simp
      have "pos + 3 + 3 * (0 + length rest) div 4 \<le> length buf1" using room less.prems(4) buf1(2) by simp
      from less.hyps [OF lt t _ _ this] show ?thesis
        unfolding step buf1(2) using room by (fastforce intro: le_trans)
    qed
  qed
qed

text \<open>
  What the loop leaves behind when the text of \<open>bs\<close> is split between this chunk and later ones: the
  bytes of the complete tokens are in the buffer; either a padded token has stopped the loop and
  nothing else follows, or the token holds the beginning of the rest.
\<close>

definition chunk_ok ::
    "byte list \<Rightarrow> nat \<Rightarrow> byte list \<Rightarrow> nat \<Rightarrow> byte list \<Rightarrow> byte list \<Rightarrow> byte list \<Rightarrow> bool" where
  "chunk_ok token i buf pos inp fut bs \<longleftrightarrow>
     (\<exists>token' i' buf' rest fl bs1 bs2. decode_loop token i buf pos inp =
        Inr (token', i', buf', pos + length bs1, rest, fl) \<and> bs = bs1 @ bs2 \<and> length token' = 4 \<and> i' < 4 \<and>
        length buf' = length buf \<and> take (pos + length bs1) buf' = take pos buf @ bs1 \<and>
        (if fl then pl_base64_decode_token token' = Some bs2 \<and> i' = 0 \<and> filter b64_relevant (rest @ fut) = []
         else rest = [] \<and> take i' token' @ filter b64_relevant fut = concat (b64_tokens bs2)))"

lemma chunk_ok_partial:
  assumes "length token = 4" "inp = [] \<longrightarrow> i = 0" "i + length (filter b64_relevant inp) < 4"
    "take i token @ filter b64_relevant (inp @ fut) = concat (b64_tokens bs)"
  shows "chunk_ok token i buf pos inp fut bs"
proof -
  obtain token' where "decode_loop token i buf pos inp =
      Inr (token', i + length (filter b64_relevant inp), buf, pos, [], False)" "length token' = 4"
      "take (i + length (filter b64_relevant inp)) token' = take i token @ filter b64_relevant inp"
    using decode_loop_partial [OF assms(1,3,2)] by blast
  then show ?thesis unfolding chunk_ok_def using assms(3,4)
    by - (rule exI [of _ token'], rule exI [of _ "i + length (filter b64_relevant inp)"], rule exI [of _ buf], rule exI [of _ "[]"], rule exI [of _ False], rule exI [of _ "[]"], rule exI [of _ bs], simp)
qed

lemma chunk_ok_last:
  assumes "length token = 4" "i < 4" "4 \<le> i + length (filter b64_relevant inp)"
    "take i token @ filter b64_relevant (inp @ fut) = t" "length t = 4" "t ! 3 = B64_PAD"
    "pl_base64_decode_token t = Some bs"
  shows "chunk_ok token i buf pos inp fut bs"
proof -
  let ?t = "take i token @ take (4 - i) (filter b64_relevant inp)"
  have "length (take i token @ filter b64_relevant (inp @ fut)) = 4" using assms(4,5) by simp
  then have n: "length (filter b64_relevant inp) = 4 - i" "filter b64_relevant fut = []"
    using assms(1,2,3) by (auto simp: length_0_conv [symmetric] simp del: length_0_conv)
  then have t: "?t = t" using assms(4) by simp
  have "take 4 t = t" "t ! 3 \<in> set t" using assms(5) by simp_all
  then have none: "pl_base64_decode_4to3 t = None"
    using assms(6) code_pad(1) unfolding pl_base64_decode_4to3_def Let_def
    by (metis image_eqI list.set_map)
  obtain rest where "decode_loop token i buf pos inp = Inr (t, 0, buf, pos, rest, True)"
      "filter b64_relevant rest = []"
    using decode_loop_full [OF assms(1,2,3), of buf pos] t none n(1) by (auto simp: Let_def)
  then show ?thesis unfolding chunk_ok_def using assms(5,7) n(2)
    by - (rule exI [of _ t], rule exI [of _ 0], rule exI [of _ buf], rule exI [of _ rest], rule exI [of _ True], rule exI [of _ "[]"], rule exI [of _ bs], simp)
qed

lemma decode_loop_text:
  assumes "length token = 4" "i < 4" "inp = [] \<longrightarrow> i = 0" "pos + 3 * (i + length inp) div 4 \<le> length buf"
    "take i token @ filter b64_relevant (inp @ fut) = concat (b64_tokens bs)"
  shows "chunk_ok token i buf pos inp fut bs"
  using assms
proof (induction bs arbitrary: token i inp buf pos rule: b64_tokens.induct)
  case (1 a b c bs)
  show ?case
  proof (cases "i + length (filter b64_relevant inp) < 4")
    case True
    then show ?thesis using "1.prems" by (intro chunk_ok_partial)
  next
    case False
    then have four: "4 \<le> i + length (filter b64_relevant inp)" by simp
    let ?t = "take i token @ take (4 - i) (filter b64_relevant inp)" and ?v = "be_value [a, b, c]"
    obtain rest where rest: "decode_loop token i buf pos inp =
        (let token = ?t in
         case pl_base64_decode_4to3 token of
           None \<Rightarrow> Inr (token, 0, buf, pos, rest, True)
         | Some bs \<Rightarrow>
             (case mem_write buf pos bs of
                Inl e \<Rightarrow> Inl e
              | Inr buf \<Rightarrow> decode_loop token 0 buf (pos + length bs) rest))"
        "filter b64_relevant rest = drop (4 - i) (filter b64_relevant inp)"
        "length rest + (4 - i) \<le> length inp"
      using decode_loop_full [OF "1.prems"(1,2) four] by blast
    have "?t @ filter b64_relevant (rest @ fut) = b64_digits ?v @ concat (b64_tokens bs)"
      using "1.prems"(5) rest(2) by (metis append_assoc append_take_drop_id b64_tokens.simps(1) concat.simps(2) filter_append)
    moreover have len: "length ?t = 4" using "1.prems"(1,2) four by simp
    ultimately have t: "?t = b64_digits ?v" "filter b64_relevant (rest @ fut) = concat (b64_tokens bs)"
      by (metis append_eq_append_conv length_b64_digits)+
    have "?v < 2 ^ 24" using be_value_less [of "[a, b, c]"] by simp
    then have dec: "pl_base64_decode_4to3 ?t = Some [a, b, c]"
      unfolding t(1) using decode_4to3_digits be_bytes_be_value [of "[a, b, c]"] by (simp add: numeral_3_eq_3)
    have room: "pos + 3 + 3 * (0 + length rest) div 4 \<le> length buf"
      using rest(3) "1.prems"(2,4) by simp
    obtain buf1 where buf1: "mem_write buf pos [a, b, c] = Inr buf1" "length buf1 = length buf"
        "take (pos + 3) buf1 = take pos buf @ [a, b, c]"
      using room mem_write_take [of buf pos "[a, b, c]"] by (auto simp: mem_write_def)
    have step: "decode_loop token i buf pos inp = decode_loop ?t 0 buf1 (pos + 3) rest"
      using rest(1) dec buf1(1) by (simp add: numeral_3_eq_3)
    have "chunk_ok ?t 0 buf1 (pos + 3) rest fut bs"
      by (rule "1.IH") (use len room buf1(2) t(2) in simp_all)
    then obtain token' i' buf' rest' fl bs1 bs2 where "decode_loop ?t 0 buf1 (pos + 3) rest =
        Inr (token', i', buf', pos + 3 + length bs1, rest', fl)" "bs = bs1 @ bs2" "length token' = 4" "i' < 4"
        "length buf' = length buf1" "take (pos + 3 + length bs1) buf' = take (pos + 3) buf1 @ bs1"
        "if fl then pl_base64_decode_token token' = Some bs2 \<and> i' = 0 \<and> filter b64_relevant (rest' @ fut) = []
         else rest' = [] \<and> take i' token' @ filter b64_relevant fut = concat (b64_tokens bs2)"
      unfolding chunk_ok_def by blast
    then show ?thesis unfolding chunk_ok_def step using buf1
      by - (rule exI [of _ token'], rule exI [of _ i'], rule exI [of _ buf'], rule exI [of _ rest'], rule exI [of _ fl], rule exI [of _ "[a, b, c] @ bs1"], rule exI [of _ bs2],
          simp add: add.assoc numeral_3_eq_3 split: if_splits)
  qed
next
  case (2 a b)
  then show ?case
    using chunk_ok_partial [of token inp i fut "[a, b]"]
      chunk_ok_last [OF _ _ _ _ _ _ decode_token_two [of a b]] by (cases "i + length (filter b64_relevant inp) < 4") (auto simp: nth_append)
next
  case (3 a)
  then show ?case
    using chunk_ok_partial [of token inp i fut "[a]"]
      chunk_ok_last [OF _ _ _ _ _ _ decode_token_one [of a]] by (cases "i + length (filter b64_relevant inp) < 4") (auto simp: nth_append)
next
  case 4
  then show ?case using chunk_ok_partial [of token inp i fut "[]"] by simp
qed

section \<open>Decoding into a buffer\<close>

lemma relevant_digits: "c \<in> set (b64_digits v) \<Longrightarrow> b64_relevant c"
  using code_value(1) [of "v div 262144 mod 64"] code_value(1) [of "v div 4096 mod 64"]
    code_value(1) [of "v div 64 mod 64"] code_value(1) [of "v mod 64"]
  by (auto simp: b64_digits_def b64_relevant_def word_gt_0)

lemma relevant_tokens: "t \<in> set (b64_tokens bs) \<Longrightarrow> c \<in> set t \<Longrightarrow> b64_relevant c"
proof (induction bs rule: b64_tokens.induct)
  case (1 a b c bs)
  then show ?case using relevant_digits by auto
qed (use relevant_digits in \<open>auto simp: b64_relevant_def [of B64_PAD] dest: in_set_takeD\<close>)

lemma filter_relevant_text: "filter b64_relevant (b64_text L bs) = concat (b64_tokens bs)"
proof -
  have no: "\<not> b64_relevant B64_CR" "\<not> b64_relevant B64_LF" by (simp_all add: b64_relevant_def code_pad)
  have "filter b64_relevant (snd (foldl (b64_emit L) (col, out) ts)) = filter b64_relevant out @ concat ts"
    if "\<forall>t \<in> set ts. \<forall>c \<in> set t. b64_relevant c" for col out ts
    using that by (induction ts arbitrary: col out) (auto simp: no filter_id_conv)
  then show ?thesis using relevant_tokens by (auto simp: b64_text_def)
qed

lemma unat_max_decoded: "unat (PL_Base64MaxDecodedLength n) = 3 * unat n div 4"
proof -
  have n: "unat n < 4294967296" using unsigned_less [of n, where 'a = nat] by simp
  have "unat ((ucast n :: u64) * 3) = unat n * 3"
    using n by (subst unat_mult_lem [THEN iffD1]) (simp_all add: unat_ucast_le)
  then have "unat ((ucast n :: u64) * 3 div 4) = unat n * 3 div 4" by (simp add: unat_div_word)
  then show ?thesis
    using n by (simp add: PL_Base64MaxDecodedLength_def unsigned_ucast_eq take_bit_nat_eq_self mult.commute)
qed

lemma decode_flush_token_length:
  assumes "length token = 4" "0 < i" "i < 4"
    "pl_base64_decode_token (take i token @ replicate (4 - i) B64_PAD) = Some bs"
  shows "length bs \<le> 3 * i div 4"
proof -
  consider "i = 1" | "i = 2" | "i = 3" using assms(2,3) by linarith
  then show ?thesis
  proof cases
    case 1
    then show ?thesis using assms(1,4) code_pad(1)
      by (auto simp: pl_base64_decode_token_def pl_base64_decode_2to1_def nth_append replicate_numeral_Cons Let_def)
  next
    case 2
    then show ?thesis using assms(1,4)
      by (auto simp: pl_base64_decode_token_def pl_base64_decode_2to1_def nth_append replicate_numeral_Cons Let_def
          split: if_splits)
  next
    case 3
    then show ?thesis using assms(1,4)
      by (auto simp: pl_base64_decode_token_def pl_base64_decode_2to1_def pl_base64_decode_3to2_def nth_append Let_def
          split: if_splits)
  qed
qed

definition dec_block :: "'s PLBase64Decoder \<Rightarrow> byte list" where
  "dec_block d = (case de_output_buffer d of None \<Rightarrow> [] | Some m \<Rightarrow> m)"

text \<open>The decoder between calls, and the fields that decoding a chunk keeps.\<close>

definition dec_inv :: "'s PLBase64Decoder \<Rightarrow> bool" where
  "dec_inv d \<longleftrightarrow> length (de_token d) = 4 \<and> de_token_size d < 4"

definition dec_keeps :: "'s PLBase64Decoder \<Rightarrow> 's PLBase64Decoder \<Rightarrow> bool" where
  "dec_keeps d d' \<longleftrightarrow> dec_inv d' \<and> de_output d' = de_output d \<and> de_output_buflen d' = de_output_buflen d \<and>
     map_option length (de_output_buffer d') = map_option length (de_output_buffer d)"

lemma decode_last_safe:
  assumes "pos + (if fl then 3 else 0) \<le> length buf"
  shows "decode_last token fl buf pos = Inl NO_ERROR_SET \<or>
    (\<exists>buf' pos'. decode_last token fl buf pos = Inr (buf', pos') \<and> length buf' = length buf \<and>
       pos' \<le> pos + (if fl then 3 else 0))"
  using assms by (auto simp: decode_last_def mem_write_def dest: decode_token_length split: option.splits)

lemma decode_buffer_unfold:
  assumes "decode_loop (de_token d) (de_token_size d) (dec_block d) 0 inp = Inr (token, i, buf, pos, rest, fl)"
  defines "d1 \<equiv> d\<lparr>de_token := token, de_token_size := i, de_output_buffer := map_option (\<lambda>_. buf) (de_output_buffer d)\<rparr>"
  shows "pl_base64_decode_buffer d inp =
    (case decode_last token fl buf pos of
       Inl e \<Rightarrow> (Inl e, d1)
     | Inr (buf, pos) \<Rightarrow>
         let data = d1\<lparr>de_output_buffer := map_option (\<lambda>_. buf) (de_output_buffer d)\<rparr> in
         if \<exists>c \<in> set rest. pl_base64_codetovaluep1 c > 0 then (Inl NO_ERROR_SET, data)
         else (Inr (), data\<lparr>de_output_length := of_nat pos\<rparr>))"
proof -
  have buf: "(case de_output_buffer d of None \<Rightarrow> [] | Some m \<Rightarrow> m) = dec_block d" by (simp add: dec_block_def)
  show ?thesis
    unfolding pl_base64_decode_buffer_def Let_def buf assms(1) sum.case prod.case d1_def
    by (simp add: option.map_comp comp_def split: sum.splits)
qed

lemma decode_buffer_safe:
  assumes inv: "dec_inv d" and inp: "inp \<noteq> []"
    and room: "3 * (de_token_size d + length inp) div 4 \<le> length (dec_block d)" "length (dec_block d) < 2 ^ 32"
  shows "\<exists>r d'. pl_base64_decode_buffer d inp = (r, d') \<and> r \<in> {Inr (), Inl NO_ERROR_SET} \<and> dec_keeps d d' \<and>
    (r = Inr () \<longrightarrow>
       unat (de_output_length d') + 3 * de_token_size d' div 4 \<le> 3 * (de_token_size d + length inp) div 4)"
proof -
  obtain token i buf pos rest fl where loop:
      "decode_loop (de_token d) (de_token_size d) (dec_block d) 0 inp = Inr (token, i, buf, pos, rest, fl)"
      "length token = 4" "length buf = length (dec_block d)" "i < 4" "fl \<longrightarrow> i = 0"
      "pos + (if fl then 3 else 3 * i div 4) \<le> 3 * (de_token_size d + length inp) div 4"
    using decode_loop_safe [of "de_token d" "de_token_size d" inp 0 "dec_block d"] inv inp room(1)
    by (auto simp: dec_inv_def)
  have len: "de_output_buffer d = Some m \<Longrightarrow> length m = length (dec_block d)" for m by (simp add: dec_block_def)
  note unf = decode_buffer_unfold [OF loop(1)]
  have "pos + (if fl then 3 else 0) \<le> length buf" using loop(3,6) room(1) by (simp split: if_splits)
  from decode_last_safe [OF this, of token] show ?thesis
  proof (elim disjE exE conjE)
    assume "decode_last token fl buf pos = Inl NO_ERROR_SET"
    then show ?thesis using loop(2,3,4) len
      by (cases "de_output_buffer d") (simp_all add: unf dec_keeps_def dec_inv_def)
  next
    fix buf' pos'
    assume last: "decode_last token fl buf pos = Inr (buf', pos')" "length buf' = length buf"
      "pos' \<le> pos + (if fl then 3 else 0)"
    have p: "pos' + 3 * i div 4 \<le> 3 * (de_token_size d + length inp) div 4"
      using last(3) loop(5,6) by (cases fl) simp_all
    then have "unat (of_nat pos' :: u32) = pos'" using room by (simp add: unat_of_nat take_bit_nat_eq_self)
    then show ?thesis using loop(2,3,4) last(1,2) len p
      by (cases "de_output_buffer d") (simp_all add: unf dec_keeps_def dec_inv_def Let_def)
  qed
qed

lemma decode_flush_safe:
  assumes inv: "dec_inv d" and room: "unat (de_output_length d) + 3 * de_token_size d div 4 \<le> length (dec_block d)"
    "length (dec_block d) < 2 ^ 32" and out: "de_output d = None"
  shows "\<exists>r d'. pl_base64_decode_flush d = (r, d') \<and> r \<in> {Inr (), Inl NO_ERROR_SET} \<and> de_output d' = None \<and>
    map_option length (de_output_buffer d') = map_option length (de_output_buffer d) \<and>
    (r = Inr () \<longrightarrow> de_token_size d' = 0 \<or> de_token d' ! 0 = B64_PAD) \<and>
    unat (de_output_length d') \<le> unat (de_output_length d) + 3 * de_token_size d div 4"
proof (cases "(de_token_size d = 0 \<or> de_token d ! 0 = B64_PAD) \<or> de_output_buffer d = None")
  case True
  then show ?thesis using out by (auto simp: pl_base64_decode_flush_def)
next
  case False
  then obtain m where m: "de_output_buffer d = Some m" by auto
  have c: "\<not> (de_token_size d = 0 \<or> de_token d ! 0 = B64_PAD)" using False by blast
  let ?t = "take (de_token_size d) (de_token d) @ replicate (4 - de_token_size d) B64_PAD"
  show ?thesis
  proof (cases "pl_base64_decode_token ?t")
    case None
    then show ?thesis using m c out by (auto simp: pl_base64_decode_flush_def Let_def)
  next
    case (Some bs)
    have len: "length bs \<le> 3 * de_token_size d div 4"
      by (rule decode_flush_token_length [OF _ _ _ Some]) (use inv c in \<open>auto simp: dec_inv_def\<close>)
    then have "unat (de_output_length d) + length bs \<le> length m" using room(1) m by (simp add: dec_block_def)
    then obtain m' where m': "mem_write m (unat (de_output_length d)) bs = Inr m'" "length m' = length m"
      by (auto simp: mem_write_def)
    have "unat (of_nat (length bs) :: u32) = length bs"
      using len room by (simp add: unat_of_nat take_bit_nat_eq_self)
    then have "unat (de_output_length d + of_nat (length bs)) = unat (de_output_length d) + length bs"
      using len room by (subst unat_plus_no_wrap) simp_all
    then show ?thesis using c m m' Some out len
      unfolding pl_base64_decode_flush_def if_not_P [OF c] Let_def by simp
  qed
qed

definition fresh_decoder :: "byte list \<Rightarrow> u32 \<Rightarrow> unit PLBase64Decoder" where
  "fresh_decoder m n =
     \<lparr>de_token = [0, 0, 0, 0], de_token_size = 0, de_output = None, de_output_buffer = Some m,
      de_output_buflen = n, de_output_length = 0\<rparr>"

lemma fresh_decoder_simps [simp]:
  "dec_inv (fresh_decoder m n)" "dec_block (fresh_decoder m n) = m" "de_token_size (fresh_decoder m n) = 0"
  "de_output (fresh_decoder m n) = None" "de_output_buffer (fresh_decoder m n) = Some m"
  by (simp_all add: fresh_decoder_def dec_inv_def dec_block_def)

text \<open>The buffer interface is decoding a chunk with a fresh decoder, and a flush.\<close>

lemma PL_Base64DecodeBuffer_cases:
  assumes h: "nspr_ok h" and src: "unat srclen \<le> length src" "srclen \<noteq> 0"
    and dest: "\<forall>m. dest = Some m \<longrightarrow> unat maxdestlen \<le> length m \<and> length m < 2 ^ 32 \<and>
      PL_Base64MaxDecodedLength srclen \<le> maxdestlen"
  obtains (memory) "PL_Base64DecodeBuffer h src srclen dest maxdestlen = Inl NO_ERROR_SET" "\<not> nspr_total h"
  | (run) m n where "3 * unat srclen div 4 \<le> length m" "length m < 2 ^ 32"
      "length m = (case dest of None \<Rightarrow> 3 * unat srclen div 4 | Some d \<Rightarrow> length d)"
      "PL_Base64DecodeBuffer h src srclen dest maxdestlen =
         (case pl_base64_decode_buffer (fresh_decoder m n) (take (unat srclen) src) of
            (Inl e, _) \<Rightarrow> Inl e
          | (Inr _, data) \<Rightarrow>
              (case pl_base64_decode_flush data of
                 (Inl e, _) \<Rightarrow> Inl e
               | (Inr _, data) \<Rightarrow>
                   (case PL_DestroyBase64Decoder (data\<lparr>de_output_buffer := None\<rparr>) False of
                      (Inl e, _) \<Rightarrow> Inl e
                    | (Inr _, _) \<Rightarrow>
                        (case de_output_buffer data of
                           None \<Rightarrow> Inl UNDEFINED_BEHAVIOUR
                         | Some buf \<Rightarrow> Inr (buf, de_output_length data)))))"
proof -
  let ?need = "PL_Base64MaxDecodedLength srclen"
  define ob where "ob = (case dest of None \<Rightarrow> PR_Malloc h (unat ?need) | d \<Rightarrow> d)"
  have c: "\<not> (dest \<noteq> None \<and> maxdestlen < ?need)" using dest by fastforce
  note unf = PL_Base64DecodeBuffer_def Let_def ob_def [symmetric] if_not_P [OF src(2)] if_not_P [OF c]
  show ?thesis
  proof (cases "ob = None \<or> PR_Calloc h sizeof_PLBase64Decoder = None")
    case True
    then have "PL_Base64DecodeBuffer h src srclen dest maxdestlen = Inl NO_ERROR_SET"
      unfolding unf by (auto simp: pl_base64_create_decoder_def split: option.splits)
    moreover have "\<not> nspr_total h" using True by (auto simp: ob_def nspr_total_def split: option.splits)
    ultimately show ?thesis by (rule memory)
  next
    case False
    then obtain m z where mz: "ob = Some m" "PR_Calloc h sizeof_PLBase64Decoder = Some z" by auto
    have m: "3 * unat srclen div 4 \<le> length m" "length m < 2 ^ 32"
      "length m = (case dest of None \<Rightarrow> 3 * unat srclen div 4 | Some d \<Rightarrow> length d)"
      using mz(1) h dest unat_max_decoded [of srclen] unsigned_less [of ?need, where 'a = nat]
      by (auto simp: ob_def nspr_ok_def word_le_nat_alt split: option.splits)
    show ?thesis
      by (rule run [OF m, of "if dest = None then ?need else maxdestlen"])
        (unfold unf, use src(1) mz in \<open>simp add: pl_base64_create_decoder_def fresh_decoder_def mem_simps\<close>)
  qed
qed

lemma destroy_decoder:
  "de_token_size d = 0 \<or> de_token d ! 0 = B64_PAD \<Longrightarrow>
     PL_DestroyBase64Decoder (d\<lparr>de_output_buffer := None\<rparr>) False = (Inr (), d\<lparr>de_output_buffer := None\<rparr>)"
  by (simp add: PL_DestroyBase64Decoder_def pl_base64_decode_flush_def)

lemma PL_Base64DecodeBuffer_safe:
  assumes "nspr_ok h" "unat srclen \<le> length src" "srclen \<noteq> 0"
    and "\<forall>m. dest = Some m \<longrightarrow> unat maxdestlen \<le> length m \<and> length m < 2 ^ 32 \<and>
      PL_Base64MaxDecodedLength srclen \<le> maxdestlen"
  shows "PL_Base64DecodeBuffer h src srclen dest maxdestlen = Inl NO_ERROR_SET \<or>
      (\<exists>buf len. PL_Base64DecodeBuffer h src srclen dest maxdestlen = Inr (buf, len) \<and>
        unat len \<le> 3 * unat srclen div 4 \<and> unat len \<le> length buf)"
proof (rule PL_Base64DecodeBuffer_cases [OF assms], goal_cases)
  case 1
  then show ?case by simp
next
  case run: (2 m n)
  let ?inp = "take (unat srclen) src" and ?d = "fresh_decoder m n"
  have inp: "?inp \<noteq> []" "length ?inp = unat srclen" using assms(2,3) by (auto simp: unat_eq_0)
  obtain r1 d1 where d1: "pl_base64_decode_buffer ?d ?inp = (r1, d1)" "r1 \<in> {Inr (), Inl NO_ERROR_SET}"
      "dec_keeps ?d d1" "r1 = Inr () \<longrightarrow> unat (de_output_length d1) + 3 * de_token_size d1 div 4 \<le> 3 * unat srclen div 4"
    using decode_buffer_safe [of ?d ?inp] inp run(1,2) by auto
  show ?thesis
  proof (cases r1)
    case (Inl e)
    then show ?thesis using d1(1,2) run(4) by auto
  next
    case (Inr u)
    have keep: "dec_inv d1" "de_output d1 = None" "length (dec_block d1) = length m"
      using d1(3) by (auto simp: dec_keeps_def dec_block_def split: option.splits)
    obtain r2 d2 where d2: "pl_base64_decode_flush d1 = (r2, d2)" "r2 \<in> {Inr (), Inl NO_ERROR_SET}"
        "map_option length (de_output_buffer d2) = map_option length (de_output_buffer d1)"
        "r2 = Inr () \<longrightarrow> de_token_size d2 = 0 \<or> de_token d2 ! 0 = B64_PAD"
        "unat (de_output_length d2) \<le> unat (de_output_length d1) + 3 * de_token_size d1 div 4"
      using decode_flush_safe [OF keep(1) _ _ keep(2)] keep(3) d1(4) run(1,2) Inr by auto
    have "\<exists>buf. de_output_buffer d2 = Some buf \<and> length buf = length m"
      using d2(3) d1(3) by (auto simp: dec_keeps_def)
    then show ?thesis
      using d1(1,4) d2(1,2,4,5) run(1,4) Inr destroy_decoder [of d2] by (cases r2) auto
  qed
qed

lemma decode_buffer_text:
  assumes inv: "dec_inv d" and inp: "inp \<noteq> []"
    and room: "3 * (de_token_size d + length inp) div 4 \<le> length (dec_block d)" "length (dec_block d) < 2 ^ 32"
    and tx: "take (de_token_size d) (de_token d) @ filter b64_relevant (inp @ fut) = concat (b64_tokens bs)"
  shows "\<exists>d' bs1 bs2. pl_base64_decode_buffer d inp = (Inr (), d') \<and> bs = bs1 @ bs2 \<and> dec_keeps d d' \<and>
    unat (de_output_length d') = length bs1 \<and> take (length bs1) (dec_block d') = bs1 \<and>
    take (de_token_size d') (de_token d') @ filter b64_relevant fut = concat (b64_tokens bs2)"
proof -
  have "chunk_ok (de_token d) (de_token_size d) (dec_block d) 0 inp fut bs"
    by (rule decode_loop_text) (use inv inp room(1) tx in \<open>auto simp: dec_inv_def\<close>)
  then obtain token i buf rest fl bs1 bs2 where loop:
      "decode_loop (de_token d) (de_token_size d) (dec_block d) 0 inp = Inr (token, i, buf, length bs1, rest, fl)"
      "bs = bs1 @ bs2" "length token = 4" "i < 4" "length buf = length (dec_block d)" "take (length bs1) buf = bs1"
      "if fl then pl_base64_decode_token token = Some bs2 \<and> i = 0 \<and> filter b64_relevant (rest @ fut) = []
       else rest = [] \<and> take i token @ filter b64_relevant fut = concat (b64_tokens bs2)"
    unfolding chunk_ok_def by auto
  have safe: "length bs1 + (if fl then 3 else 3 * i div 4) \<le> length (dec_block d)"
    using decode_loop_safe [of "de_token d" "de_token_size d" inp 0 "dec_block d"] inv inp room(1) loop(1)
    by (auto simp: dec_inv_def)
  have norel: "\<not> (\<exists>c \<in> set rest. pl_base64_codetovaluep1 c > 0)"
    using loop(7) by (auto simp: filter_empty_conv b64_relevant_def split: if_splits)
  define cs where "cs = (if fl then bs1 @ bs2 else bs1)"
  have "\<exists>buf'. decode_last token fl buf (length bs1) = Inr (buf', length cs) \<and> length buf' = length buf \<and>
      take (length cs) buf' = cs"
  proof (cases fl)
    case True
    then have "length bs2 \<le> 3" using loop(7) decode_token_length [of token bs2] by simp
    then have "length bs1 + length bs2 \<le> length buf" using safe loop(5) True by simp
    then show ?thesis using True loop(6,7) by (auto simp: decode_last_def cs_def mem_write_def)
  qed (use loop(6) in \<open>auto simp: decode_last_def cs_def\<close>)
  then obtain buf' where last: "decode_last token fl buf (length bs1) = Inr (buf', length cs)" "length buf' = length buf"
      "take (length cs) buf' = cs" by blast
  let ?d = "d\<lparr>de_token := token, de_token_size := i, de_output_buffer := map_option (\<lambda>_. buf') (de_output_buffer d),
      de_output_length := of_nat (length cs)\<rparr>"
  have call: "pl_base64_decode_buffer d inp = (Inr (), ?d)"
    unfolding decode_buffer_unfold [OF loop(1)] last(1) sum.case prod.case Let_def if_not_P [OF norel] by simp
  have "length cs \<le> length buf'" using arg_cong [OF last(3), of length] by simp
  then have len: "unat (of_nat (length cs) :: u32) = length cs"
    using last(2) loop(5) room(2) by (simp add: unat_of_nat take_bit_nat_eq_self)
  have keep: "dec_keeps d ?d" "take (length cs) (dec_block ?d) = cs"
    using loop(3,4,5) last(2,3) by (cases "de_output_buffer d"; auto simp: dec_keeps_def dec_inv_def dec_block_def)+
  show ?thesis
    by (rule exI [of _ ?d], rule exI [of _ cs], rule exI [of _ "if fl then [] else bs2"])
      (use call keep len loop(2,7) in \<open>auto simp: cs_def split: if_splits\<close>)
qed

lemma token_chars_multiple: "length (concat (b64_tokens bs)) mod 4 = 0"
  by (induction bs rule: b64_tokens.induct) auto

lemma concat_tokens_Nil: "concat (b64_tokens bs) = [] \<longleftrightarrow> bs = []"
  by (cases bs rule: b64_tokens.cases) (auto simp: b64_digits_def)

lemma PL_Base64DecodeBuffer_text:
  assumes h: "nspr_ok h" "unat srclen \<le> length src" "srclen \<noteq> 0"
    "\<forall>m. dest = Some m \<longrightarrow> unat maxdestlen \<le> length m \<and> length m < 2 ^ 32 \<and>
      PL_Base64MaxDecodedLength srclen \<le> maxdestlen"
    and tx: "filter b64_relevant (take (unat srclen) src) = concat (b64_tokens bs)"
  shows "PL_Base64DecodeBuffer h src srclen dest maxdestlen = Inl NO_ERROR_SET \<and> \<not> nspr_total h \<or>
    (\<exists>buf. PL_Base64DecodeBuffer h src srclen dest maxdestlen = Inr (buf, of_nat (length bs)) \<and>
       take (length bs) buf = bs \<and> length bs < 2 ^ 32)"
proof (rule PL_Base64DecodeBuffer_cases [OF h], goal_cases)
  case 1
  then show ?case by simp
next
  case run: (2 m n)
  let ?inp = "take (unat srclen) src" and ?d = "fresh_decoder m n"
  have inp: "?inp \<noteq> []" "length ?inp = unat srclen" using h(2,3) by (auto simp: unat_eq_0)
  obtain d1 bs1 bs2 where d1: "pl_base64_decode_buffer ?d ?inp = (Inr (), d1)" "bs = bs1 @ bs2" "dec_keeps ?d d1"
      "unat (de_output_length d1) = length bs1" "take (length bs1) (dec_block d1) = bs1"
      "take (de_token_size d1) (de_token d1) = concat (b64_tokens bs2)"
    using decode_buffer_text [of ?d ?inp "[]" bs] inp run(1,2) tx by auto
  have inv: "length (de_token d1) = 4" "de_token_size d1 < 4" using d1(3) by (auto simp: dec_keeps_def dec_inv_def)
  have "length (take (de_token_size d1) (de_token d1)) mod 4 = 0" unfolding d1(6) by (rule token_chars_multiple)
  then have z: "de_token_size d1 = 0" using inv by simp
  then have bs2: "bs2 = []" using d1(6) concat_tokens_Nil [of bs2] by simp
  obtain buf where buf: "de_output_buffer d1 = Some buf" "take (length bs) buf = bs"
    using d1(2,3,5) bs2 by (auto simp: dec_keeps_def dec_block_def)
  have "pl_base64_decode_flush d1 = (Inr (), d1)" using z by (simp add: pl_base64_decode_flush_def)
  moreover have "de_output_length d1 = of_nat (length bs)" using d1(2,4) bs2 by (simp flip: d1(4))
  moreover have "length bs < 2 ^ 32" using d1(2,4) bs2 unsigned_less [of "de_output_length d1", where 'a = nat] by simp
  ultimately show ?case using run(4) d1(1) buf destroy_decoder [of d1] z by simp
qed

section \<open>Decoding a stream\<close>

fun decoder_updates ::
    "nspr \<Rightarrow> 's PLBase64Decoder option \<Rightarrow> byte list list \<Rightarrow> unit result \<times> 's PLBase64Decoder option" where
  "decoder_updates h data [] = (Inr (), data)"
| "decoder_updates h data (c # cs) =
     (case NSSBase64Decoder_Update h data (Some c) (of_nat (length c)) of
        (Inl e, data) \<Rightarrow> (Inl e, data)
      | (Inr _, data) \<Rightarrow> decoder_updates h data cs)"

definition decode_stream :: "nspr \<Rightarrow> 's output_fn \<Rightarrow> 's \<Rightarrow> byte list list \<Rightarrow> 's result" where
  "decode_stream h output_fn arg cs =
     res_bind (NSSBase64Decoder_Create h (Some (output_fn, arg))) (\<lambda>data.
     case decoder_updates h (Some data) cs of
       (Inl e, _) \<Rightarrow> Inl e
     | (Inr _, data) \<Rightarrow>
         (case NSSBase64Decoder_Destroy data False of
            (Inr _, Some data) \<Rightarrow> (case de_output data of Some (_, arg) \<Rightarrow> Inr arg | None \<Rightarrow> Inl NO_ERROR_SET)
          | (Inl e, _) \<Rightarrow> Inl e
          | (Inr _, None) \<Rightarrow> Inl NO_ERROR_SET))"

definition dec_stream :: "('s \<Rightarrow> byte list) \<Rightarrow> 's output_fn \<Rightarrow> 's PLBase64Decoder \<Rightarrow> byte list \<Rightarrow> bool" where
  "dec_stream view f d bs \<longleftrightarrow> dec_inv d \<and> (\<exists>s. de_output d = Some (f, s) \<and> view s = bs) \<and>
     length (dec_block d) = unat (de_output_buflen d)"

lemma nspr_total_alloc:
  assumes "nspr_ok h" "nspr_total h"
  shows "\<exists>m. PR_Malloc h n = Some m \<and> length m = n" "\<exists>m'. PR_Realloc h m n = Some m' \<and> length m' = n"
  using assms unfolding nspr_ok_def nspr_total_def by (metis not_Some_eq)+

lemma decoder_update_text:
  assumes h: "nspr_ok h" "nspr_total h" and d: "dec_stream view f d bs0"
    and fn: "\<And>s b. 0 \<le> snd (f s b)" "\<And>s b. view (fst (f s b)) = view s @ b"
    and c: "c \<noteq> []" "length c < 2 ^ 32 - 4"
    and tx: "take (de_token_size d) (de_token d) @ filter b64_relevant (c @ fut) = concat (b64_tokens bs)"
  shows "\<exists>d' bs1 bs2. PL_UpdateBase64Decoder h d (Some c) (of_nat (length c)) = (Inr (), d') \<and> bs = bs1 @ bs2 \<and>
    dec_stream view f d' (bs0 @ bs1) \<and>
    take (de_token_size d') (de_token d') @ filter b64_relevant fut = concat (b64_tokens bs2)"
proof -
  let ?n = "of_nat (length c) :: u32" and ?k = "of_nat (de_token_size d) :: u32"
  have inv: "de_token_size d < 4" "length (de_token d) = 4" using d by (simp_all add: dec_stream_def dec_inv_def)
  have un: "unat ?n = length c" "unat ?k = de_token_size d"
    using c(2) inv by (simp_all add: unat_of_nat take_bit_nat_eq_self)
  have sum: "unat (?n + ?k) = length c + de_token_size d" using un c(2) inv by (subst unat_plus_no_wrap) simp_all
  have guard: "\<not> (?n = 0 \<or> ?n > 0xffffffff - ?k)"
  proof -
    have "unat (0xffffffff - ?k) = 0xffffffff - de_token_size d"
      using un(2) inv by (subst unat_sub) (simp_all add: word_le_nat_alt)
    then show ?thesis using c un(1) inv by (auto simp: word_less_nat_alt simp del: unat_of_nat)
  qed
  let ?need = "PL_Base64MaxDecodedLength (?n + ?k)"
  have need: "unat ?need = 3 * (de_token_size d + length c) div 4"
    unfolding unat_max_decoded sum by (simp add: add.commute)
  let ?g = "if ?need > de_output_buflen d
    then map_option (\<lambda>m. d\<lparr>de_output_buffer := Some m, de_output_buflen := ?need\<rparr>)
           (case de_output_buffer d of Some m \<Rightarrow> PR_Realloc h m (unat ?need) | None \<Rightarrow> PR_Malloc h (unat ?need))
    else Some d"
  have "\<exists>d1. ?g = Some d1 \<and> dec_stream view f d1 bs0 \<and> de_token d1 = de_token d \<and> de_token_size d1 = de_token_size d \<and>
      unat ?need \<le> length (dec_block d1)"
  proof (cases "?need > de_output_buflen d")
    case True
    then obtain m where "(case de_output_buffer d of Some m \<Rightarrow> PR_Realloc h m (unat ?need) | None \<Rightarrow> PR_Malloc h (unat ?need)) = Some m"
        "length m = unat ?need"
      using nspr_total_alloc [OF h] by (cases "de_output_buffer d") (simp, blast)+
    then show ?thesis using True d by (auto simp: dec_stream_def dec_inv_def dec_block_def)
  next
    case False
    then have "unat ?need \<le> length (dec_block d)" using d by (simp add: dec_stream_def word_less_nat_alt)
    then show ?thesis unfolding if_not_P [OF False] using d by simp
  qed
  then obtain d1 where d1: "?g = Some d1" "dec_stream view f d1 bs0" "de_token d1 = de_token d"
      "de_token_size d1 = de_token_size d" "unat ?need \<le> length (dec_block d1)" by blast
  let ?d1 = "d1\<lparr>de_output_length := 0\<rparr>"
  obtain s where s: "de_output d1 = Some (f, s)" "view s = bs0" using d1(2) by (auto simp: dec_stream_def)
  have blk: "dec_block ?d1 = dec_block d1" "dec_inv ?d1" "length (dec_block d1) = unat (de_output_buflen d1)"
    using d1(2) by (simp_all add: dec_block_def dec_stream_def dec_inv_def)
  obtain d2 bs1 bs2 where d2: "pl_base64_decode_buffer ?d1 c = (Inr (), d2)" "bs = bs1 @ bs2" "dec_keeps ?d1 d2"
      "unat (de_output_length d2) = length bs1" "take (length bs1) (dec_block d2) = bs1"
      "take (de_token_size d2) (de_token d2) @ filter b64_relevant fut = concat (b64_tokens bs2)"
    using decode_buffer_text [OF blk(2) c(1), of fut bs] d1(3,4,5) need blk(1,3) tx
      unsigned_less [of "de_output_buflen d1", where 'a = nat] by auto
  have k: "de_output d2 = Some (f, s)" "dec_inv d2" "length (dec_block d2) = unat (de_output_buflen d2)"
    using d2(3) s(1) blk(1,3) by (auto simp: dec_keeps_def dec_block_def split: option.splits)
  have rd: "mem_read c 0 (unat ?n) = Inr c" using un(1) by (simp add: mem_simps)
  note unf = PL_UpdateBase64Decoder_def option.case if_not_P [OF guard] Let_def d1(1) rd sum.case d2(1) prod.case k(1)
  show ?thesis
  proof (cases "bs1 = []")
    case True
    then have z: "de_output_length d2 = 0" using d2(4) by (simp add: unat_eq_0)
    have "PL_UpdateBase64Decoder h d (Some c) ?n = (Inr (), d2\<lparr>de_output_length := 0\<rparr>)"
      unfolding unf by (simp add: z split: option.splits)
    moreover have "dec_stream view f (d2\<lparr>de_output_length := 0\<rparr>) (bs0 @ bs1)"
      using k s(2) True by (simp add: dec_stream_def dec_inv_def dec_block_def)
    ultimately show ?thesis using d2(2,6)
      by - (rule exI [of _ "d2\<lparr>de_output_length := 0\<rparr>"], rule exI [of _ bs1], rule exI [of _ bs2], simp)
  next
    case False
    then have p: "de_output_length d2 > 0" using d2(4) by (simp add: word_less_nat_alt)
    obtain buf where buf: "de_output_buffer d2 = Some buf" "take (length bs1) buf = bs1"
      using d2(5) False by (auto simp: dec_block_def split: option.splits)
    obtain s' r where r: "f s bs1 = (s', r)" "0 \<le> r" "view s' = bs0 @ bs1"
      using fn [of s bs1] s(2) by (cases "f s bs1") auto
    let ?d' = "d2\<lparr>de_output := Some (f, s'), de_output_length := 0\<rparr>"
    have "PL_UpdateBase64Decoder h d (Some c) ?n = (Inr (), ?d')"
      unfolding unf using buf r p d2(4) by simp
    moreover have "dec_stream view f ?d' (bs0 @ bs1)"
      using k r(3) by (simp add: dec_stream_def dec_inv_def dec_block_def)
    ultimately show ?thesis using d2(2,6)
      by - (rule exI [of _ ?d'], rule exI [of _ bs1], rule exI [of _ bs2], simp)
  qed
qed

lemma decoder_updates_text:
  assumes "nspr_ok h" "nspr_total h"
    and "\<And>s b. 0 \<le> snd (f s b)" "\<And>s b. view (fst (f s b)) = view s @ b"
    and "\<forall>c \<in> set cs. c \<noteq> [] \<and> length c < 2 ^ 32 - 4" "dec_stream view f d bs0"
    "take (de_token_size d) (de_token d) @ filter b64_relevant (concat cs) = concat (b64_tokens bs)"
  shows "\<exists>d'. decoder_updates h (Some d) cs = (Inr (), Some d') \<and> dec_stream view f d' (bs0 @ bs) \<and> de_token_size d' = 0"
  using assms(5,6,7)
proof (induction cs arbitrary: d bs0 bs)
  case Nil
  have inv: "length (de_token d) = 4" "de_token_size d < 4" using Nil.prems(2) by (auto simp: dec_stream_def dec_inv_def)
  have "length (take (de_token_size d) (de_token d)) mod 4 = 0"
    using Nil.prems(3) token_chars_multiple [of bs] by simp
  then have "de_token_size d = 0" using inv by simp
  then show ?case using Nil.prems concat_tokens_Nil [of bs] by simp
next
  case (Cons c cs)
  obtain d1 bs1 bs2 where d1: "PL_UpdateBase64Decoder h d (Some c) (of_nat (length c)) = (Inr (), d1)" "bs = bs1 @ bs2"
      "dec_stream view f d1 (bs0 @ bs1)"
      "take (de_token_size d1) (de_token d1) @ filter b64_relevant (concat cs) = concat (b64_tokens bs2)"
    using decoder_update_text [OF assms(1,2) Cons.prems(2) assms(3,4), of c "concat cs" bs] Cons.prems(1,3) by auto
  then show ?case using Cons.IH [OF _ d1(3,4)] Cons.prems(1)
    by (simp add: NSSBase64Decoder_Update_def)
qed

lemma decode_stream_text:
  assumes h: "nspr_ok h" "nspr_total h"
    and fn: "\<And>s b. 0 \<le> snd (f s b)" "\<And>s b. view (fst (f s b)) = view s @ b" and s: "view s = []"
    and cs: "\<forall>c \<in> set cs. c \<noteq> [] \<and> length c < 2 ^ 32 - 4"
    and tx: "filter b64_relevant (concat cs) = concat (b64_tokens bs)"
  shows "\<exists>s'. decode_stream h f s cs = Inr s' \<and> view s' = bs"
proof -
  let ?d = "\<lparr>de_token = [0, 0, 0, 0], de_token_size = 0, de_output = Some (f, s), de_output_buffer = None,
               de_output_buflen = 0, de_output_length = 0\<rparr>"
  obtain z y where "PR_Calloc h sizeof_PLBase64Decoder = Some z" "PR_Calloc h 8 = Some y"
    using h(2) unfolding nspr_total_def by blast
  then have create: "NSSBase64Decoder_Create h (Some (f, s)) = Inr ?d"
    by (simp add: NSSBase64Decoder_Create_def PL_CreateBase64Decoder_def pl_base64_create_decoder_def
        PORT_ZAlloc_def MAX_SIZE_def)
  have "dec_stream view f ?d []" using s by (simp add: dec_stream_def dec_inv_def dec_block_def)
  then obtain d' where d': "decoder_updates h (Some ?d) cs = (Inr (), Some d')" "dec_stream view f d' bs" "de_token_size d' = 0"
    using decoder_updates_text [OF h fn cs, of ?d "[]" bs] tx by auto
  then show ?thesis using create
    by (auto simp: decode_stream_def NSSBase64Decoder_Destroy_def PL_DestroyBase64Decoder_def
        pl_base64_decode_flush_def dec_stream_def)
qed

section \<open>Properties\<close>

lemma emit_chars:
  "set (snd (foldl (b64_emit L) (col, out) ts)) \<subseteq> set out \<union> {B64_CR, B64_LF} \<union> \<Union> (set ` set ts)"
proof (induction ts arbitrary: col out)
  case (Cons t ts)
  obtain col' out' where e: "b64_emit L (col, out) t = (col', out')" "set out' \<subseteq> set out \<union> {B64_CR, B64_LF} \<union> set t"
    by (cases "b64_emit L (col, out) t") (auto split: if_splits)
  then show ?case using Cons.IH [of col' out'] by auto
qed auto

lemma text_chars: "c \<in> set (b64_text L bs) \<Longrightarrow> b64_relevant c \<or> c \<in> {B64_CR, B64_LF}"
  using emit_chars [of L 0 "[]" "b64_tokens bs"] relevant_tokens by (fastforce simp: b64_text_def)

lemma text_no_null: "0 \<notin> set (b64_text L bs)"
  using text_chars [of 0 L bs]
  by (auto simp: b64_relevant_def codetovaluep1_ranges B64_PAD_def B64_CR_def B64_LF_def)

lemma PORT_Strlen_text: "PORT_Strlen (b64_text L bs @ 0 # s) = Inr (length (b64_text L bs))"
proof -
  have "takeWhile (\<lambda>c. c \<noteq> 0) (b64_text L bs @ 0 # s) = b64_text L bs"
    using text_no_null [of L bs] by (subst takeWhile_append2) auto
  then show ?thesis by (simp add: PORT_Strlen_def)
qed

lemma item_alloc_total:
  assumes "nspr_total h" "n \<le> MAX_SIZE"
  shows "\<exists>m. item_alloc h arena n = Inr m"
proof -
  obtain a b where "PR_Malloc h (if n \<noteq> 0 then n else 1) = Some a" "PL_ARENA_ALLOCATE h (if n = 0 then 1 else n) = Some b"
    using assms(1) unfolding nspr_total_def by blast
  then show ?thesis using assms(2)
    by (auto simp: item_alloc_def PORT_Alloc_def PORT_ArenaAlloc_def Let_def MAX_SIZE_def)
qed

lemma SECITEM_AllocItem_total:
  assumes "nspr_total h" "unat len \<le> MAX_SIZE"
  shows "\<exists>it. SECITEM_AllocItem h arena (Some item) len = Inr it"
  using item_alloc_total [OF assms, of arena] by (auto simp: SECITEM_AllocItem_def Let_def)

text \<open>
  C11: Decoding is memory safe for every input: NSSBase64_DecodeBuffer never writes outside its blocks,
  fails only with an argument error, for lack of memory or without a code, and on success returns an
  item of at most three bytes for four characters, all inside its block.
\<close>

theorem base64_decode_memory_safe:
  assumes "nspr_ok h" "unat inLen \<le> length inStr"
  shows "case NSSBase64_DecodeBuffer h arena out inStr inLen of
      Inl (e, _) \<Rightarrow> e \<in> {SEC_ERROR_INVALID_ARGS, SEC_ERROR_NO_MEMORY, NO_ERROR_SET}
    | Inr it \<Rightarrow> \<exists>b. si_data it = Some b \<and> unat (si_len it) \<le> length b \<and> 4 * unat (si_len it) \<le> 3 * unat inLen"
proof -
  let ?n = "PL_Base64MaxDecodedLength inLen"
  consider "inLen = 0 \<or> (case out of None \<Rightarrow> False | Some it \<Rightarrow> si_data it \<noteq> None) \<or> ?n = 0"
    | e it where "inLen \<noteq> 0" "\<not> (case out of None \<Rightarrow> False | Some it \<Rightarrow> si_data it \<noteq> None)" "?n \<noteq> 0"
        "SECITEM_AllocItem h arena out ?n = Inl (e, it)"
    | it where "inLen \<noteq> 0" "\<not> (case out of None \<Rightarrow> False | Some it \<Rightarrow> si_data it \<noteq> None)" "?n \<noteq> 0"
        "SECITEM_AllocItem h arena out ?n = Inr it"
    by (cases "SECITEM_AllocItem h arena out ?n") auto
  then show ?thesis
  proof cases
    case 1
    then show ?thesis by (auto simp: NSSBase64_DecodeBuffer_def Let_def)
  next
    case 2
    then show ?thesis using SECITEM_AllocItem_error [OF assms(1) 2(4)] by (auto simp: NSSBase64_DecodeBuffer_def Let_def)
  next
    case 3
    obtain m where m: "si_data it = Some m" "length m = unat ?n"
      using SECITEM_AllocItem_ok [OF assms(1) 3(4)] 3(3) by auto
    have dest: "\<forall>b. Some m = Some b \<longrightarrow> unat ?n \<le> length b \<and> length b < 2 ^ 32 \<and> ?n \<le> ?n"
      using m(2) unsigned_less [of ?n, where 'a = nat] by simp
    show ?thesis
      using PL_Base64DecodeBuffer_safe [OF assms 3(1) dest] 3 m(1)
      by (auto simp: NSSBase64_DecodeBuffer_def Let_def)
  qed
qed

text \<open>
  C22: Text made by BTOA_DataToAscii is turned back by ATOB_AsciiToData: with memory available both
  return, and the result has the length and the bytes of the original data, up to a gigabyte.
\<close>

theorem base64_ascii_roundtrip:
  assumes h: "nspr_ok h" "nspr_total h" and data: "unat len \<le> length data" "0 < len" "len \<le> 0x3fffffff"
  shows "\<exists>str b. BTOA_DataToAscii h (Some data) len = Inr str \<and> ATOB_AsciiToData h str = Inr (Some b, len) \<and>
    take (unat len) b = take (unat len) data"
proof -
  let ?bs = "take (unat len) data"
  let ?txt = "b64_text 64 ?bs"
  let ?it = "\<lparr>si_type = siBuffer, si_data = Some data, si_len = len\<rparr>"
  obtain s where enc: "BTOA_DataToAscii h (Some data) len = Inr (?txt @ 0 # s)"
    using NSSBase64_EncodeItem_text [where item = ?it and h = h and src = data and outStr = None and arena = False and maxOutLen = 0]
      data h by (auto simp: BTOA_DataToAscii_def)
  have bs: "length ?bs = unat len" "?bs \<noteq> []" using data(1,2) by (auto simp: word_less_nat_alt)
  have len4: "4 \<le> length ?txt"
    using bs by (cases "(length ?bs + 2) div 3") (auto simp: length_b64_text)
  have small: "length ?txt \<le> 0x7FFFFFFE"
    using data(3) bs(1) by (intro b64_text_64_small) (simp add: word_le_nat_alt)
  define n where "n = (of_nat (length ?txt) :: u32)"
  have n: "unat n = length ?txt" using small by (simp add: n_def unat_of_nat take_bit_nat_eq_self)
  let ?m = "PL_Base64MaxDecodedLength n"
  have m: "unat ?m = 3 * length ?txt div 4" by (simp add: unat_max_decoded n)
  have nz: "n \<noteq> 0" "?m \<noteq> 0" using n m len4 by (auto simp: unat_eq_0 [symmetric] simp del: unat_eq_0)
  obtain it where it: "SECITEM_AllocItem h False (Some empty_item) ?m = Inr it"
  proof -
    have "unat ?m \<le> MAX_SIZE" using m small by (simp add: MAX_SIZE_def)
    then show ?thesis using SECITEM_AllocItem_total [OF h(2)] that by blast
  qed
  obtain b0 where b0: "si_data it = Some b0" "length b0 = unat ?m"
    using SECITEM_AllocItem_ok [OF h(1) it] nz(2) by auto
  have src: "unat n \<le> length (?txt @ 0 # s)" using n by simp
  have dest: "\<forall>b. Some b0 = Some b \<longrightarrow> unat ?m \<le> length b \<and> length b < 2 ^ 32 \<and> ?m \<le> ?m"
    using b0(2) unsigned_less [of ?m, where 'a = nat] by simp
  have "filter b64_relevant (take (unat n) (?txt @ 0 # s)) = concat (b64_tokens ?bs)"
    using filter_relevant_text [of 64 ?bs] n by simp
  then obtain buf where buf: "PL_Base64DecodeBuffer h (?txt @ 0 # s) n (Some b0) ?m = Inr (buf, of_nat (length ?bs))"
      "take (length ?bs) buf = ?bs"
    using PL_Base64DecodeBuffer_text [OF h(1) src nz(1) dest] h(2) by blast
  have "(of_nat (length ?bs) :: u32) = len" using bs(1) by simp
  then have "ATOB_AsciiToData h (?txt @ 0 # s) = Inr (Some buf, len)"
    using buf(1) nz it b0(1) unfolding n_def
    by (simp add: ATOB_AsciiToData_def PORT_Strlen_text NSSBase64_DecodeBuffer_def Let_def empty_item_def)
  then show ?thesis using enc buf(2) bs(1) by auto
qed



theorem base64_ascii_roundtrip_witness:
  "\<exists>str b. BTOA_DataToAscii zero_nspr (Some [77, 97, 110, 33]) 4 = Inr str \<and>
    ATOB_AsciiToData zero_nspr str = Inr (Some b, 4) \<and> take 4 b = [77, 97, 110, 33]"
  using base64_ascii_roundtrip [OF zero_nspr_ok zero_nspr_total, of 4 "[77, 97, 110, 33]"] by simp

theorem base64_decode_memory_safe_witness:
  "case NSSBase64_DecodeBuffer zero_nspr True None [84, 81, 61] 3 of
      Inl (e, _) \<Rightarrow> e \<in> {SEC_ERROR_INVALID_ARGS, SEC_ERROR_NO_MEMORY, NO_ERROR_SET}
    | Inr it \<Rightarrow> \<exists>b. si_data it = Some b \<and> unat (si_len it) \<le> length b \<and> 4 * unat (si_len it) \<le> 3 * unat (3 :: u32)"
  using base64_decode_memory_safe [OF zero_nspr_ok, of 3 "[84, 81, 61]" True None] by simp

lemma takeWhile_index: "distinct xs \<Longrightarrow> k < length xs \<Longrightarrow> length (takeWhile (\<lambda>x. x \<noteq> xs ! k) xs) = k"
proof (induction xs arbitrary: k)
  case (Cons x xs)
  then show ?case by (cases k) auto
qed simp

text \<open>
  C23: The branch-free code lookup of the decoder agrees on every byte with a search of the encoder's
  table: one more than the position of the character there, and 0 for a character outside the alphabet.
\<close>

theorem base64_constant_time_lookup:
  "pl_base64_codetovaluep1 c =
     (if c \<in> set base64_valuetocode then word_of_nat (Suc (length (takeWhile (\<lambda>x. x \<noteq> c) base64_valuetocode))) else 0)"
proof (cases "c \<in> set base64_valuetocode")
  case True
  have "length base64_valuetocode = 64" "distinct base64_valuetocode" by (simp_all add: base64_valuetocode_def)
  with True obtain k where "k < 64" "base64_valuetocode ! k = c" "length (takeWhile (\<lambda>x. x \<noteq> c) base64_valuetocode) = k"
    by (metis in_set_conv_nth takeWhile_index)
  then show ?thesis using code_roundtrip [of k] True by simp
qed (simp add: code_zero)

end
