(* ===== verification/Hkdf_Label.thy ===== *)
theory Hkdf_Label
  imports Ssl_Encode
begin

text \<open>
  \<^verbatim>\<open>lib/ssl/tls13hkdf.c\<close>: the TLS 1.3 key schedule's calls into the token. The PKCS #11 layer
  is a record of functions; what is modelled is what the code hands to it, the label encoding above all.
\<close>

section \<open>The PKCS 11 interface\<close>

type_synonym ck_ulong = u64

abbreviation CK_INVALID_HANDLE :: ck_ulong where
  "CK_INVALID_HANDLE \<equiv> 0"

abbreviation CKO_DATA :: ck_ulong where
  "CKO_DATA \<equiv> 0"

abbreviation CKK_GENERIC_SECRET :: ck_ulong where
  "CKK_GENERIC_SECRET \<equiv> 0x10"

abbreviation CKK_HKDF :: ck_ulong where
  "CKK_HKDF \<equiv> 0x42"

abbreviation CKM_HKDF_DERIVE :: ck_ulong where
  "CKM_HKDF_DERIVE \<equiv> 0x402a"

abbreviation CKM_HKDF_DATA :: ck_ulong where
  "CKM_HKDF_DATA \<equiv> 0x402b"

abbreviation CKF_HKDF_SALT_NULL :: ck_ulong where
  "CKF_HKDF_SALT_NULL \<equiv> 1"

abbreviation CKF_HKDF_SALT_DATA :: ck_ulong where
  "CKF_HKDF_SALT_DATA \<equiv> 2"

abbreviation CKF_HKDF_SALT_KEY :: ck_ulong where
  "CKF_HKDF_SALT_KEY \<equiv> 4"

abbreviation CKF_ENCRYPT :: ck_ulong where
  "CKF_ENCRYPT \<equiv> 0x100"

abbreviation CKF_DECRYPT :: ck_ulong where
  "CKF_DECRYPT \<equiv> 0x200"

abbreviation CKF_SIGN :: ck_ulong where
  "CKF_SIGN \<equiv> 0x800"

abbreviation CKF_VERIFY :: ck_ulong where
  "CKF_VERIFY \<equiv> 0x2000"

datatype SSLHashType =
    ssl_hash_none | ssl_hash_md5 | ssl_hash_sha1 | ssl_hash_sha224
  | ssl_hash_sha256 | ssl_hash_sha384 | ssl_hash_sha512

datatype SSLProtocolVariant = ssl_variant_stream | ssl_variant_datagram

text \<open>A pointer with its length is the bytes it points to; a null pointer is \<open>None\<close>.\<close>

record CK_HKDF_PARAMS =
  bExtract :: bool
  bExpand :: bool
  prfHashMechanism :: ck_ulong
  ulSaltType :: ck_ulong
  pSalt :: "byte list option"
  hSaltKey :: ck_ulong
  pInfo :: "byte list option"

text \<open>
  The functions of the PKCS #11 layer the file calls, with the fixed arguments left out. Attribute
  values are bytes; \<open>PK11_DeriveWithFlags\<close> takes the mechanism, the base key, the parameters, the target
  mechanism, the key size and the flags.
\<close>

record ('k, 's) pk11_ops =
  PK11_ReadRawAttribute_class :: "'k \<Rightarrow> byte list result"
  PK11_GetSlotFromKey :: "'k \<Rightarrow> 's option"
  PK11_DoesMechanism_hkdf :: "'s \<Rightarrow> bool"
  PK11_GetBestSlot_hkdf :: "'s option"
  PK11_ImportDataKey :: "'s \<Rightarrow> byte list \<Rightarrow> 'k result"
  PK11_SymKeysToSameSlot :: "'k \<Rightarrow> 'k \<Rightarrow> ('k option \<times> 'k option) result"
  PK11_ExtractKeyValue :: "'k \<Rightarrow> unit result"
  PK11_GetKeyData :: "'k \<Rightarrow> byte list option"
  PK11_GetSymKeyHandle :: "'k \<Rightarrow> ck_ulong"
  PK11_GetKeyType :: "ck_ulong \<Rightarrow> u32 \<Rightarrow> ck_ulong"
  PK11_Derive :: "'k \<Rightarrow> CK_HKDF_PARAMS \<Rightarrow> 'k result"
  PK11_DeriveWithFlags :: "ck_ulong \<Rightarrow> 'k \<Rightarrow> CK_HKDF_PARAMS \<Rightarrow> ck_ulong \<Rightarrow> u32 \<Rightarrow> ck_ulong \<Rightarrow> 'k result"

fun kTlsHkdfInfo :: "SSLHashType \<Rightarrow> ck_ulong \<times> nat" where
  "kTlsHkdfInfo ssl_hash_none = (0, 0)"
| "kTlsHkdfInfo ssl_hash_md5 = (0, 0)"
| "kTlsHkdfInfo ssl_hash_sha1 = (0, 0)"
| "kTlsHkdfInfo ssl_hash_sha224 = (0, 0)"
| "kTlsHkdfInfo ssl_hash_sha256 = (0x250, 32)"
| "kTlsHkdfInfo ssl_hash_sha384 = (0x260, 48)"
| "kTlsHkdfInfo ssl_hash_sha512 = (0x270, 64)"

section \<open>Extraction\<close>

text \<open>
  The class attribute is a \<open>CK_OBJECT_CLASS\<close> of eight bytes in memory order (little-endian). An
  attribute of another length ends the function with the status of the read, which is success: the
  result then has no key.
\<close>

definition le_ulong :: "byte list \<Rightarrow> ck_ulong" where
  "le_ulong bs = word_of_nat (be_value (rev bs))"

definition hkdf_zero_key :: "('k, 's) pk11_ops \<Rightarrow> 'k option \<Rightarrow> SSLHashType \<Rightarrow> 'k result" where
  "hkdf_zero_key tk ikm1 baseHash =
     (let slot = (case ikm1 of None \<Rightarrow> None | Some k \<Rightarrow> PK11_GetSlotFromKey tk k);
          slot = (case slot of
                    Some s \<Rightarrow> (if PK11_DoesMechanism_hkdf tk s then Some s else PK11_GetBestSlot_hkdf tk)
                  | None \<Rightarrow> PK11_GetBestSlot_hkdf tk)
      in case slot of
           None \<Rightarrow> Inl NO_ERROR_SET
         | Some s \<Rightarrow> PK11_ImportDataKey tk s (replicate (snd (kTlsHkdfInfo baseHash)) 0))"

text \<open>The salt parameters, and the base key that goes with them.\<close>

definition hkdf_salt ::
    "('k, 's) pk11_ops \<Rightarrow> 'k option \<Rightarrow> 'k \<Rightarrow> ck_ulong \<Rightarrow> SSLHashType \<Rightarrow> (CK_HKDF_PARAMS \<times> 'k) result" where
  "hkdf_salt tk ikm1 ikm2 ikm2Class baseHash =
     (let params = \<lparr>bExtract = True, bExpand = False, prfHashMechanism = fst (kTlsHkdfInfo baseHash),
                    ulSaltType = 0, pSalt = None, hSaltKey = CK_INVALID_HANDLE, pInfo = None\<rparr>
      in case ikm1 of
           None \<Rightarrow>
             Inr (if ikm2Class = CKO_DATA
                  then params\<lparr>pSalt := Some (replicate (snd (kTlsHkdfInfo baseHash)) 0),
                              ulSaltType := CKF_HKDF_SALT_DATA\<rparr>
                  else params\<lparr>ulSaltType := CKF_HKDF_SALT_NULL\<rparr>, ikm2)
         | Some ikm1 \<Rightarrow>
             (case PK11_SymKeysToSameSlot tk ikm2 ikm1 of
                Inl _ \<Rightarrow>
                  res_bind (PK11_ExtractKeyValue tk ikm1) (\<lambda>_.
                    case PK11_GetKeyData tk ikm1 of
                      None \<Rightarrow> Inl NO_ERROR_SET
                    | Some salt \<Rightarrow> Inr (params\<lparr>pSalt := Some salt, ulSaltType := CKF_HKDF_SALT_DATA\<rparr>, ikm2))
              | Inr (movedIkm2, movedIkm1) \<Rightarrow>
                  Inr (params\<lparr>hSaltKey := PK11_GetSymKeyHandle tk (case movedIkm1 of None \<Rightarrow> ikm1 | Some k \<Rightarrow> k),
                              ulSaltType := CKF_HKDF_SALT_KEY\<rparr>,
                       case movedIkm2 of None \<Rightarrow> ikm2 | Some k \<Rightarrow> k)))"

definition tls13_HkdfExtract ::
    "('k, 's) pk11_ops \<Rightarrow> 'k option \<Rightarrow> 'k option \<Rightarrow> SSLHashType \<Rightarrow> bool \<Rightarrow> 'k option result" where
  "tls13_HkdfExtract tk ikm1 ikm2 baseHash prkp =
     (if \<not> prkp then Inl SEC_ERROR_INVALID_ARGS
      else
        case (case ikm2 of
                Some k \<Rightarrow> res_bind (PK11_ReadRawAttribute_class tk k) (\<lambda>cls.
                            Inr (if length cls \<noteq> 8 then None else Some (k, le_ulong cls)))
              | None \<Rightarrow> res_bind (hkdf_zero_key tk ikm1 baseHash) (\<lambda>k. Inr (Some (k, CKO_DATA)))) of
          Inl e \<Rightarrow> Inl e
        | Inr None \<Rightarrow> Inr None
        | Inr (Some (ikm2, ikm2Class)) \<Rightarrow>
            res_bind (hkdf_salt tk ikm1 ikm2 ikm2Class baseHash) (\<lambda>(params, ikm2).
            res_bind (PK11_Derive tk ikm2 params) (\<lambda>prk. Inr (Some prk))))"

section \<open>Expansion\<close>

definition kLabelPrefix :: "SSLProtocolVariant \<Rightarrow> byte list" where
  "kLabelPrefix variant =
     map of_char (if variant = ssl_variant_stream then ''tls13 '' else ''dtls13'')"

text \<open>The encoded label, in the stack array \<open>info\<close> of 256 bytes.\<close>

definition hkdf_label_info ::
    "nspr \<Rightarrow> byte list \<Rightarrow> byte list option \<Rightarrow> u32 \<Rightarrow> byte list \<Rightarrow> u32 \<Rightarrow> u32 \<Rightarrow> SSLProtocolVariant \<Rightarrow> byte list result" where
  "hkdf_label_info h info handshakeHash handshakeHashLen label labelLen keySize variant =
     (let prefixLen = of_nat (length (kLabelPrefix variant)) in
      if handshakeHashLen > 255 \<or> (handshakeHash = None \<and> handshakeHashLen > 0) \<or>
         labelLen > 255 - prefixLen
      then Inl SEC_ERROR_INVALID_ARGS
      else
        res_bind (sslBuffer_AppendNumber h (SSL_BUFFER_FIXED info 256) (ucast keySize) 2) (\<lambda>infoBuf.
        res_bind (sslBuffer_AppendNumber h infoBuf (ucast (labelLen + prefixLen)) 1) (\<lambda>infoBuf.
        res_bind (sslBuffer_Append h infoBuf (kLabelPrefix variant) prefixLen) (\<lambda>infoBuf.
        res_bind (sslBuffer_Append h infoBuf label labelLen) (\<lambda>infoBuf.
        res_bind (sslBuffer_AppendVariable h infoBuf
                    (case handshakeHash of None \<Rightarrow> [] | Some b \<Rightarrow> b) handshakeHashLen 1) (\<lambda>infoBuf.
        Inr (sslBuffer_contents infoBuf)))))))"

text \<open>
  The salt fields of the parameters, which a token does not read when only expanding, are left unset
  by the code and zero here.
\<close>

definition tls13_HkdfExpandLabelGeneral ::
    "nspr \<Rightarrow> ('k, 's) pk11_ops \<Rightarrow> byte list \<Rightarrow> ck_ulong \<Rightarrow> 'k \<Rightarrow> SSLHashType \<Rightarrow> byte list option \<Rightarrow> u32 \<Rightarrow>
     byte list \<Rightarrow> u32 \<Rightarrow> ck_ulong \<Rightarrow> u32 \<Rightarrow> SSLProtocolVariant \<Rightarrow> 'k result" where
  "tls13_HkdfExpandLabelGeneral h tk info deriveMech prk baseHash handshakeHash handshakeHashLen
       label labelLen algorithm keySize variant =
     (let targetKeyType = PK11_GetKeyType tk algorithm keySize;
          flags = (if deriveMech \<noteq> CKM_HKDF_DATA
                   then (CKF_SIGN OR CKF_VERIFY) OR
                        (if targetKeyType \<noteq> CKK_GENERIC_SECRET \<and> targetKeyType \<noteq> CKK_HKDF
                         then CKF_ENCRYPT OR CKF_DECRYPT else 0)
                   else 0)
      in res_bind (hkdf_label_info h info handshakeHash handshakeHashLen label labelLen keySize variant) (\<lambda>i.
         PK11_DeriveWithFlags tk deriveMech prk
           \<lparr>bExtract = False, bExpand = True, prfHashMechanism = fst (kTlsHkdfInfo baseHash),
            ulSaltType = 0, pSalt = None, hSaltKey = 0, pInfo = Some i\<rparr>
           algorithm keySize flags))"

definition tls13_HkdfExpandLabel ::
    "nspr \<Rightarrow> ('k, 's) pk11_ops \<Rightarrow> byte list \<Rightarrow> 'k \<Rightarrow> SSLHashType \<Rightarrow> byte list option \<Rightarrow> u32 \<Rightarrow>
     byte list \<Rightarrow> u32 \<Rightarrow> ck_ulong \<Rightarrow> u32 \<Rightarrow> SSLProtocolVariant \<Rightarrow> 'k result" where
  "tls13_HkdfExpandLabel h tk info prk = tls13_HkdfExpandLabelGeneral h tk info CKM_HKDF_DERIVE prk"

text \<open>The raw bytes of a derived data object, copied to the output of the same length.\<close>

definition tls13_HkdfExpandLabelRaw ::
    "nspr \<Rightarrow> ('k, 's) pk11_ops \<Rightarrow> byte list \<Rightarrow> 'k \<Rightarrow> SSLHashType \<Rightarrow> byte list option \<Rightarrow> u32 \<Rightarrow>
     byte list \<Rightarrow> u32 \<Rightarrow> SSLProtocolVariant \<Rightarrow> byte list \<Rightarrow> u32 \<Rightarrow> byte list result" where
  "tls13_HkdfExpandLabelRaw h tk info prk baseHash handshakeHash handshakeHashLen label labelLen variant
       output outputLen =
     (case res_bind (tls13_HkdfExpandLabelGeneral h tk info CKM_HKDF_DATA prk baseHash handshakeHash
                       handshakeHashLen label labelLen CKM_HKDF_DERIVE outputLen variant) (\<lambda>derived.
           res_bind (PK11_ExtractKeyValue tk derived) (\<lambda>_. Inr (PK11_GetKeyData tk derived))) of
        Inr (Some rawkey) \<Rightarrow> res_bind (mem_read rawkey 0 (unat outputLen)) (mem_write output 0)
      | Inr None \<Rightarrow> Inl SSL_ERROR_SYM_KEY_CONTEXT_FAILURE
      | Inl e \<Rightarrow> Inl (if e = UNDEFINED_BEHAVIOUR then e else SSL_ERROR_SYM_KEY_CONTEXT_FAILURE))"

section \<open>Lemmas: buffers over a fixed array\<close>

definition fixed_at :: "nat \<Rightarrow> sslBuffer \<Rightarrow> byte list \<Rightarrow> bool" where
  "fixed_at N b cs \<longleftrightarrow>
     N < 2 ^ 31 \<and>
     (\<exists>m. b = \<lparr>sb_buf = Some (cs @ m), sb_len = of_nat (length cs), sb_space = of_nat N, sb_fixed = True\<rparr> \<and>
          length cs + length m = N)"

definition fixed_append :: "nat \<Rightarrow> byte list \<Rightarrow> byte list \<Rightarrow> sslBuffer result \<Rightarrow> bool" where
  "fixed_append N cs src r \<longleftrightarrow>
     (if length cs + length src \<le> N then \<exists>b. r = Inr b \<and> fixed_at N b (cs @ src)
      else r = Inl SEC_ERROR_LIBRARY_FAILURE)"

lemma fixed_at_init: "length info = N \<Longrightarrow> N < 2 ^ 31 \<Longrightarrow> fixed_at N (SSL_BUFFER_FIXED info (of_nat N)) []"
  by (simp add: fixed_at_def SSL_BUFFER_FIXED_def)

lemma fixed_at_contents: "fixed_at N b cs \<Longrightarrow> sslBuffer_contents b = cs"
  by (auto simp: fixed_at_def sslBuffer_contents_def unat_of_nat take_bit_nat_eq_self)

lemma fixed_grow:
  assumes "fixed_at N b cs" and "unat k < 2 ^ 31"
  shows "sslBuffer_Grow h b (sb_len b + k) =
    (if length cs + unat k \<le> N then Inr b else Inl SEC_ERROR_LIBRARY_FAILURE)"
proof -
  have "unat (of_nat (length cs) + k :: u32) = length cs + unat k" "unat (of_nat N :: u32) = N"
    using assms by (auto simp: fixed_at_def unat_plus_no_wrap unat_of_nat take_bit_nat_eq_self)
  then show ?thesis
    using assms by (auto simp: fixed_at_def sslBuffer_Grow_def word_less_nat_alt)
qed

lemma fixed_put:
  assumes "fixed_at N b cs" and "length cs + length src \<le> N"
  shows "\<exists>b'. sslBuffer_put b (unat (sb_len b)) src = Inr b' \<and> sb_len b' = sb_len b \<and>
    fixed_at N (b'\<lparr>sb_len := sb_len b + of_nat (length src)\<rparr>) (cs @ src)"
proof -
  obtain m where b: "b = \<lparr>sb_buf = Some (cs @ m), sb_len = of_nat (length cs), sb_space = of_nat N, sb_fixed = True\<rparr>"
      "length cs + length m = N" "N < 2 ^ 31"
    using assms(1) by (auto simp: fixed_at_def)
  have "unat (of_nat (length cs) :: u32) = length cs" using b by (simp add: unat_of_nat take_bit_nat_eq_self)
  then have "sslBuffer_put b (unat (sb_len b)) src = Inr (b\<lparr>sb_buf := Some (cs @ src @ drop (length src) m)\<rparr>)"
    using b assms(2) by (cases "src = []") (simp_all add: sslBuffer_put_def mem_simps)
  then show ?thesis using b assms(2) by (auto simp: fixed_at_def)
qed

lemma fixed_grow_put:
  assumes "fixed_at N b cs" and "unat k = length src" "length src < 2 ^ 31"
  shows "fixed_append N cs src (res_bind (sslBuffer_Grow h b (sb_len b + k))
    (\<lambda>b. res_bind (sslBuffer_put b (unat (sb_len b)) src) (\<lambda>b. Inr (b\<lparr>sb_len := sb_len b + k\<rparr>))))"
proof -
  have "k = of_nat (length src)" unfolding assms(2) [symmetric] by simp
  then show ?thesis
    using fixed_put [OF assms(1), of src] fixed_grow [OF assms(1), of k h] assms(2,3)
    by (auto simp: fixed_append_def)
qed

lemma fixed_AppendNumber:
  assumes "fixed_at N b cs" and "sz \<le> 8"
  shows "fixed_append N cs (be_bytes (unat sz) (unat v)) (sslBuffer_AppendNumber h b v sz)"
proof -
  have sz: "unat sz \<le> 8" using assms(2) by (simp add: word_le_nat_alt)
  then show ?thesis
    using fixed_grow_put [OF assms(1), of sz "be_bytes (unat sz) (unat v)" h]
    by (simp add: sslBuffer_AppendNumber_def ssl_EncodeUintX_be_bytes)
qed

lemma fixed_Append:
  assumes "fixed_at N b cs" and "unat len \<le> length data" "unat len < 2 ^ 31"
  shows "fixed_append N cs (take (unat len) data) (sslBuffer_Append h b data len)"
  using fixed_grow_put [OF assms(1), of len "take (unat len) data" h] assms(2,3)
  by (cases "len = 0") (simp_all add: sslBuffer_Append_def mem_simps word_neq_0_conv)

lemma fixed_AppendVariable:
  assumes b: "fixed_at N b cs" and len: "unat len \<le> length data" "unat len < 256" 
  shows "fixed_append N cs (ucast len # take (unat len) data) (sslBuffer_AppendVariable h b data len 1)"
proof -
  have e: "ssl_EncodeUintX (ucast len) 1 = [ucast len]"
    by (simp add: ssl_EncodeUintX_be_bytes unat_ucast_le)
  have k: "unat (len + 1) = Suc (unat len)" using len(2) by (simp add: unat_plus_no_wrap)
  have g: "sslBuffer_Grow h b (sb_len b + len + 1) =
      (if length cs + Suc (unat len) \<le> N then Inr b else Inl SEC_ERROR_LIBRARY_FAILURE)"
    unfolding add.assoc using fixed_grow [OF b, of "len + 1" h] k len(2) by simp
  show ?thesis
  proof (cases "length cs + Suc (unat len) \<le> N")
    case True
    obtain b1 where b1: "sslBuffer_put b (unat (sb_len b)) [ucast len] = Inr b1" "sb_len b1 = sb_len b"
        "fixed_at N (b1\<lparr>sb_len := sb_len b + 1\<rparr>) (cs @ [ucast len])"
      using fixed_put [OF b, of "[ucast len]"] True by auto
    obtain b2 where "sslBuffer_put (b1\<lparr>sb_len := sb_len b + 1\<rparr>) (unat (sb_len b + 1)) (take (unat len) data) = Inr b2"
        "sb_len b2 = sb_len b + 1" "fixed_at N (b2\<lparr>sb_len := sb_len b + 1 + len\<rparr>) ((cs @ [ucast len]) @ take (unat len) data)"
      using fixed_put [OF b1(3), of "take (unat len) data"] True len(1) by (auto simp: min_absorb2)
    then show ?thesis using True len g e b1
      by (cases "len = 0") (auto simp: fixed_append_def sslBuffer_AppendVariable_def Let_def mem_simps)
  next
    case False
    then show ?thesis using g len by (simp add: fixed_append_def sslBuffer_AppendVariable_def)
  qed
qed

section \<open>The encoded label\<close>

text \<open>The structure HkdfLabel of RFC 8446, section 7.1.\<close>

definition HkdfLabel :: "nat \<Rightarrow> byte list \<Rightarrow> byte list \<Rightarrow> byte list" where
  "HkdfLabel len label context_hash =
     be_bytes 2 len @ be_bytes 1 (length label) @ label @ be_bytes 1 (length context_hash) @ context_hash"

lemma length_kLabelPrefix [simp]: "length (kLabelPrefix v) = 6"
  by (simp add: kLabelPrefix_def)

lemma kLabelPrefix_inject: "kLabelPrefix v = kLabelPrefix w \<longleftrightarrow> v = w"
  by (cases v; cases w; simp add: kLabelPrefix_def)

lemma fixed_append_cases:
  assumes "fixed_append N cs src r"
  obtains "length cs + length src > N" "r = Inl SEC_ERROR_LIBRARY_FAILURE"
    | b where "length cs + length src \<le> N" "r = Inr b" "fixed_at N b (cs @ src)"
  using assms by (auto simp: fixed_append_def split: if_splits)

lemma hkdf_label_info_run:
  assumes info: "length info = 256" and label: "unat labelLen \<le> length label" "labelLen \<le> 249"
    and hash: "unat hashLen \<le> length (case hash of None \<Rightarrow> [] | Some b \<Rightarrow> b)" "hashLen \<le> 255"
  shows "hkdf_label_info h info hash hashLen label labelLen keySize variant =
    (if 10 + unat labelLen + unat hashLen > 256 then Inl SEC_ERROR_LIBRARY_FAILURE
     else Inr (HkdfLabel (unat keySize) (kLabelPrefix variant @ take (unat labelLen) label)
                 (take (unat hashLen) (case hash of None \<Rightarrow> [] | Some b \<Rightarrow> b))))"
proof -
  let ?hash = "case hash of None \<Rightarrow> [] | Some b \<Rightarrow> b"
  let ?n = "be_bytes 2 (unat (ucast keySize :: u64))" and ?l = "be_bytes 1 (unat (ucast (labelLen + 6) :: u64))"
  have guard: "\<not> (hashLen > 255 \<or> (hash = None \<and> hashLen > 0) \<or> labelLen > 255 - of_nat 6)"
    using label hash by (cases hash) (auto simp: not_less word_le_nat_alt)
  have L: "unat labelLen \<le> 249" "unat hashLen \<le> 255"
    using label(2) hash(2) by (simp_all add: word_le_nat_alt)
  obtain b1 where b1: "sslBuffer_AppendNumber h (SSL_BUFFER_FIXED info 256) (ucast keySize) 2 = Inr b1" "fixed_at 256 b1 ?n"
    using fixed_AppendNumber [OF fixed_at_init [of info 256], of 2 "ucast keySize" h] info by (auto simp: fixed_append_def)
  obtain b2 where b2: "sslBuffer_AppendNumber h b1 (ucast (labelLen + 6)) 1 = Inr b2" "fixed_at 256 b2 (?n @ ?l)"
    using fixed_AppendNumber [OF b1(2), of 1 "ucast (labelLen + 6)" h] by (auto simp: fixed_append_def)
  obtain b3 where b3: "sslBuffer_Append h b2 (kLabelPrefix variant) 6 = Inr b3" "fixed_at 256 b3 (?n @ ?l @ kLabelPrefix variant)"
    using fixed_Append [OF b2(2), of 6 "kLabelPrefix variant" h] by (auto simp: fixed_append_def)
  have run: "hkdf_label_info h info hash hashLen label labelLen keySize variant =
      res_bind (sslBuffer_Append h b3 label labelLen) (\<lambda>b.
      res_bind (sslBuffer_AppendVariable h b ?hash hashLen 1) (\<lambda>b. Inr (sslBuffer_contents b)))"
    unfolding hkdf_label_info_def Let_def length_kLabelPrefix if_not_P [OF guard]
    using b1(1) b2(1) b3(1) by simp
  have "fixed_append 256 (?n @ ?l @ kLabelPrefix variant) (take (unat labelLen) label) (sslBuffer_Append h b3 label labelLen)"
    using fixed_Append [OF b3(2) label(1)] L by simp
  then show ?thesis
  proof (cases rule: fixed_append_cases)
    case 1
    then show ?thesis using run label(1) by simp
  next
    case (2 b4)
    have lab: "unat (ucast (labelLen + 6) :: u64) = unat labelLen + 6"
      using L by (simp add: unat_ucast_le unat_plus_no_wrap)
    have "fixed_append 256 ((?n @ ?l @ kLabelPrefix variant) @ take (unat labelLen) label)
        (ucast hashLen # take (unat hashLen) ?hash) (sslBuffer_AppendVariable h b4 ?hash hashLen 1)"
      using fixed_AppendVariable [OF 2(3) hash(1)] L by simp
    then show ?thesis
      by (cases rule: fixed_append_cases)
        (use run 2 label(1) hash(1) lab in \<open>simp_all add: fixed_at_contents HkdfLabel_def unat_ucast_le min_absorb2\<close>)
  qed
qed

lemma hkdf_label_info_safe:
  assumes "length info = 256" "unat labelLen \<le> length label" "\<And>b. hash = Some b \<Longrightarrow> unat hashLen \<le> length b"
    and "hkdf_label_info h info hash hashLen label labelLen keySize variant = Inl e"
  shows "e \<in> {SEC_ERROR_INVALID_ARGS, SEC_ERROR_LIBRARY_FAILURE}"
proof (cases "hashLen > 255 \<or> (hash = None \<and> hashLen \<noteq> 0) \<or> labelLen > 249")
  case True
  then show ?thesis using assms(4) by (auto simp: hkdf_label_info_def word_neq_0_conv)
next
  case False
  then have "unat hashLen \<le> length (case hash of None \<Rightarrow> [] | Some b \<Rightarrow> b)"
    using assms(3) by (cases hash) auto
  from hkdf_label_info_run [OF assms(1,2) _ this] False assms(4) show ?thesis
    by (auto simp: not_less split: if_splits)
qed

lemma be_bytes_inject: "v < 256 ^ n \<Longrightarrow> w < 256 ^ n \<Longrightarrow> be_bytes n v = be_bytes n w \<longleftrightarrow> v = w"
  by (metis be_value_be_bytes mod_less)

lemma HkdfLabel_inject:
  assumes "n < 65536" "n' < 65536" "length l < 256" "length l' < 256" "length c < 256" "length c' < 256"
    and eq: "HkdfLabel n l c = HkdfLabel n' l' c'"
  shows "n = n' \<and> l = l' \<and> c = c'"
proof -
  have "be_bytes 2 n = be_bytes 2 n'"
    and 1: "be_bytes 1 (length l) @ l @ be_bytes 1 (length c) @ c = be_bytes 1 (length l') @ l' @ be_bytes 1 (length c') @ c'"
    using eq by (simp_all add: HkdfLabel_def)
  then have "n = n'" using assms(1,2) by (simp add: be_bytes_inject)
  moreover have "be_bytes 1 (length l) = be_bytes 1 (length l')" using 1 by simp
  then have l: "length l = length l'" using assms(3,4) by (simp only: be_bytes_inject power_one_right)
  with 1 have "l = l'" "be_bytes 1 (length c) @ c = be_bytes 1 (length c') @ c'" by simp_all
  ultimately show ?thesis by simp
qed

section \<open>Extraction parameters\<close>

text \<open>The assertions the code makes about the parameters before it calls the token.\<close>

definition hkdf_extract_asserts :: "SSLHashType \<Rightarrow> ck_ulong \<Rightarrow> CK_HKDF_PARAMS \<Rightarrow> bool" where
  "hkdf_extract_asserts baseHash ikm2Class params \<longleftrightarrow>
     prfHashMechanism params = fst (kTlsHkdfInfo baseHash) \<and> prfHashMechanism params \<noteq> 0 \<and>
     snd (kTlsHkdfInfo baseHash) \<noteq> 0 \<and>
     (ulSaltType params = CKF_HKDF_SALT_DATA \<longrightarrow> hSaltKey params = CK_INVALID_HANDLE \<and> pSalt params \<noteq> None) \<and>
     (ulSaltType params = CKF_HKDF_SALT_NULL \<longrightarrow>
        ikm2Class \<noteq> CKO_DATA \<and> hSaltKey params = CK_INVALID_HANDLE \<and> pSalt params = None) \<and>
     (ulSaltType params = CKF_HKDF_SALT_KEY \<longrightarrow> hSaltKey params \<noteq> CK_INVALID_HANDLE \<and> pSalt params = None) \<and>
     ulSaltType params \<in> {CKF_HKDF_SALT_DATA, CKF_HKDF_SALT_NULL, CKF_HKDF_SALT_KEY}"

lemma hkdf_salt_asserts:
  assumes "hkdf_salt tk ikm1 ikm2 cls baseHash = Inr (params, k)"
    and "\<And>k. PK11_GetSymKeyHandle tk k \<noteq> CK_INVALID_HANDLE"
    and "baseHash \<in> {ssl_hash_sha256, ssl_hash_sha384, ssl_hash_sha512}"
  shows "hkdf_extract_asserts baseHash cls params"
  using assms
  by (auto simp: hkdf_salt_def hkdf_extract_asserts_def Let_def split: option.splits sum.splits if_splits)

section \<open>Raw output\<close>

text \<open>
  What the code relies on of the token when it reads derived bytes back: a derived data object has the
  length that was asked for (the assertion of \<^verbatim>\<open>tls13_HkdfExpandLabelRaw\<close>).
\<close>

definition hkdf_token_ok :: "('k, 's) pk11_ops \<Rightarrow> bool" where
  "hkdf_token_ok tk \<longleftrightarrow>
     (\<forall>m k p a n f. case PK11_DeriveWithFlags tk m k p a n f of
        Inl e \<Rightarrow> e \<noteq> UNDEFINED_BEHAVIOUR
      | Inr d \<Rightarrow> (\<forall>raw. PK11_GetKeyData tk d = Some raw \<longrightarrow> length raw = unat n)) \<and>
     (\<forall>k. PK11_ExtractKeyValue tk k \<noteq> Inl UNDEFINED_BEHAVIOUR)"

lemma tls13_HkdfExpandLabelRaw_ok:
  assumes tk: "hkdf_token_ok tk" and info: "length info = 256" and label: "unat labelLen \<le> length label"
    and hash: "\<And>b. hash = Some b \<Longrightarrow> unat hashLen \<le> length b" and out: "unat outputLen \<le> length output"
  shows "tls13_HkdfExpandLabelRaw h tk info prk bh hash hashLen label labelLen variant output outputLen =
      Inl SSL_ERROR_SYM_KEY_CONTEXT_FAILURE \<or>
    (\<exists>b. tls13_HkdfExpandLabelRaw h tk info prk bh hash hashLen label labelLen variant output outputLen = Inr b \<and>
       length b = length output)"
proof (cases "tls13_HkdfExpandLabelGeneral h tk info CKM_HKDF_DATA prk bh hash hashLen label labelLen CKM_HKDF_DERIVE outputLen variant")
  case (Inl e)
  have "e \<noteq> UNDEFINED_BEHAVIOUR"
  proof (cases "hkdf_label_info h info hash hashLen label labelLen outputLen variant")
    case e': (Inl e')
    have "e' \<in> {SEC_ERROR_INVALID_ARGS, SEC_ERROR_LIBRARY_FAILURE}"
      by (rule hkdf_label_info_safe [OF info label hash e'])
    then show ?thesis using Inl e' by (auto simp: tls13_HkdfExpandLabelGeneral_def Let_def)
  next
    case (Inr i)
    then show ?thesis using Inl tk by (auto simp: tls13_HkdfExpandLabelGeneral_def hkdf_token_ok_def Let_def split: sum.splits)
  qed
  then show ?thesis using Inl by (simp add: tls13_HkdfExpandLabelRaw_def)
next
  case (Inr d)
  have raw: "length raw = unat outputLen" if "PK11_GetKeyData tk d = Some raw" for raw
    using Inr tk that by (auto simp: tls13_HkdfExpandLabelGeneral_def hkdf_token_ok_def Let_def split: sum.splits)
  show ?thesis
  proof (cases "PK11_ExtractKeyValue tk d")
    case (Inl e)
    then have "e \<noteq> UNDEFINED_BEHAVIOUR" using tk by (auto simp: hkdf_token_ok_def)
    then show ?thesis using Inr Inl by (simp add: tls13_HkdfExpandLabelRaw_def)
  next
    case ex: (Inr u)
    then show ?thesis using Inr raw out
      by (cases "PK11_GetKeyData tk d") (auto simp: tls13_HkdfExpandLabelRaw_def mem_simps)
  qed
qed

text \<open>A token over byte strings, for concrete evaluations.\<close>

definition bytes_token :: "(byte list, unit) pk11_ops" where
  "bytes_token =
     \<lparr>PK11_ReadRawAttribute_class = (\<lambda>k. Inr [4, 0, 0, 0, 0, 0, 0, 0]),
      PK11_GetSlotFromKey = (\<lambda>k. Some ()), PK11_DoesMechanism_hkdf = (\<lambda>s. True),
      PK11_GetBestSlot_hkdf = Some (), PK11_ImportDataKey = (\<lambda>s b. Inr b),
      PK11_SymKeysToSameSlot = (\<lambda>a b. Inr (None, None)),
      PK11_ExtractKeyValue = (\<lambda>k. Inr ()), PK11_GetKeyData = (\<lambda>k. Some k),
      PK11_GetSymKeyHandle = (\<lambda>k. 7), PK11_GetKeyType = (\<lambda>a n. 0),
      PK11_Derive = (\<lambda>k p. Inr k),
      PK11_DeriveWithFlags = (\<lambda>m k p a n f. Inr (take (unat n) (k @ the (pInfo p) @ replicate (unat n) 0)))\<rparr>"

section \<open>Properties\<close>

text \<open>
  C25: The label encoding is exact in all cases: an argument error for lengths its fields cannot hold
  or a missing hash, a library failure when the encoding would not fit the array of 256 bytes, and
  otherwise exactly the structure HkdfLabel of RFC 8446 over the prefixed label.
\<close>

theorem hkdf_label_exact:
  assumes "length info = 256" "unat labelLen \<le> length label"
    and "\<And>b. hash = Some b \<Longrightarrow> unat hashLen \<le> length b"
  shows "hkdf_label_info h info hash hashLen label labelLen keySize variant =
    (if hashLen > 255 \<or> (hash = None \<and> hashLen \<noteq> 0) \<or> labelLen > 249 then Inl SEC_ERROR_INVALID_ARGS
     else if 10 + unat labelLen + unat hashLen > 256 then Inl SEC_ERROR_LIBRARY_FAILURE
     else Inr (HkdfLabel (unat keySize) (kLabelPrefix variant @ take (unat labelLen) label)
                 (take (unat hashLen) (case hash of None \<Rightarrow> [] | Some b \<Rightarrow> b))))"
proof (cases "hashLen > 255 \<or> (hash = None \<and> hashLen \<noteq> 0) \<or> labelLen > 249")
  case True
  then show ?thesis by (auto simp: hkdf_label_info_def word_neq_0_conv)
next
  case False
  then have "unat hashLen \<le> length (case hash of None \<Rightarrow> [] | Some b \<Rightarrow> b)"
    using assms(3) by (cases hash) auto
  from hkdf_label_info_run [OF assms(1,2) _ this] False show ?thesis by (simp add: not_less)
qed

theorem hkdf_label_exact_witness:
  "hkdf_label_info zero_nspr (replicate 256 0) (Some [1, 2]) 2 [107, 101, 121] 3 16 ssl_variant_stream =
     Inr (HkdfLabel 16 (kLabelPrefix ssl_variant_stream @ [107, 101, 121]) [1, 2])"
  using hkdf_label_exact [of "replicate 256 0" 3 "[107, 101, 121]" "Some [1, 2]" 2 zero_nspr 16 ssl_variant_stream]
  by simp

text \<open>
  C24: Derivations are separated: calls that differ in the protocol variant, the label, the context
  hash or the output length hand different label encodings to the token, so that it never expands a
  secret to the same bytes for two purposes.
\<close>

theorem hkdf_labels_separate:
  assumes "length info = 256" "length info' = 256"
    and "unat labelLen = length label" "unat labelLen' = length label'"
    and "unat hashLen = length hash" "unat hashLen' = length hash'"
    and "keySize < 0x10000" "keySize' < 0x10000"
    and "hkdf_label_info h info (Some hash) hashLen label labelLen keySize variant = Inr i"
    and "hkdf_label_info h' info' (Some hash') hashLen' label' labelLen' keySize' variant' = Inr i'"
    and differ: "(variant, label, hash, keySize) \<noteq> (variant', label', hash', keySize')"
  shows "i \<noteq> i'"
proof
  assume "i = i'"
  have sizes: "\<not> hashLen > 255 \<and> \<not> labelLen > 249 \<and> \<not> 10 + unat labelLen + unat hashLen > 256 \<and>
      i = HkdfLabel (unat keySize) (kLabelPrefix variant @ label) hash"
    if "length info = 256" "unat labelLen = length label" "unat hashLen = length hash"
      "hkdf_label_info h info (Some hash) hashLen label labelLen keySize variant = Inr i"
    for h info hash hashLen label labelLen keySize variant i
    using that(4) hkdf_label_info_run [of info labelLen label hashLen "Some hash" h keySize variant] that(1-3)
    by (cases "hashLen > 255 \<or> labelLen > 249") (auto simp: hkdf_label_info_def not_less split: if_splits)
  note i = sizes [OF assms(1,3,5,9)] and i' = sizes [OF assms(2,4,6,10)]
  have "unat keySize = unat keySize' \<and> kLabelPrefix variant @ label = kLabelPrefix variant' @ label' \<and> hash = hash'"
    by (rule HkdfLabel_inject)
      (use i i' \<open>i = i'\<close> assms(3-8) in \<open>auto simp: not_less word_less_nat_alt word_le_nat_alt\<close>)
  then show False using differ by (auto simp: kLabelPrefix_inject word_unat_eq_iff)
qed

theorem hkdf_labels_separate_witness:
  "HkdfLabel 16 (kLabelPrefix ssl_variant_stream @ [107]) [1] \<noteq> HkdfLabel 16 (kLabelPrefix ssl_variant_datagram @ [107]) [1]"
proof (rule hkdf_labels_separate)
  show "hkdf_label_info zero_nspr (replicate 256 0) (Some [1]) 1 [107] 1 16 v =
      Inr (HkdfLabel 16 (kLabelPrefix v @ [107]) [1])" for v
    by (subst hkdf_label_info_run) simp_all
  then show "hkdf_label_info zero_nspr (replicate 256 0) (Some [1]) 1 [107] 1 16 ssl_variant_datagram =
      Inr (HkdfLabel 16 (kLabelPrefix ssl_variant_datagram @ [107]) [1])" .
qed simp_all



text \<open>
  If the class attribute of the second input does not have the size of an object class, the function
  reports success without having stored a key.
\<close>

lemma hkdf_extract_success_without_key:
  assumes "PK11_ReadRawAttribute_class tk k = Inr cls" "length cls \<noteq> 8"
  shows "tls13_HkdfExtract tk ikm1 (Some k) baseHash True = Inr None"
  using assms by (simp add: tls13_HkdfExtract_def)

end
