(* ===== verification/Anti_Replay.thy ===== *)
theory Anti_Replay
  imports Hkdf_Label "HOL-Library.Signed_Division"
begin

text \<open>
  \<^verbatim>\<open>lib/ssl/sslbloom.c\<close> and \<^verbatim>\<open>lib/ssl/tls13replay.c\<close>: the Bloom filter and the pair of
  alternating filters that keep a server from accepting a 0-RTT attempt twice.
\<close>

section \<open>The Bloom filter\<close>

record sslBloomFilter =
  bf_k :: u32
  bf_bits :: u32
  bf_filter :: "byte list option"

text \<open>\<^verbatim>\<open>1 << (bits - 3)\<close> is a shift of a 32-bit signed integer.\<close>

definition sslBloom_Size :: "u32 \<Rightarrow> nat result" where
  "sslBloom_Size bits =
     (if bits \<ge> 3 then (if bits - 3 < 31 then Inr (2 ^ unat (bits - 3)) else Inl UNDEFINED_BEHAVIOUR)
      else Inr 1)"

definition sslBloom_Init :: "nspr \<Rightarrow> u32 \<Rightarrow> u32 \<Rightarrow> sslBloomFilter result" where
  "sslBloom_Init h k bits =
     res_bind (sslBloom_Size bits) (\<lambda>n.
     res_bind (PORT_ZAlloc h n) (\<lambda>m.
     Inr \<lparr>bf_k = k, bf_bits = bits, bf_filter = Some m\<rparr>))"

definition bloom_memset :: "byte \<Rightarrow> sslBloomFilter \<Rightarrow> sslBloomFilter result" where
  "bloom_memset c f =
     (case bf_filter f of
        None \<Rightarrow> Inl UNDEFINED_BEHAVIOUR
      | Some m \<Rightarrow>
          res_bind (sslBloom_Size (bf_bits f)) (\<lambda>n.
          res_bind (mem_write m 0 (replicate n c)) (\<lambda>m.
          Inr (f\<lparr>bf_filter := Some m\<rparr>))))"

definition sslBloom_Zero :: "sslBloomFilter \<Rightarrow> sslBloomFilter result" where
  "sslBloom_Zero = bloom_memset 0"

definition sslBloom_Fill :: "sslBloomFilter \<Rightarrow> sslBloomFilter result" where
  "sslBloom_Fill = bloom_memset 0xff"

text \<open>
  One iteration per hash: \<open>bytes\<close> bytes are copied to the low end of a 32-bit number and its unused
  low bits are shifted out. The filter is read when the result is still open, and written when adding.
\<close>

fun bloom_iterate ::
    "bool \<Rightarrow> nat \<Rightarrow> nat \<Rightarrow> nat \<Rightarrow> byte list \<Rightarrow> byte list \<Rightarrow> bool \<Rightarrow> (bool \<times> byte list) result" where
  "bloom_iterate add bytes shift 0 m hashes found = Inr (found, m)"
| "bloom_iterate add bytes shift (Suc n) m hashes found =
     (if bytes > 4 \<or> length hashes < bytes then Inl UNDEFINED_BEHAVIOUR
      else
        let bitIndex = drop_bit shift (word_of_nat (be_value (take bytes hashes)) :: u32);
            msk = push_bit (unat (bitIndex mod 8)) 1;
            i = unat (bitIndex div 8)
        in if (found \<or> add) \<and> length m \<le> i then Inl UNDEFINED_BEHAVIOUR
           else bloom_iterate add bytes shift n
                  (if add then m[i := m ! i OR msk] else m)
                  (drop bytes hashes)
                  (found \<and> m ! i AND msk \<noteq> 0))"

definition sslBloom_AddOrCheck ::
    "sslBloomFilter \<Rightarrow> byte list \<Rightarrow> bool \<Rightarrow> (bool \<times> sslBloomFilter) result" where
  "sslBloom_AddOrCheck f hashes add =
     (let bytes = (bf_bits f + 7) div 8;
          shift = bytes * 8 - bf_bits f
      in case bf_filter f of
           None \<Rightarrow> (if bf_k f = 0 then Inr (True, f) else Inl UNDEFINED_BEHAVIOUR)
         | Some m \<Rightarrow>
             res_bind (bloom_iterate add (unat bytes) (unat shift) (unat (bf_k f)) m hashes True) (\<lambda>(found, m).
             Inr (found, f\<lparr>bf_filter := Some m\<rparr>)))"

definition sslBloom_Add :: "sslBloomFilter \<Rightarrow> byte list \<Rightarrow> (bool \<times> sslBloomFilter) result" where
  "sslBloom_Add f hashes = sslBloom_AddOrCheck f hashes True"

definition sslBloom_Check :: "sslBloomFilter \<Rightarrow> byte list \<Rightarrow> bool result" where
  "sslBloom_Check f hashes = res_bind (sslBloom_AddOrCheck f hashes False) (\<lambda>(found, _). Inr found)"

definition sslBloom_Destroy :: "sslBloomFilter \<Rightarrow> sslBloomFilter" where
  "sslBloom_Destroy f = \<lparr>bf_k = 0, bf_bits = 0, bf_filter = None\<rparr>"

section \<open>The anti-replay context\<close>

text \<open>
  Times are microseconds in a signed 64-bit integer; a sum that does not fit is undefined. The
  monitor serialises the calls and has no other state.
\<close>

definition PRTime :: "int \<Rightarrow> int result" where
  "PRTime t = (if - (2 ^ 63) \<le> t \<and> t < 2 ^ 63 then Inr t else Inl UNDEFINED_BEHAVIOUR)"

record 'k SSLAntiReplayContext =
  ar_refCount :: int
  ar_filter0 :: sslBloomFilter
  ar_filter1 :: sslBloomFilter
  ar_current :: byte
  ar_nextUpdate :: int
  ar_window :: int
  ar_key :: 'k

definition ar_filter :: "'k SSLAntiReplayContext \<Rightarrow> byte \<Rightarrow> sslBloomFilter" where
  "ar_filter ctx i = (if i = 0 then ar_filter0 ctx else ar_filter1 ctx)"

definition ar_set_filter :: "'k SSLAntiReplayContext \<Rightarrow> byte \<Rightarrow> sslBloomFilter \<Rightarrow> 'k SSLAntiReplayContext" where
  "ar_set_filter ctx i f = (if i = 0 then ctx\<lparr>ar_filter0 := f\<rparr> else ctx\<lparr>ar_filter1 := f\<rparr>)"

text \<open>
  Reference counts: the outer option is \<open>None\<close> when a release assertion stops the process, the inner
  one when the context is gone.
\<close>

definition tls13_ReleaseAntiReplayContext ::
    "'k SSLAntiReplayContext option \<Rightarrow> 'k SSLAntiReplayContext option option" where
  "tls13_ReleaseAntiReplayContext ctx =
     (case ctx of
        None \<Rightarrow> Some None
      | Some c \<Rightarrow>
          let refCount = ar_refCount c - 1 in
          if refCount < 0 then None
          else if refCount \<noteq> 0 then Some (Some (c\<lparr>ar_refCount := refCount\<rparr>))
          else Some None)"

definition tls13_RefAntiReplayContext :: "'k SSLAntiReplayContext \<Rightarrow> 'k SSLAntiReplayContext option" where
  "tls13_RefAntiReplayContext c =
     (let refCount = ar_refCount c + 1 in
      if refCount > 1 then Some (c\<lparr>ar_refCount := refCount\<rparr>) else None)"

definition tls13_AntiReplayKeyGen ::
    "('k, 's) pk11_ops \<Rightarrow> ('s \<Rightarrow> 'k result) \<Rightarrow> 'k result" where
  "tls13_AntiReplayKeyGen tk PK11_KeyGen =
     (case PK11_GetBestSlot_hkdf tk of
        None \<Rightarrow> Inl SEC_ERROR_LIBRARY_FAILURE
      | Some slot \<Rightarrow> PK11_KeyGen slot)"

abbreviation SSL_MAX_BLOOM_FILTER_SIZE :: u32 where
  "SSL_MAX_BLOOM_FILTER_SIZE \<equiv> 64"

text \<open>
  \<open>alloc\<close> and \<open>monitor\<close> say whether the context and its monitor can be allocated; \<open>pctx\<close> whether the
  output pointer is given.
\<close>

definition SSLExp_CreateAntiReplayContext ::
    "nspr \<Rightarrow> ('k, 's) pk11_ops \<Rightarrow> ('s \<Rightarrow> 'k result) \<Rightarrow> bool \<Rightarrow> bool \<Rightarrow> int \<Rightarrow> int \<Rightarrow> u32 \<Rightarrow> u32 \<Rightarrow> bool \<Rightarrow>
     'k SSLAntiReplayContext result" where
  "SSLExp_CreateAntiReplayContext h tk PK11_KeyGen alloc monitor now window k bits pctx =
     (if window \<le> 0 \<or> k = 0 \<or> bits = 0 \<or> \<not> pctx then Inl SEC_ERROR_INVALID_ARGS
      else if k * (bits + 7) div 8 > SSL_MAX_BLOOM_FILTER_SIZE then Inl SEC_ERROR_INVALID_ARGS
      else if \<not> alloc then Inl SEC_ERROR_NO_MEMORY
      else if \<not> monitor then Inl NO_ERROR_SET
      else
        res_bind (tls13_AntiReplayKeyGen tk PK11_KeyGen) (\<lambda>key.
        res_bind (sslBloom_Init h k bits) (\<lambda>f0.
        res_bind (sslBloom_Init h k bits) (\<lambda>f1.
        res_bind (sslBloom_Fill f1) (\<lambda>f1.
        res_bind (PRTime (now + window)) (\<lambda>nextUpdate.
        Inr \<lparr>ar_refCount = 1, ar_filter0 = f0, ar_filter1 = f1, ar_current = 0,
             ar_nextUpdate = nextUpdate, ar_window = window, ar_key = key\<rparr>))))))"

text \<open>The context of a socket is replaced: the old one is released, the new one referenced.\<close>

definition SSLExp_SetAntiReplayContext ::
    "'k SSLAntiReplayContext option \<Rightarrow> 'k SSLAntiReplayContext option \<Rightarrow>
     ('k SSLAntiReplayContext option \<times> 'k SSLAntiReplayContext option) option" where
  "SSLExp_SetAntiReplayContext old new =
     Option.bind (tls13_ReleaseAntiReplayContext old) (\<lambda>old.
       case new of
         None \<Rightarrow> Some (old, None)
       | Some c \<Rightarrow> Option.bind (tls13_RefAntiReplayContext c) (\<lambda>c. Some (old, Some c)))"

definition tls13_AntiReplayUpdate ::
    "'k SSLAntiReplayContext \<Rightarrow> int \<Rightarrow> 'k SSLAntiReplayContext result" where
  "tls13_AntiReplayUpdate ctx now =
     (if now \<ge> ar_nextUpdate ctx
      then let current = ar_current ctx XOR 1 in
           res_bind (PRTime (now + ar_window ctx)) (\<lambda>nextUpdate.
           res_bind (sslBloom_Zero (ar_filter ctx current)) (\<lambda>f.
           Inr (ar_set_filter (ctx\<lparr>ar_current := current, ar_nextUpdate := nextUpdate\<rparr>) current f)))
      else Inr ctx)"

text \<open>
  The difference is computed in 64 bits and stored in 32; the negation in the absolute value of the
  least 32-bit integer is undefined.
\<close>

definition int32 :: "int \<Rightarrow> int" where
  "int32 x = sint (word_of_int x :: u32)"

definition tls13_InWindow :: "int \<Rightarrow> u32 \<Rightarrow> int \<Rightarrow> int \<Rightarrow> bool result" where
  "tls13_InWindow now ticketAge creationTime window =
     res_bind (PRTime (now - creationTime)) (\<lambda>elapsed.
       let timeDelta = int32 (uint ticketAge - elapsed sdiv 1000);
           allowance = int32 (window sdiv 2000)
       in if timeDelta = - (2 ^ 31) then Inl UNDEFINED_BEHAVIOUR
          else Inr (\<bar>timeDelta\<bar> < allowance))"

text \<open>What a 0-RTT attempt brings: the session's creation time (none for an external key), the ticket
  age, the binder and the protocol variant.\<close>

record zero_rtt_attempt =
  at_creationTime :: "int option"
  at_ticketAge :: u32
  at_binder :: "byte list"
  at_variant :: SSLProtocolVariant

text \<open>The part of \<^verbatim>\<open>tls13_IsReplay\<close> under the monitor.\<close>

definition replay_filters ::
    "'k SSLAntiReplayContext \<Rightarrow> int \<Rightarrow> byte list \<Rightarrow> (bool \<times> 'k SSLAntiReplayContext) result" where
  "replay_filters ctx now buf =
     res_bind (tls13_AntiReplayUpdate ctx now) (\<lambda>ctx.
       let index = ar_current ctx in
       res_bind (sslBloom_Add (ar_filter ctx index) buf) (\<lambda>(replay, f).
         let ctx = ar_set_filter ctx index f in
         if replay then Inr (True, ctx)
         else res_bind (sslBloom_Check (ar_filter ctx (index XOR 1)) buf) (\<lambda>replay. Inr (replay, ctx))))"

text \<open>
  \<open>now\<close> and \<open>now'\<close> are the two readings of the clock; \<open>info\<close> and \<open>buf\<close> are the stack arrays of
  \<^verbatim>\<open>tls13_HkdfExpandLabelGeneral\<close> and of this function.
\<close>

definition tls13_IsReplay ::
    "nspr \<Rightarrow> ('k, 's) pk11_ops \<Rightarrow> byte list \<Rightarrow> byte list \<Rightarrow> 'k SSLAntiReplayContext option \<Rightarrow> int \<Rightarrow> int \<Rightarrow>
     zero_rtt_attempt \<Rightarrow> (bool \<times> 'k SSLAntiReplayContext option) result" where
  "tls13_IsReplay h tk info buf antiReplay now now' a =
     (case antiReplay of
        None \<Rightarrow> Inr (True, None)
      | Some ctx \<Rightarrow>
          res_bind (case at_creationTime a of
                      None \<Rightarrow> Inr True
                    | Some t \<Rightarrow> tls13_InWindow now (at_ticketAge a) t (ar_window ctx)) (\<lambda>inWindow.
            if \<not> inWindow then Inr (True, Some ctx)
            else
              let sz = bf_k (ar_filter0 ctx) * (bf_bits (ar_filter0 ctx) + 7) div 8 in
              case tls13_HkdfExpandLabelRaw h tk info (ar_key ctx) ssl_hash_sha256
                     (Some (at_binder a)) (of_nat (length (at_binder a)))
                     (map of_char ''anti-replay'') 11 (at_variant a) buf sz of
                Inl e \<Rightarrow> (if e = UNDEFINED_BEHAVIOUR then Inl e else Inr (True, Some ctx))
              | Inr buf \<Rightarrow> res_bind (replay_filters ctx now' buf) (\<lambda>(replay, ctx). Inr (replay, Some ctx))))"

section \<open>Lemmas: the bits of a filter\<close>

definition bloom_bit :: "byte list \<Rightarrow> nat \<Rightarrow> bool" where
  "bloom_bit m i = bit (m ! (i div 8)) (i mod 8)"

fun bloom_indices :: "nat \<Rightarrow> nat \<Rightarrow> nat \<Rightarrow> byte list \<Rightarrow> nat list" where
  "bloom_indices bytes shift 0 hashes = []"
| "bloom_indices bytes shift (Suc n) hashes =
     be_value (take bytes hashes) div 2 ^ shift # bloom_indices bytes shift n (drop bytes hashes)"

lemma bloom_bit_set:
  assumes "i div 8 < length m"
  shows "bloom_bit (m[i div 8 := m ! (i div 8) OR push_bit (i mod 8) 1]) j \<longleftrightarrow> bloom_bit m j \<or> j = i"
proof (cases "j div 8 = i div 8")
  case True
  then have "j = i \<longleftrightarrow> j mod 8 = i mod 8" by (metis div_mult_mod_eq)
  moreover have "j mod 8 < 8" by simp
  ultimately show ?thesis using True assms
    by (auto simp: bloom_bit_def bit_or_iff bit_exp_iff)
next
  case False
  then show ?thesis using assms by (auto simp: bloom_bit_def)
qed

lemma bloom_index_word:
  assumes "bytes \<le> 4"
  shows "unat (drop_bit shift (word_of_nat (be_value (take bytes hashes)) :: u32)) = be_value (take bytes hashes) div 2 ^ shift"
proof -
  have "be_value (take bytes hashes) < 256 ^ length (take bytes hashes)" by (rule be_value_less)
  also have "\<dots> \<le> 256 ^ 4" using assms by (intro power_increasing) auto
  finally show ?thesis by (simp add: unat_drop_bit_div unat_of_nat take_bit_nat_eq_self)
qed

lemma bloom_iterate_ok:
  assumes "bytes \<le> 4" "n * bytes \<le> length hashes"
    and "\<forall>i \<in> set (bloom_indices bytes shift n hashes). i div 8 < length m"
  shows "\<exists>m'. bloom_iterate add bytes shift n m hashes found =
      Inr (found \<and> (\<forall>i \<in> set (bloom_indices bytes shift n hashes). bloom_bit m i), m') \<and>
    length m' = length m \<and>
    (\<forall>j. bloom_bit m' j \<longleftrightarrow> bloom_bit m j \<or> add \<and> j \<in> set (bloom_indices bytes shift n hashes))"
  using assms
proof (induction n arbitrary: m hashes found)
  case (Suc n)
  let ?i = "be_value (take bytes hashes) div 2 ^ shift"
  let ?w = "drop_bit shift (word_of_nat (be_value (take bytes hashes)) :: u32)"
  have w: "unat (?w div 8) = ?i div 8" "unat (?w mod 8) = ?i mod 8"
    using bloom_index_word [OF Suc.prems(1), of shift hashes] by (simp_all add: unat_div_word unat_mod_word)
  have i: "?i div 8 < length m" using Suc.prems(3) by simp
  define m1 where "m1 = (if add then m[?i div 8 := m ! (?i div 8) OR push_bit (?i mod 8) 1] else m)"
  have m1: "bloom_bit m1 j \<longleftrightarrow> bloom_bit m j \<or> add \<and> j = ?i" for j
    using bloom_bit_set [OF i] by (simp add: m1_def)
  have len: "length m1 = length m" by (simp add: m1_def)
  have le: "n * bytes \<le> length hashes - bytes" using Suc.prems(2) by simp
  have step: "bloom_iterate add bytes shift (Suc n) m hashes found =
      bloom_iterate add bytes shift n m1 (drop bytes hashes) (found \<and> bloom_bit m ?i)"
    using Suc.prems(1,2) i
    by (simp add: Let_def w m1_def bloom_bit_def bit_iff_and_push_bit_not_eq_0)
  obtain m' where m': "bloom_iterate add bytes shift n m1 (drop bytes hashes) (found \<and> bloom_bit m ?i) =
      Inr ((found \<and> bloom_bit m ?i) \<and> (\<forall>i \<in> set (bloom_indices bytes shift n (drop bytes hashes)). bloom_bit m1 i), m')"
      "length m' = length m1"
      "\<forall>j. bloom_bit m' j \<longleftrightarrow> bloom_bit m1 j \<or> add \<and> j \<in> set (bloom_indices bytes shift n (drop bytes hashes))"
    using Suc.IH [of "drop bytes hashes" m1 "found \<and> bloom_bit m ?i"] Suc.prems len le by auto
  then show ?case unfolding step using m1 len by auto
qed simp

lemma bloom_iterate_overread:
  "0 < bytes \<Longrightarrow> length hashes < n * bytes \<Longrightarrow> bloom_iterate add bytes shift n m hashes found = Inl UNDEFINED_BEHAVIOUR"
proof (induction n arbitrary: m hashes found)
  case (Suc n)
  then show ?case by (auto simp: Let_def)
qed simp

section \<open>Lemmas: filters\<close>

definition bloom_size :: "sslBloomFilter \<Rightarrow> nat" where
  "bloom_size f = 2 ^ (unat (bf_bits f) - 3)"

definition bloom_inv :: "sslBloomFilter \<Rightarrow> bool" where
  "bloom_inv f \<longleftrightarrow> 0 < bf_bits f \<and> bf_bits f \<le> 32 \<and> (\<exists>m. bf_filter f = Some m \<and> length m = bloom_size f)"

text \<open>The number of bytes of hash the filter consumes, and the indices they give.\<close>

definition bloom_need :: "sslBloomFilter \<Rightarrow> nat" where
  "bloom_need f = unat (bf_k f) * ((unat (bf_bits f) + 7) div 8)"

definition bloom_set :: "sslBloomFilter \<Rightarrow> byte list \<Rightarrow> nat set" where
  "bloom_set f hashes =
     set (bloom_indices ((unat (bf_bits f) + 7) div 8) (8 * ((unat (bf_bits f) + 7) div 8) - unat (bf_bits f))
            (unat (bf_k f)) hashes)"

definition bloom_member :: "sslBloomFilter \<Rightarrow> byte list \<Rightarrow> bool" where
  "bloom_member f hashes \<longleftrightarrow> (\<forall>i \<in> bloom_set f hashes. bloom_bit (the (bf_filter f)) i)"

definition bloom_same :: "sslBloomFilter \<Rightarrow> sslBloomFilter \<Rightarrow> bool" where
  "bloom_same f g \<longleftrightarrow> bf_k f = bf_k g \<and> bf_bits f = bf_bits g"

lemma sslBloom_Size_ok:
  assumes "0 < bits" "bits \<le> 32"
  shows "sslBloom_Size bits = Inr (2 ^ (unat bits - 3))"
proof -
  have b: "unat bits \<le> 32" using assms by (simp add: word_le_nat_alt)
  show ?thesis
  proof (cases "bits \<ge> 3")
    case True
    then have "unat (bits - 3) = unat bits - 3" by (simp add: unat_sub)
    then show ?thesis using True b by (simp add: sslBloom_Size_def word_less_nat_alt)
  next
    case False
    then show ?thesis by (simp add: sslBloom_Size_def word_le_nat_alt)
  qed
qed

lemma bloom_indices_bound:
  assumes "n * bytes \<le> length hashes" "bits \<le> 8 * bytes"
  shows "\<forall>i \<in> set (bloom_indices bytes (8 * bytes - bits) n hashes). i < 2 ^ bits"
  using assms
proof (induction n arbitrary: hashes)
  case (Suc n)
  have "be_value (take bytes hashes) < 256 ^ bytes"
    using be_value_less [of "take bytes hashes"] Suc.prems(1) by simp
  also have "256 ^ bytes = (2 :: nat) ^ (8 * bytes)" by (simp add: power_mult)
  also have "\<dots> = 2 ^ (8 * bytes - bits) * 2 ^ bits" using Suc.prems(2) by (simp flip: power_add)
  finally have "be_value (take bytes hashes) div 2 ^ (8 * bytes - bits) < 2 ^ bits"
    by (simp add: less_mult_imp_div_less mult.commute)
  moreover have "n * bytes \<le> length (drop bytes hashes)" using Suc.prems(1) by simp
  ultimately show ?case using Suc.IH [of "drop bytes hashes"] Suc.prems(2) by auto
qed simp

section \<open>Interface: an approximate set\<close>

text \<open>
  What the replay check relies on: adding answers whether the element was already there and keeps
  every element, checking answers the same, and nothing is reported absent that was added.
\<close>

locale membership_filter =
  fixes inv :: "'f \<Rightarrow> bool"
    and same :: "'f \<Rightarrow> 'f \<Rightarrow> bool"
    and need :: "'f \<Rightarrow> nat"
    and member :: "'f \<Rightarrow> byte list \<Rightarrow> bool"
    and add :: "'f \<Rightarrow> byte list \<Rightarrow> (bool \<times> 'f) result"
    and check :: "'f \<Rightarrow> byte list \<Rightarrow> bool result"
    and wipe :: "'f \<Rightarrow> 'f result"
  assumes add_ok: "inv f \<Longrightarrow> need f \<le> length x \<Longrightarrow>
      \<exists>f'. add f x = Inr (member f x, f') \<and> inv f' \<and> same f' f \<and> member f' x \<and> (\<forall>y. member f y \<longrightarrow> member f' y)"
    and check_ok: "inv f \<Longrightarrow> need f \<le> length x \<Longrightarrow> check f x = Inr (member f x)"
    and wipe_ok: "inv f \<Longrightarrow> \<exists>f'. wipe f = Inr f' \<and> inv f' \<and> same f' f"
    and need_same: "same f g \<Longrightarrow> need f = need g"
begin

lemma added_is_found:
  assumes "inv f" "need f \<le> length x" "add f x = Inr (r, f')"
  shows "check f' x = Inr True"
  using add_ok [OF assms(1,2)] assms check_ok [of f' x] need_same [of f' f] by auto

end

lemma bloom_width:
  assumes "bits \<le> 32" "0 < bits"
  shows "unat ((bits + 7) div 8 :: u32) = (unat bits + 7) div 8"
    and "unat ((bits + 7) div 8 * 8 - bits :: u32) = 8 * ((unat bits + 7) div 8) - unat bits"
proof -
  have b: "unat bits \<le> 32" using assms(1) by (simp add: word_le_nat_alt)
  then have "unat (bits + 7) = unat bits + 7" by (simp add: unat_plus_no_wrap)
  then show 1: "unat ((bits + 7) div 8 :: u32) = (unat bits + 7) div 8" by (simp add: unat_div_word)
  have "unat ((bits + 7) div 8) * unat (8 :: u32) < 2 ^ LENGTH(32)" using b by (simp add: 1)
  then have 2: "unat ((bits + 7) div 8 * 8) = (unat bits + 7) div 8 * 8" by (simp add: unat_mult_lem [THEN iffD1] 1)
  then have "bits \<le> (bits + 7) div 8 * 8" by (simp add: word_le_nat_alt)
  then show "unat ((bits + 7) div 8 * 8 - bits :: u32) = 8 * ((unat bits + 7) div 8) - unat bits"
    using 2 by (simp add: unat_sub mult.commute)
qed

lemma sslBloom_AddOrCheck_ok:
  assumes inv: "bloom_inv f" and len: "bloom_need f \<le> length x"
  shows "\<exists>f'. sslBloom_AddOrCheck f x add = Inr (bloom_member f x, f') \<and> bloom_inv f' \<and> bloom_same f' f \<and>
    (add \<longrightarrow> bloom_member f' x) \<and> (\<forall>y. bloom_member f y \<longrightarrow> bloom_member f' y)"
proof -
  obtain m where m: "bf_filter f = Some m" "length m = bloom_size f" using inv by (auto simp: bloom_inv_def)
  have bits: "0 < bf_bits f" "bf_bits f \<le> 32" using inv by (auto simp: bloom_inv_def)
  let ?b = "(unat (bf_bits f) + 7) div 8"
  have b: "?b \<le> 4" using bits by (simp add: word_le_nat_alt)
  have idx: "\<forall>i \<in> bloom_set f x. i div 8 < length m"
  proof
    fix i
    assume "i \<in> bloom_set f x"
    then have "i < 2 ^ unat (bf_bits f)"
      using bloom_indices_bound [of "unat (bf_k f)" ?b x "unat (bf_bits f)"] len by (auto simp: bloom_set_def bloom_need_def)
    also have "\<dots> \<le> 8 * 2 ^ (unat (bf_bits f) - 3)"
      using power_increasing [of "unat (bf_bits f)" "3 + (unat (bf_bits f) - 3)" "2 :: nat"] by (simp add: power_add)
    finally show "i div 8 < length m" by (simp add: m bloom_size_def less_mult_imp_div_less mult.commute)
  qed
  obtain m' where m': "bloom_iterate add ?b (8 * ?b - unat (bf_bits f)) (unat (bf_k f)) m x True =
        Inr (\<forall>i \<in> bloom_set f x. bloom_bit m i, m')" "length m' = length m"
      "\<forall>j. bloom_bit m' j \<longleftrightarrow> bloom_bit m j \<or> add \<and> j \<in> bloom_set f x"
    using bloom_iterate_ok [OF b, of "unat (bf_k f)" x "8 * ?b - unat (bf_bits f)" m add True] idx len
    by (auto simp: bloom_set_def bloom_need_def)
  then have "sslBloom_AddOrCheck f x add = Inr (bloom_member f x, f\<lparr>bf_filter := Some m'\<rparr>)"
    using m by (simp add: sslBloom_AddOrCheck_def Let_def bloom_width [OF bits(2,1)] bloom_member_def)
  then show ?thesis using inv m m'
    by (auto simp: bloom_inv_def bloom_size_def bloom_same_def bloom_member_def bloom_set_def)
qed

lemma bloom_memset_ok:
  assumes "bloom_inv f"
  shows "\<exists>f'. bloom_memset c f = Inr f' \<and> bloom_inv f' \<and> bloom_same f' f"
  using assms by (auto simp: bloom_memset_def bloom_inv_def sslBloom_Size_ok mem_simps bloom_size_def bloom_same_def)

interpretation bloom: membership_filter bloom_inv bloom_same bloom_need bloom_member sslBloom_Add sslBloom_Check sslBloom_Zero
proof (unfold_locales, goal_cases)
  case (1 f x)
  then show ?case using sslBloom_AddOrCheck_ok [of f x True] by (auto simp: sslBloom_Add_def)
next
  case (2 f x)
  then show ?case using sslBloom_AddOrCheck_ok [of f x False] by (auto simp: sslBloom_Check_def)
next
  case (3 f)
  then show ?case using bloom_memset_ok by (simp add: sslBloom_Zero_def)
next
  case (4 f g)
  then show ?case by (simp add: bloom_same_def bloom_need_def)
qed

section \<open>Lemmas: the two filters\<close>

definition ar_inv :: "'k SSLAntiReplayContext \<Rightarrow> bool" where
  "ar_inv ctx \<longleftrightarrow>
     bloom_inv (ar_filter0 ctx) \<and> bloom_inv (ar_filter1 ctx) \<and> bloom_same (ar_filter1 ctx) (ar_filter0 ctx) \<and>
     (ar_current ctx = 0 \<or> ar_current ctx = 1) \<and> 0 < ar_window ctx \<and> ar_window ctx \<le> 2 ^ 62 \<and>
     unat (bf_k (ar_filter0 ctx)) * (unat (bf_bits (ar_filter0 ctx)) + 7) div 8 \<le> 64"

definition ar_same :: "'k SSLAntiReplayContext \<Rightarrow> 'k SSLAntiReplayContext \<Rightarrow> bool" where
  "ar_same ctx' ctx \<longleftrightarrow>
     ar_key ctx' = ar_key ctx \<and> ar_window ctx' = ar_window ctx \<and> bloom_same (ar_filter0 ctx') (ar_filter0 ctx)"

text \<open>The times at which nothing overflows.\<close>

definition ar_clock :: "int \<Rightarrow> bool" where
  "ar_clock t \<longleftrightarrow> 0 \<le> t \<and> t < 2 ^ 62"

text \<open>The context knows the hashes \<open>b\<close> until time \<open>d\<close>.\<close>

definition ar_knows :: "'k SSLAntiReplayContext \<Rightarrow> byte list \<Rightarrow> int \<Rightarrow> bool" where
  "ar_knows ctx b d \<longleftrightarrow>
     bloom_member (ar_filter ctx (ar_current ctx)) b \<and> d \<le> ar_nextUpdate ctx + ar_window ctx \<or>
     bloom_member (ar_filter ctx (ar_current ctx XOR 1)) b \<and> d \<le> ar_nextUpdate ctx"

lemma ar_filter_inv:
  assumes "ar_inv ctx"
  shows "bloom_inv (ar_filter ctx i)" "bloom_same (ar_filter ctx i) (ar_filter0 ctx)"
  using assms by (auto simp: ar_inv_def ar_filter_def bloom_same_def)

lemma ar_index: "i = 0 \<or> i = 1 \<Longrightarrow> i XOR 1 = (if i = 0 then 1 else 0 :: byte)"
  by auto

lemma ar_set_filter_inv:
  assumes "ar_inv ctx" "bloom_inv f" "bloom_same f (ar_filter ctx i)" "i = 0 \<or> i = 1"
  shows "ar_inv (ar_set_filter ctx i f)" "ar_same (ar_set_filter ctx i f) ctx"
  using assms by (auto simp: ar_inv_def ar_same_def ar_set_filter_def ar_filter_def bloom_same_def)

lemma ar_set_filter_simps [simp]:
  "ar_current (ar_set_filter ctx i f) = ar_current ctx"
  "ar_nextUpdate (ar_set_filter ctx i f) = ar_nextUpdate ctx"
  "ar_window (ar_set_filter ctx i f) = ar_window ctx"
  "ar_filter (ar_set_filter ctx i f) i = f"
  by (simp_all add: ar_set_filter_def ar_filter_def)

lemma ar_set_filter_other:
  "i = 0 \<or> i = 1 \<Longrightarrow> ar_filter (ar_set_filter ctx i f) (i XOR 1) = ar_filter ctx (i XOR 1)"
  by (auto simp: ar_set_filter_def ar_filter_def)

lemma tls13_AntiReplayUpdate_ok:
  assumes inv: "ar_inv ctx" and now: "ar_clock now"
  shows "\<exists>ctx'. tls13_AntiReplayUpdate ctx now = Inr ctx' \<and> ar_inv ctx' \<and> ar_same ctx' ctx \<and>
    now < ar_nextUpdate ctx' \<and> (\<forall>y d. ar_knows ctx y d \<longrightarrow> now < d \<longrightarrow> ar_knows ctx' y d)"
proof (cases "now \<ge> ar_nextUpdate ctx")
  case True
  let ?c = "ar_current ctx XOR 1"
  have c: "ar_current ctx = 0 \<or> ar_current ctx = 1" "?c = 0 \<or> ?c = 1" "?c XOR 1 = ar_current ctx"
    using inv by (auto simp: ar_inv_def)
  have t: "PRTime (now + ar_window ctx) = Inr (now + ar_window ctx)"
    using inv now by (simp add: PRTime_def ar_inv_def ar_clock_def)
  obtain f where f: "sslBloom_Zero (ar_filter ctx ?c) = Inr f" "bloom_inv f" "bloom_same f (ar_filter ctx ?c)"
    using bloom.wipe_ok [OF ar_filter_inv(1) [OF inv]] by blast
  let ?ctx = "ctx\<lparr>ar_current := ?c, ar_nextUpdate := now + ar_window ctx\<rparr>"
  have inv': "ar_inv ?ctx" using inv c by (simp add: ar_inv_def)
  have eq: "ar_filter ?ctx i = ar_filter ctx i" for i by (simp add: ar_filter_def)
  let ?ctx' = "ar_set_filter ?ctx ?c f"
  have "ar_inv ?ctx'" "ar_same ?ctx' ?ctx"
    using ar_set_filter_inv [OF inv' f(2) _ c(2)] f(3) by (simp_all add: eq)
  moreover have "ar_filter ?ctx' (?c XOR 1) = ar_filter ctx (ar_current ctx)"
    using ar_set_filter_other [OF c(2), of ?ctx f] c(3) by (simp add: eq)
  ultimately show ?thesis using True t f(1) inv c(3)
    by (auto simp: tls13_AntiReplayUpdate_def Let_def ar_same_def ar_knows_def ar_inv_def)
next
  case False
  then show ?thesis using inv by (simp add: tls13_AntiReplayUpdate_def ar_same_def bloom_same_def)
qed

lemma replay_filters_ok:
  assumes inv: "ar_inv ctx" and now: "ar_clock now" and buf: "bloom_need (ar_filter0 ctx) \<le> length buf"
  shows "\<exists>r ctx'. replay_filters ctx now buf = Inr (r, ctx') \<and> ar_inv ctx' \<and> ar_same ctx' ctx \<and>
    ar_knows ctx' buf (now + ar_window ctx) \<and>
    (\<forall>y d. ar_knows ctx y d \<longrightarrow> now < d \<longrightarrow> ar_knows ctx' y d) \<and>
    (\<forall>d. ar_knows ctx buf d \<longrightarrow> now < d \<longrightarrow> r)"
proof -
  obtain c1 where c1: "tls13_AntiReplayUpdate ctx now = Inr c1" "ar_inv c1" "ar_same c1 ctx" "now < ar_nextUpdate c1"
      "\<forall>y d. ar_knows ctx y d \<longrightarrow> now < d \<longrightarrow> ar_knows c1 y d"
    using tls13_AntiReplayUpdate_ok [OF inv now] by blast
  let ?i = "ar_current c1"
  have i: "?i = 0 \<or> ?i = 1" using c1(2) by (simp add: ar_inv_def)
  have need: "bloom_need (ar_filter c1 j) \<le> length buf" for j
    using buf c1(3) ar_filter_inv(2) [OF c1(2), of j] by (simp add: ar_same_def bloom_same_def bloom_need_def)
  obtain f where f: "sslBloom_Add (ar_filter c1 ?i) buf = Inr (bloom_member (ar_filter c1 ?i) buf, f)"
      "bloom_inv f" "bloom_same f (ar_filter c1 ?i)" "bloom_member f buf" "\<forall>y. bloom_member (ar_filter c1 ?i) y \<longrightarrow> bloom_member f y"
    using bloom.add_ok [OF ar_filter_inv(1) [OF c1(2)] need] by blast
  let ?c = "ar_set_filter c1 ?i f"
  have c: "ar_inv ?c" "ar_same ?c c1" using ar_set_filter_inv [OF c1(2) f(2,3) i] .
  have other: "ar_filter ?c (?i XOR 1) = ar_filter c1 (?i XOR 1)" by (rule ar_set_filter_other [OF i])
  have chk: "sslBloom_Check (ar_filter c1 (?i XOR 1)) buf = Inr (bloom_member (ar_filter c1 (?i XOR 1)) buf)"
    by (rule bloom.check_ok [OF ar_filter_inv(1) [OF c1(2)] need])
  have "replay_filters ctx now buf =
      Inr (bloom_member (ar_filter c1 ?i) buf \<or> bloom_member (ar_filter c1 (?i XOR 1)) buf, ?c)"
    using c1(1) f(1) chk other by (auto simp: replay_filters_def Let_def)
  moreover have "ar_same ?c ctx" using c(2) c1(3) by (simp add: ar_same_def bloom_same_def)
  moreover have "ar_knows ?c y d" if "ar_knows c1 y d" for y d
    using that f(5) other by (auto simp: ar_knows_def)
  moreover have "ar_knows ?c buf (now + ar_window ctx)"
    using f(4) c1(3,4) by (simp add: ar_knows_def ar_same_def)
  ultimately show ?thesis using c(1) c1(5) by (auto simp: ar_knows_def)
qed

section \<open>Interface: a guard against replays\<close>

text \<open>
  What a server relies on: an attempt that is let through is remembered for a period, and a remembered
  attempt is refused. The runs below are the calls of one context, in the order of the monitor.
\<close>

fun guard_run :: "('s \<Rightarrow> int \<Rightarrow> 'x \<Rightarrow> (bool \<times> 's) result) \<Rightarrow> 's \<Rightarrow> (int \<times> 'x) list \<Rightarrow> bool list result" where
  "guard_run attempt s [] = Inr []"
| "guard_run attempt s ((t, x) # xs) =
     res_bind (attempt s t x) (\<lambda>(r, s'). res_bind (guard_run attempt s' xs) (\<lambda>rs. Inr (r # rs)))"

locale timed_guard =
  fixes ok :: "'s \<Rightarrow> bool"
    and period :: "'s \<Rightarrow> int"
    and usable :: "int \<Rightarrow> int \<Rightarrow> 'x \<Rightarrow> bool"
    and ident :: "'x \<Rightarrow> 'i"
    and admissible :: "int \<Rightarrow> int \<Rightarrow> 'x \<Rightarrow> bool"
    and remembers :: "'s \<Rightarrow> 'x \<Rightarrow> int \<Rightarrow> bool"
    and attempt :: "'s \<Rightarrow> int \<Rightarrow> 'x \<Rightarrow> (bool \<times> 's) result"
  assumes attempt_ok: "ok s \<Longrightarrow> usable (period s) t x \<Longrightarrow>
      \<exists>r s'. attempt s t x = Inr (r, s') \<and> ok s' \<and> period s' = period s \<and>
        (\<not> r \<longrightarrow> admissible (period s) t x \<and> remembers s' x (t + period s)) \<and>
        (\<forall>y d. remembers s y d \<longrightarrow> t < d \<longrightarrow> remembers s' y d) \<and>
        (\<forall>d. remembers s x d \<longrightarrow> t < d \<longrightarrow> r)"
    and remembers_ident: "remembers s x d \<Longrightarrow> ident x = ident y \<Longrightarrow> remembers s y d"
begin

lemma run_ok:
  assumes "ok s" "\<forall>(t, x) \<in> set xs. usable (period s) t x" "sorted (map fst xs)"
  shows "\<exists>rs. guard_run attempt s xs = Inr rs \<and> length rs = length xs \<and>
    (\<forall>i. i < length xs \<longrightarrow> \<not> rs ! i \<longrightarrow> admissible (period s) (fst (xs ! i)) (snd (xs ! i))) \<and>
    (\<forall>j d. j < length xs \<longrightarrow> remembers s (snd (xs ! j)) d \<longrightarrow> fst (xs ! j) < d \<longrightarrow> rs ! j) \<and>
    (\<forall>i j. i < j \<longrightarrow> j < length xs \<longrightarrow> ident (snd (xs ! i)) = ident (snd (xs ! j)) \<longrightarrow> \<not> rs ! i \<longrightarrow>
       fst (xs ! j) < fst (xs ! i) + period s \<longrightarrow> rs ! j)"
  using assms
proof (induction xs arbitrary: s)
  case (Cons p xs)
  obtain t x where p: "p = (t, x)" by (cases p)
  obtain r s' where r: "attempt s t x = Inr (r, s')" "ok s'" "period s' = period s"
      "\<not> r \<longrightarrow> admissible (period s) t x \<and> remembers s' x (t + period s)"
      "\<forall>y d. remembers s y d \<longrightarrow> t < d \<longrightarrow> remembers s' y d" "\<forall>d. remembers s x d \<longrightarrow> t < d \<longrightarrow> r"
    using attempt_ok [of s t x] Cons.prems p by fastforce
  obtain rs where rs: "guard_run attempt s' xs = Inr rs" "length rs = length xs"
      "\<forall>i. i < length xs \<longrightarrow> \<not> rs ! i \<longrightarrow> admissible (period s) (fst (xs ! i)) (snd (xs ! i))"
      "\<forall>j d. j < length xs \<longrightarrow> remembers s' (snd (xs ! j)) d \<longrightarrow> fst (xs ! j) < d \<longrightarrow> rs ! j"
      "\<forall>i j. i < j \<longrightarrow> j < length xs \<longrightarrow> ident (snd (xs ! i)) = ident (snd (xs ! j)) \<longrightarrow> \<not> rs ! i \<longrightarrow>
         fst (xs ! j) < fst (xs ! i) + period s \<longrightarrow> rs ! j"
    using Cons.IH [of s'] Cons.prems r(2,3) by auto
  have later: "t \<le> fst (xs ! j)" if "j < length xs" for j
    using Cons.prems(3) that p by simp
  show ?case
  proof (intro exI [of _ "r # rs"] conjI allI impI)
    show "guard_run attempt s (p # xs) = Inr (r # rs)" using r(1) rs(1) p by simp
    show "length (r # rs) = length (p # xs)" using rs(2) by simp
  next
    fix i
    assume "i < length (p # xs)" "\<not> (r # rs) ! i"
    then show "admissible (period s) (fst ((p # xs) ! i)) (snd ((p # xs) ! i))" using r(4) rs(3) p by (cases i) auto
  next
    fix j d
    assume "j < length (p # xs)" "remembers s (snd ((p # xs) ! j)) d" "fst ((p # xs) ! j) < d"
    then show "(r # rs) ! j" using r(5,6) rs(4) later p by (cases j) fastforce+
  next
    fix i j
    assume h: "i < j" "j < length (p # xs)" "ident (snd ((p # xs) ! i)) = ident (snd ((p # xs) ! j))" "\<not> (r # rs) ! i"
      "fst ((p # xs) ! j) < fst ((p # xs) ! i) + period s"
    then obtain j' where j: "j = Suc j'" "j' < length xs" by (cases j) auto
    show "(r # rs) ! j"
    proof (cases i)
      case 0
      then have "remembers s' (snd (xs ! j')) (t + period s)"
        using h j r(4) remembers_ident p by auto
      then show ?thesis using rs(4) h j 0 p by auto
    next
      case (Suc i')
      then show ?thesis using rs(5) h j by auto
    qed
  qed
qed simp

end

section \<open>The replay check implements the guard\<close>

definition replay_hash ::
    "nspr \<Rightarrow> ('k, 's) pk11_ops \<Rightarrow> byte list \<Rightarrow> byte list \<Rightarrow> 'k SSLAntiReplayContext \<Rightarrow> zero_rtt_attempt \<Rightarrow> byte list result" where
  "replay_hash h tk info buf ctx a =
     tls13_HkdfExpandLabelRaw h tk info (ar_key ctx) ssl_hash_sha256 (Some (at_binder a)) (of_nat (length (at_binder a)))
       (map of_char ''anti-replay'') 11 (at_variant a) buf
       (bf_k (ar_filter0 ctx) * (bf_bits (ar_filter0 ctx) + 7) div 8)"

definition is_replay_at ::
    "nspr \<Rightarrow> ('k, 's) pk11_ops \<Rightarrow> byte list \<Rightarrow> byte list \<Rightarrow> 'k SSLAntiReplayContext \<Rightarrow> int \<Rightarrow> zero_rtt_attempt \<Rightarrow>
     (bool \<times> 'k SSLAntiReplayContext) result" where
  "is_replay_at h tk info buf ctx t a =
     res_bind (tls13_IsReplay h tk info buf (Some ctx) t t a) (\<lambda>(r, c).
       case c of None \<Rightarrow> Inl UNDEFINED_BEHAVIOUR | Some c \<Rightarrow> Inr (r, c))"

text \<open>
  Attempts at which the time computations are defined: an elapsed time of 64 bits, and an age that does
  not differ from it by exactly 2^31 milliseconds modulo 2^32.
\<close>

definition attempt_usable :: "int \<Rightarrow> int \<Rightarrow> zero_rtt_attempt \<Rightarrow> bool" where
  "attempt_usable window t a \<longleftrightarrow>
     ar_clock t \<and> length (at_binder a) < 2 ^ 32 \<and>
     (\<forall>c. at_creationTime a = Some c \<longrightarrow>
        - (2 ^ 62) \<le> c \<and> c < 2 ^ 62 \<and> int32 (uint (at_ticketAge a) - (t - c) sdiv 1000) \<noteq> - (2 ^ 31))"

lemma tls13_InWindow_ok:
  assumes "attempt_usable window t a" "at_creationTime a = Some c"
  shows "tls13_InWindow t (at_ticketAge a) c window =
    Inr (\<bar>int32 (uint (at_ticketAge a) - (t - c) sdiv 1000)\<bar> < int32 (window sdiv 2000))"
  using assms by (auto simp: tls13_InWindow_def attempt_usable_def PRTime_def ar_clock_def Let_def)

lemma ar_hash_size:
  assumes "ar_inv ctx"
  shows "unat (bf_k (ar_filter0 ctx) * (bf_bits (ar_filter0 ctx) + 7) div 8 :: u32) \<le> 64"
    and "bloom_need (ar_filter0 ctx) \<le> unat (bf_k (ar_filter0 ctx) * (bf_bits (ar_filter0 ctx) + 7) div 8 :: u32)"
proof -
  let ?k = "unat (bf_k (ar_filter0 ctx))" and ?b = "unat (bf_bits (ar_filter0 ctx))"
  have b: "?b \<le> 32" and le: "?k * (?b + 7) div 8 \<le> 64"
    using assms by (simp_all add: ar_inv_def bloom_inv_def word_le_nat_alt)
  then have "?k * (?b + 7) < 2 ^ LENGTH(32)" "unat (bf_bits (ar_filter0 ctx) + 7) = ?b + 7"
    by (simp_all add: unat_plus_no_wrap)
  then have *: "unat (bf_k (ar_filter0 ctx) * (bf_bits (ar_filter0 ctx) + 7) div 8 :: u32) = ?k * (?b + 7) div 8"
    by (simp add: unat_div_word unat_mult_lem [THEN iffD1])
  then show "unat (bf_k (ar_filter0 ctx) * (bf_bits (ar_filter0 ctx) + 7) div 8 :: u32) \<le> 64" using le by simp
  have "?k * ((?b + 7) div 8) * 8 \<le> ?k * (?b + 7)" by (simp add: mult.assoc)
  then show "bloom_need (ar_filter0 ctx) \<le> unat (bf_k (ar_filter0 ctx) * (bf_bits (ar_filter0 ctx) + 7) div 8 :: u32)"
    unfolding * bloom_need_def by (simp add: less_eq_div_iff_mult_less_eq)
qed

definition guard_env :: "('k, 's) pk11_ops \<Rightarrow> byte list \<Rightarrow> byte list \<Rightarrow> 'k SSLAntiReplayContext \<Rightarrow> bool" where
  "guard_env tk info buf ctx \<longleftrightarrow> ar_inv ctx \<and> hkdf_token_ok tk \<and> length info = 256 \<and> length buf = 64"

definition ar_remembers ::
    "nspr \<Rightarrow> ('k, 's) pk11_ops \<Rightarrow> byte list \<Rightarrow> byte list \<Rightarrow> 'k SSLAntiReplayContext \<Rightarrow> zero_rtt_attempt \<Rightarrow> int \<Rightarrow> bool" where
  "ar_remembers h tk info buf ctx a d \<longleftrightarrow> (\<forall>b. replay_hash h tk info buf ctx a = Inr b \<longrightarrow> ar_knows ctx b d)"

lemma replay_hash_same: "ar_same ctx' ctx \<Longrightarrow> replay_hash h tk info buf ctx' a = replay_hash h tk info buf ctx a"
  by (simp add: replay_hash_def ar_same_def bloom_same_def)

lemma replay_hash_ok:
  assumes "guard_env tk info buf ctx" "attempt_usable window t a"
  shows "replay_hash h tk info buf ctx a = Inl SSL_ERROR_SYM_KEY_CONTEXT_FAILURE \<or>
    (\<exists>b. replay_hash h tk info buf ctx a = Inr b \<and> length b = 64)"
proof -
  let ?n = "bf_k (ar_filter0 ctx) * (bf_bits (ar_filter0 ctx) + 7) div 8 :: u32"
  have "unat ?n \<le> length buf" using assms ar_hash_size(1) [of ctx] by (simp add: guard_env_def)
  from tls13_HkdfExpandLabelRaw_ok [OF _ _ _ _ this, of tk info 11 "map of_char ''anti-replay''" "Some (at_binder a)"
      "of_nat (length (at_binder a))"]
  show ?thesis using assms by (auto simp: replay_hash_def guard_env_def attempt_usable_def unat_of_nat take_bit_nat_eq_self)
qed

definition attempt_in_window :: "int \<Rightarrow> int \<Rightarrow> zero_rtt_attempt \<Rightarrow> bool" where
  "attempt_in_window window t a \<longleftrightarrow>
     (\<forall>c. at_creationTime a = Some c \<longrightarrow>
        \<bar>int32 (uint (at_ticketAge a) - (t - c) sdiv 1000)\<bar> < int32 (window sdiv 2000))"

lemma is_replay_at_eq:
  assumes "guard_env tk info buf ctx" "attempt_usable (ar_window ctx) t a"
  shows "is_replay_at h tk info buf ctx t a =
    (if \<not> attempt_in_window (ar_window ctx) t a
     then Inr (True, ctx)
     else case replay_hash h tk info buf ctx a of
            Inl e \<Rightarrow> Inr (True, ctx)
          | Inr b \<Rightarrow> replay_filters ctx t b)"
proof -
  consider e where "replay_hash h tk info buf ctx a = Inl e" "e \<noteq> UNDEFINED_BEHAVIOUR"
    | b where "replay_hash h tk info buf ctx a = Inr b"
    using replay_hash_ok [OF assms] by fastforce
  then show ?thesis
    using tls13_InWindow_ok [OF assms(2)]
    by cases (cases "at_creationTime a"; auto simp: is_replay_at_def tls13_IsReplay_def replay_hash_def attempt_in_window_def Let_def
        res_bind_def split: sum.splits)+
qed

lemma is_replay_at_ok:
  assumes env: "guard_env tk info buf ctx" and use: "attempt_usable (ar_window ctx) t a"
  shows "\<exists>r ctx'. is_replay_at h tk info buf ctx t a = Inr (r, ctx') \<and> guard_env tk info buf ctx' \<and>
    ar_window ctx' = ar_window ctx \<and>
    (\<not> r \<longrightarrow> attempt_in_window (ar_window ctx) t a \<and> ar_remembers h tk info buf ctx' a (t + ar_window ctx)) \<and>
    (\<forall>y d. ar_remembers h tk info buf ctx y d \<longrightarrow> t < d \<longrightarrow> ar_remembers h tk info buf ctx' y d) \<and>
    (\<forall>d. ar_remembers h tk info buf ctx a d \<longrightarrow> t < d \<longrightarrow> r)"
proof (cases "is_replay_at h tk info buf ctx t a = Inr (True, ctx)")
  case True
  then show ?thesis using env by auto
next
  case False
  then obtain b where b: "replay_hash h tk info buf ctx a = Inr b"
      "is_replay_at h tk info buf ctx t a = replay_filters ctx t b" "attempt_in_window (ar_window ctx) t a"
    unfolding is_replay_at_eq [OF assms] by (auto split: if_splits sum.splits)
  have "length b = 64" using replay_hash_ok [OF assms, of h] b(1) by simp
  then have "bloom_need (ar_filter0 ctx) \<le> length b"
    using env ar_hash_size [of ctx] by (auto simp: guard_env_def)
  then obtain r ctx' where r: "replay_filters ctx t b = Inr (r, ctx')" "ar_inv ctx'" "ar_same ctx' ctx"
      "ar_knows ctx' b (t + ar_window ctx)" "\<forall>y d. ar_knows ctx y d \<longrightarrow> t < d \<longrightarrow> ar_knows ctx' y d"
      "\<forall>d. ar_knows ctx b d \<longrightarrow> t < d \<longrightarrow> r"
    using replay_filters_ok [of ctx t b] env use by (auto simp: guard_env_def attempt_usable_def)
  have "ar_remembers h tk info buf ctx' y d \<longleftrightarrow> (\<forall>b. replay_hash h tk info buf ctx y = Inr b \<longrightarrow> ar_knows ctx' b d)" for y d
    by (simp add: ar_remembers_def replay_hash_same [OF r(3)])
  then show ?thesis using b r env
    by (auto simp: ar_remembers_def guard_env_def ar_same_def)
qed

interpretation tls13_guard: timed_guard "guard_env tk info buf" ar_window attempt_usable
  "\<lambda>a. (at_binder a, at_variant a)" attempt_in_window "ar_remembers h tk info buf" "is_replay_at h tk info buf"
  for h :: nspr and tk :: "('k, 's) pk11_ops" and info buf
proof (unfold_locales, goal_cases)
  case (1 s t x)
  then show ?case by (rule is_replay_at_ok)
next
  case (2 s x d y)
  then show ?case by (auto simp: ar_remembers_def replay_hash_def)
qed

section \<open>Lemmas: the ticket age\<close>

lemma int32_mod: "int32 x = (x + 2 ^ 31) mod 2 ^ 32 - 2 ^ 31"
  by (simp add: int32_def int_word_sint)

lemma int32_wraps: "\<exists>m. int32 x = x + 2 ^ 32 * m"
proof -
  have "(x + 2 ^ 31) mod 2 ^ 32 = (x + 2 ^ 31) - 2 ^ 32 * ((x + 2 ^ 31) div 2 ^ 32)"
    by (rule minus_mult_div_eq_mod [symmetric])
  then show ?thesis unfolding int32_mod by (intro exI [of _ "- ((x + 2 ^ 31) div 2 ^ 32)"]) simp
qed

lemma in_window_apart:
  assumes t: "0 \<le> t - c" "t - c < 2 ^ 31 * 1000" "0 \<le> t' - c" "t' - c < 2 ^ 31 * 1000"
    and w: "0 < window" "window \<le> 2 ^ 30 * 2000"
    and i: "\<bar>int32 (age - (t - c) sdiv 1000)\<bar> < int32 (window sdiv 2000)"
      "\<bar>int32 (age - (t' - c) sdiv 1000)\<bar> < int32 (window sdiv 2000)"
  shows "t' < t + window"
proof -
  define e e' W where "e = (t - c) div 1000" and "e' = (t' - c) div 1000" and "W = window div 2000"
  have sd: "(t - c) sdiv 1000 = e" "(t' - c) sdiv 1000 = e'" "window sdiv 2000 = W"
    using t w by (simp_all add: e_def e'_def W_def signed_divide_int_def sgn_if)
  have W: "int32 W = W" "W \<le> 2 ^ 30"
    using w unfolding int32_mod W_def by simp_all
  have e: "0 \<le> e" "e < 2 ^ 31" "0 \<le> e'" "e' < 2 ^ 31" using t by (simp_all add: e_def e'_def)
  obtain m m' where m: "int32 (age - e) = age - e + 2 ^ 32 * m" "int32 (age - e') = age - e' + 2 ^ 32 * m'"
    using int32_wraps by metis
  have "\<bar>age - e + 2 ^ 32 * m\<bar> < W" "\<bar>age - e' + 2 ^ 32 * m'\<bar> < W"
    using i unfolding sd W(1) m by simp_all
  moreover from this have "\<bar>(e' - e) + 2 ^ 32 * (m - m')\<bar> < 2 * W" by (simp add: algebra_simps)
  then have "m = m'" using W(2) e by simp
  ultimately have "e' - e \<le> 2 * W - 2" by simp
  then show ?thesis unfolding e_def e'_def W_def by linarith
qed

section \<open>Lemmas: creation\<close>

lemma sslBloom_Init_ok:
  assumes "nspr_ok h" "0 < bits" "bits \<le> 32" "sslBloom_Init h k bits = Inr f"
  shows "bloom_inv f \<and> bf_k f = k \<and> bf_bits f = bits"
proof -
  have "\<And>n m. PR_Calloc h n = Some m \<Longrightarrow> length m = n" using assms(1) unfolding nspr_ok_def by (metis length_replicate)
  then show ?thesis using assms(2-)
    by (auto simp: sslBloom_Init_def sslBloom_Size_ok PORT_ZAlloc_def bloom_inv_def bloom_size_def
        split: if_splits option.splits)
qed

lemma bloom_filled_member:
  assumes inv: "bloom_inv f" and fill: "sslBloom_Fill f = Inr f'" and len: "bloom_need f \<le> length b"
  shows "bloom_member f' b"
proof -
  have f': "f' = f\<lparr>bf_filter := Some (replicate (bloom_size f) 0xff)\<rparr>"
    using inv fill by (auto simp: sslBloom_Fill_def bloom_memset_def bloom_inv_def sslBloom_Size_ok mem_simps bloom_size_def)
  have "bloom_bit (replicate (bloom_size f) 0xff) i" if "i \<in> bloom_set f b" for i
  proof -
    have "i < 2 ^ unat (bf_bits f)"
      using that len bloom_indices_bound [of "unat (bf_k f)" "(unat (bf_bits f) + 7) div 8" b "unat (bf_bits f)"]
      by (auto simp: bloom_set_def bloom_need_def)
    also have "\<dots> \<le> 8 * bloom_size f"
      using power_increasing [of "unat (bf_bits f)" "3 + (unat (bf_bits f) - 3)" "2 :: nat"]
      by (simp add: power_add bloom_size_def)
    finally have "i div 8 < bloom_size f" by (simp add: less_mult_imp_div_less mult.commute)
    moreover have "(0xff :: byte) = - 1" by simp
    ultimately show ?thesis unfolding bloom_bit_def by (simp only: nth_replicate) (simp add: bit_minus_1_iff)
  qed
  then show ?thesis by (simp add: bloom_member_def f' bloom_set_def)
qed

lemma SSLExp_CreateAntiReplayContext_ok:
  assumes h: "nspr_ok h"
    and ctx: "SSLExp_CreateAntiReplayContext h tk keygen alloc monitor now window k bits pctx = Inr ctx"
    and args: "bits \<le> 32" "k \<le> 71" "window \<le> 2 ^ 62"
  shows "ar_inv ctx" "ar_window ctx = window" "bloom_need (ar_filter0 ctx) \<le> length b \<Longrightarrow> ar_knows ctx b (now + window)"
proof -
  have pos: "0 < window" "0 < k" "0 < bits" "\<not> k * (bits + 7) div 8 > 64"
    using ctx by (auto simp: SSLExp_CreateAntiReplayContext_def word_neq_0_conv split: if_splits)
  obtain f0 f1 f2 where f: "sslBloom_Init h k bits = Inr f0" "sslBloom_Init h k bits = Inr f1" "sslBloom_Fill f1 = Inr f2"
      "ar_filter0 ctx = f0" "ar_filter1 ctx = f2" "ar_current ctx = 0" "ar_window ctx = window" "ar_nextUpdate ctx = now + window"
    using ctx by (auto simp: SSLExp_CreateAntiReplayContext_def PRTime_def split: if_splits)
  note f0 = sslBloom_Init_ok [OF h pos(3) args(1) f(1)] and f1 = sslBloom_Init_ok [OF h pos(3) args(1) f(2)]
  have f2: "bloom_inv f2" "bloom_same f2 f1" using bloom_memset_ok [of f1 "0xff"] f(3) f1 by (auto simp: sslBloom_Fill_def)
  have b: "unat bits \<le> 32" "unat k \<le> 71" using args by (simp_all add: word_le_nat_alt)
  then have "unat k * (unat bits + 7) \<le> 71 * 39" by (intro mult_le_mono) simp_all
  then have "unat k * (unat bits + 7) < 2 ^ LENGTH(32)" "unat (bits + 7) = unat bits + 7"
    using b by (simp_all add: unat_plus_no_wrap)
  then have "unat (k * (bits + 7) div 8) = unat k * (unat bits + 7) div 8"
    by (simp add: unat_div_word unat_mult_lem [THEN iffD1])
  then have "unat k * (unat bits + 7) div 8 \<le> 64" using pos(4) by (simp add: word_less_nat_alt)
  then show "ar_inv ctx" using f f0 f1 f2 pos args by (simp add: ar_inv_def bloom_same_def)
  show "ar_window ctx = window" by (rule f(7))
  assume "bloom_need (ar_filter0 ctx) \<le> length b"
  then have "bloom_member f2 b"
    using bloom_filled_member [OF conjunct1 [OF f1] f(3)] f f0 f1 by (simp add: bloom_need_def)
  then show "ar_knows ctx b (now + window)" using f by (simp add: ar_knows_def ar_filter_def)
qed

section \<open>Concrete contexts\<close>

definition small_context :: "byte list SSLAntiReplayContext" where
  "small_context =
     \<lparr>ar_refCount = 1, ar_filter0 = \<lparr>bf_k = 1, bf_bits = 3, bf_filter = Some [0]\<rparr>,
      ar_filter1 = \<lparr>bf_k = 1, bf_bits = 3, bf_filter = Some [0]\<rparr>, ar_current = 0,
      ar_nextUpdate = 20000000, ar_window = 10000000, ar_key = [7]\<rparr>"

definition early_attempt :: zero_rtt_attempt where
  "early_attempt = \<lparr>at_creationTime = Some 0, at_ticketAge = 10000, at_binder = [1, 2, 3], at_variant = ssl_variant_stream\<rparr>"

lemma bytes_token_ok: "hkdf_token_ok bytes_token"
  by (auto simp: hkdf_token_ok_def bytes_token_def)

lemma small_context_env: "guard_env bytes_token (replicate 256 0) (replicate 64 0) small_context"
  by (simp add: guard_env_def bytes_token_ok small_context_def ar_inv_def bloom_inv_def bloom_size_def bloom_same_def)

lemma early_attempt_usable:
  "attempt_usable 10000000 10000000 early_attempt" "attempt_usable 10000000 12000000 early_attempt"
  by (simp_all add: attempt_usable_def early_attempt_def ar_clock_def int32_mod signed_divide_int_def)

section \<open>Properties\<close>

text \<open>
  C28: No replay goes unnoticed within a window: in any sequence of calls in the order of their times,
  all of which return, an attempt with the binder of an attempt let through less than one window
  earlier is reported as a replay, however many updates of the filters lie between.
\<close>

theorem zero_rtt_replay_detected:
  assumes "guard_env tk info buf ctx" "\<forall>(t, a) \<in> set xs. attempt_usable (ar_window ctx) t a" "sorted (map fst xs)"
  shows "\<exists>rs. guard_run (is_replay_at h tk info buf) ctx xs = Inr rs \<and> length rs = length xs \<and>
    (\<forall>i j. i < j \<longrightarrow> j < length xs \<longrightarrow>
       (at_binder (snd (xs ! i)), at_variant (snd (xs ! i))) = (at_binder (snd (xs ! j)), at_variant (snd (xs ! j))) \<longrightarrow>
       \<not> rs ! i \<longrightarrow> fst (xs ! j) < fst (xs ! i) + ar_window ctx \<longrightarrow> rs ! j)"
  using tls13_guard.run_ok [OF assms, of h] by blast

theorem zero_rtt_replay_detected_witness:
  "\<exists>rs. guard_run (is_replay_at zero_nspr bytes_token (replicate 256 0) (replicate 64 0)) small_context
      [(10000000, early_attempt), (12000000, early_attempt)] = Inr rs \<and> length rs = 2 \<and> (\<not> rs ! 0 \<longrightarrow> rs ! 1)"
  using zero_rtt_replay_detected [OF small_context_env, of "[(10000000, early_attempt), (12000000, early_attempt)]" zero_nspr]
    early_attempt_usable by (fastforce simp: small_context_def)



text \<open>
  C29: After a start no early data is accepted before the first update: a context made by
  SSLExp_CreateAntiReplayContext reports every attempt as a replay until one window has passed, because
  its second filter is full.
\<close>

theorem zero_rtt_refused_at_startup:
  assumes h: "nspr_ok h" and tk: "hkdf_token_ok tk" and arrays: "length info = 256" "length buf = 64"
    and ctx: "SSLExp_CreateAntiReplayContext h tk keygen alloc monitor now window k bits pctx = Inr ctx"
    and args: "bits \<le> 32" "k \<le> 71" "window \<le> 2 ^ 62"
    and xs: "\<forall>(t, a) \<in> set xs. attempt_usable window t a \<and> t < now + window" "sorted (map fst xs)"
  shows "guard_run (is_replay_at h tk info buf) ctx xs = Inr (replicate (length xs) True)"
proof -
  note ok = SSLExp_CreateAntiReplayContext_ok [OF h ctx args]
  have env: "guard_env tk info buf ctx" using ok(1) tk arrays by (simp add: guard_env_def)
  have xs': "\<forall>(t, a) \<in> set xs. attempt_usable (ar_window ctx) t a" using xs(1) ok(2) by auto
  obtain rs where rs: "guard_run (is_replay_at h tk info buf) ctx xs = Inr rs" "length rs = length xs"
      "\<forall>j d. j < length xs \<longrightarrow> ar_remembers h tk info buf ctx (snd (xs ! j)) d \<longrightarrow> fst (xs ! j) < d \<longrightarrow> rs ! j"
    using tls13_guard.run_ok [OF env xs' xs(2), of h] by blast
  have "rs ! i" if i: "i < length xs" for i
  proof -
    have use: "attempt_usable window (fst (xs ! i)) (snd (xs ! i))" "fst (xs ! i) < now + window"
      using bspec [OF xs(1) nth_mem [OF i]] by (auto simp: case_prod_beta)
    have "bloom_need (ar_filter0 ctx) \<le> length b" if "replay_hash h tk info buf ctx (snd (xs ! i)) = Inr b" for b
      using replay_hash_ok [OF env use(1), of h] that ar_hash_size [OF ok(1)] by auto
    then have "ar_remembers h tk info buf ctx (snd (xs ! i)) (now + window)"
      using ok(3) by (auto simp: ar_remembers_def)
    then show ?thesis using rs(3) i use(2) by blast
  qed
  then have "rs = replicate (length xs) True" using rs(2) by (simp add: list_eq_iff_nth_eq)
  then show ?thesis using rs(1) by simp
qed

theorem zero_rtt_refused_at_startup_witness:
  "\<exists>ctx. SSLExp_CreateAntiReplayContext zero_nspr bytes_token (\<lambda>_. Inr [7]) True True 0 20000000 4 7 True = Inr ctx \<and>
     guard_run (is_replay_at zero_nspr bytes_token (replicate 256 0) (replicate 64 0)) ctx [(10000000, early_attempt)] = Inr [True]"
proof -
  obtain ctx where ctx: "SSLExp_CreateAntiReplayContext zero_nspr bytes_token (\<lambda>_. Inr [7]) True True 0 20000000 4 7 True = Inr ctx"
    by (auto simp: SSLExp_CreateAntiReplayContext_def tls13_AntiReplayKeyGen_def bytes_token_def sslBloom_Init_def
        sslBloom_Size_def PORT_ZAlloc_def zero_nspr_def MAX_SIZE_def sslBloom_Fill_def bloom_memset_def mem_simps PRTime_def)
  have "attempt_usable 20000000 10000000 early_attempt"
    using early_attempt_usable(1) by (simp add: attempt_usable_def)
  then show ?thesis
    using zero_rtt_refused_at_startup [OF zero_nspr_ok bytes_token_ok _ _ ctx, of "replicate 256 0" "replicate 64 0" "[(10000000, early_attempt)]"]
      ctx by simp
qed



text \<open>Widths above 32 bits are not refused either: the size of the filter is then not defined.\<close>

lemma anti_replay_unchecked_bits:
  assumes "0 < window" "tls13_AntiReplayKeyGen tk keygen = Inr key"
  shows "SSLExp_CreateAntiReplayContext h tk keygen True True now window 1 40 True = Inl UNDEFINED_BEHAVIOUR"
  using assms by (simp add: SSLExp_CreateAntiReplayContext_def sslBloom_Init_def sslBloom_Size_def)

text \<open>
  The header asks for \<open>ceil(k * bits / 8)\<close> bytes of hashes, one byte for two hashes of four bits. The
  code reads a whole number of bytes for each hash.
\<close>

lemma bloom_hash_bytes:
  "sslBloom_Check \<lparr>bf_k = 2, bf_bits = 4, bf_filter = Some [0xff, 0xff]\<rparr> [0x12] = Inl UNDEFINED_BEHAVIOUR"
  using bloom_iterate_overread [of 1 "[0x12]" 2 False 4 "[0xff, 0xff]" True]
  by (simp add: sslBloom_Check_def sslBloom_AddOrCheck_def)

end
