(* ===== verification/Dtls_Socket.thy ===== *)
theory Dtls_Socket
  imports Record_Layer Hkdf_Label
begin

text \<open>
  The socket of a DTLS handshake and how it writes records: the record writer of
  \<^verbatim>\<open>lib/ssl/ssl3con.c\<close> over the protection of \<open>Record_Layer\<close>, and the pending buffer of
  \<^verbatim>\<open>lib/ssl/sslsecur.c\<close> that collects records for one datagram.

  The network and the clock are an explicit world. A run returns a result and the next socket, or
  \<open>None\<close> when a loop of the C code does not end. The indicator \<^verbatim>\<open>PORT_GetError\<close> reads is the
  error of the result. The lemmas say how long a protected record can be, and that writing a record
  that fits the record size limit changes nothing but the buffers, the counters of the cipher specs and
  the world.
\<close>

section \<open>Data\<close>

text \<open>
  One entry per fragment sent; on the receiving side only \<open>re_record\<close> matters.
\<close>

record DTLSHandshakeRecordEntry =
  re_messageSeq :: u16
  re_offset :: u32
  re_length :: u32
  re_record :: u64
  re_acked :: bool

text \<open>
  A queued message: the bytes of its block, its length as the 16-bit field the structure has, its
  content type and the cipher spec it is sent under, which is an address in the store of specs.
\<close>

record DTLSQueuedMessage =
  qm_cwSpec :: nat
  qm_type :: byte
  qm_data :: "byte list"
  qm_len :: u16

datatype DTLSTimerCb =
    dtls_RetransmitTimerExpiredCb | dtls13_SendAckCb | dtls_FinishedTimerCb | dtls13_HolddownTimerCb

record dtlsTimer =
  tm_cb :: "DTLSTimerCb option"
  tm_started :: u32
  tm_timeout :: u32

datatype SSL3WaitState =
    idle_handshake | wait_client_hello | wait_end_of_early_data | wait_client_cert | wait_client_key
  | wait_cert_verify | wait_change_cipher | wait_finished | wait_server_hello
  | wait_certificate_status | wait_server_cert | wait_server_key | wait_cert_request
  | wait_hello_done | wait_new_session_ticket | wait_encrypted_extensions | wait_invalid

text \<open>
  The socket: the fields of the record layer, and those of \<^verbatim>\<open>ss->ssl3.hs\<close>, \<^verbatim>\<open>ss->ssl3\<close>
  and \<^verbatim>\<open>ss->sec.ci\<close> that the DTLS handshake uses. \<open>ds_specs\<close> is the store of cipher specs,
  \<open>ds_crEpoch\<close> the epoch of the read spec.
  \<open>ds_sentRecords\<close> is history only: the plaintexts \<^verbatim>\<open>ssl3_SendRecord\<close> accepted, in order, with
  the spec and the content type; so is \<open>ds_datagrams\<close>, the buffers handed to the send function.
  \<open>ds_readSpecs\<close> are the specs for reading on the list \<^verbatim>\<open>cipherSpecs\<close>, as epochs with
  reference counts; the store keeps every spec for writing, so those are not counted.
\<close>

record 'w dtls_socket = sslSocket +
  ds_specs :: "nat \<Rightarrow> ssl3CipherSpec"
  ds_cwSpec :: nat
  ds_crEpoch :: u16
  ds_vrangeMax :: u16
  ds_preinfoVersion :: bool
  ds_handshakeBegun :: bool
  ds_mtu :: u16
  ds_pendingBuf :: sslBuffer
  ds_writeBuf :: sslBuffer
  ds_sendBuf :: sslBuffer
  ds_ws :: SSL3WaitState
  ds_sendMessageSeq :: u16
  ds_lastMessageFlight :: "DTLSQueuedMessage list"
  ds_maxMessageSent :: u16
  ds_recvMessageSeq :: u16
  ds_recvdFragments :: sslBuffer
  ds_recvdHighWater :: int
  ds_msg_body :: sslBuffer
  ds_msg_type :: byte
  ds_msg_len :: u32
  ds_rtTimer :: dtlsTimer
  ds_ackTimer :: dtlsTimer
  ds_hdTimer :: dtlsTimer
  ds_rtRetries :: u32
  ds_dtlsSentHandshake :: "DTLSHandshakeRecordEntry list"
  ds_dtlsRcvdHandshake :: "DTLSHandshakeRecordEntry list"
  ds_isKeyUpdateInProgress :: bool
  ds_dtlsHandhakeKeyUpdateMessage :: u64
  ds_helloRetry :: bool
  ds_endOfFlight :: bool
  ds_readSpecs :: "(u16 \<times> byte) list"
  ds_sentRecords :: "(nat \<times> byte \<times> byte list) list"
  ds_datagrams :: "byte list list"
  ds_world :: 'w

text \<open>
  What the code calls outside the modelled part: the allocator, the token, protection of records
  before TLS 1.3, the socket's send function and the clock, the application's record callback, the
  update and the restart of the handshake hashes, the alert writer, the traffic key update, the
  authentication of a certificate, and the handlers of the individual handshake messages.
\<close>

record 'w dtls_env =
  en_nspr :: nspr
  en_token :: aead_token
  en_MACEncryptRecord ::
    "ssl3CipherSpec \<Rightarrow> byte \<Rightarrow> byte list \<Rightarrow> u32 \<Rightarrow> sslBuffer \<Rightarrow> sslBuffer result \<times> ssl3CipherSpec"
  en_DefSend :: "byte list \<Rightarrow> 'w \<Rightarrow> u32 result \<times> 'w"
  en_IntervalNow :: "'w \<Rightarrow> u32"
  en_MillisecondsToInterval :: "u32 \<Rightarrow> u32"
  en_recordWriteCallback :: "(u16 \<Rightarrow> byte \<Rightarrow> byte list \<Rightarrow> 'w \<Rightarrow> unit result \<times> 'w) option"
  en_UpdateHandshakeHashes :: "byte list \<Rightarrow> 'w \<Rightarrow> unit result \<times> 'w"
  en_SendAlert :: "SSL3AlertDescription \<Rightarrow> 'w dtls_socket \<Rightarrow> 'w dtls_socket"
  en_UpdateTrafficKeys :: "'w dtls_socket \<Rightarrow> unit result \<times> 'w dtls_socket"
  en_RestartHandshakeHashes :: "'w \<Rightarrow> 'w"
  en_AuthCertificate :: "'w dtls_socket \<Rightarrow> unit result \<times> 'w dtls_socket"
  en_ProcessMessage :: "byte list \<Rightarrow> 'w dtls_socket \<Rightarrow> unit result \<times> 'w dtls_socket"

definition run_bind ::
    "('a result \<times> 's) option \<Rightarrow> ('a \<Rightarrow> 's \<Rightarrow> ('b result \<times> 's) option) \<Rightarrow> ('b result \<times> 's) option" where
  "run_bind m f =
     (case m of
        None \<Rightarrow> None
      | Some (Inl e, s) \<Rightarrow> Some (Inl e, s)
      | Some (Inr x, s) \<Rightarrow> f x s)"

definition ssl_MapLowLevelError :: "sec_error \<Rightarrow> sec_error \<Rightarrow> sec_error" where
  "ssl_MapLowLevelError oldErr hiLevelError =
     (if oldErr \<in> {NO_ERROR_SET, PR_IO_ERROR, SEC_ERROR_IO, SEC_ERROR_BAD_DATA,
                    SEC_ERROR_LIBRARY_FAILURE, SEC_ERROR_EXTENSION_NOT_FOUND, SSL_ERROR_BAD_CLIENT,
                    SSL_ERROR_BAD_SERVER, SSL_ERROR_SESSION_NOT_FOUND}
      then hiLevelError else oldErr)"

definition tls13_MaybeTls13 :: "'w dtls_socket \<Rightarrow> bool" where
  "tls13_MaybeTls13 ss \<longleftrightarrow>
     ss_version ss \<ge> SSL_LIBRARY_VERSION_TLS_1_3 \<or>
     (ds_vrangeMax ss \<ge> SSL_LIBRARY_VERSION_TLS_1_3 \<and> \<not> ds_preinfoVersion ss)"

section \<open>Writing records\<close>

abbreviation SSL3_BUFFER_FUDGE :: u32 where
  "SSL3_BUFFER_FUDGE \<equiv> 100"

text \<open>
  The bytes a failed call leaves in the write buffer beyond its length are not tracked: every caller
  resets the length to 0. The second component of a result is the number of bytes written.
\<close>

definition ssl_ProtectNextRecord ::
    "'w dtls_env \<Rightarrow> 'w dtls_socket \<Rightarrow> nat \<Rightarrow> byte \<Rightarrow> byte list \<Rightarrow> u32 \<Rightarrow>
     u32 result \<times> 'w dtls_socket" where
  "ssl_ProtectNextRecord env ss cwSpec ct pIn nIn =
     (let spec = ds_specs ss cwSpec;
          contentLen = min nIn (ucast (cs_recordSizeLimit spec));
          spaceNeeded = contentLen + SSL3_BUFFER_FUDGE +
            (if cs_version spec \<ge> SSL_LIBRARY_VERSION_TLS_1_1 \<and> bc_type (cs_cipherDef spec) = type_block
             then bc_iv_size (cs_cipherDef spec) else 0)
      in case (if spaceNeeded > SSL_BUFFER_SPACE (ds_writeBuf ss)
               then sslBuffer_Grow (en_nspr env) (ds_writeBuf ss) spaceNeeded
               else Inr (ds_writeBuf ss)) of
           Inl e \<Rightarrow> (Inl e, ss)
         | Inr wrBuf \<Rightarrow>
             (case ssl_ProtectRecord (en_nspr env) (en_token env) (en_MACEncryptRecord env)
                     (sslSocket.truncate ss) spec ct pIn contentLen wrBuf of
                (r, spec) \<Rightarrow>
                  let ss = ss\<lparr>ds_specs := (ds_specs ss)(cwSpec := spec)\<rparr> in
                  (case r of
                     Inl e \<Rightarrow> (Inl e, ss\<lparr>ds_writeBuf := wrBuf\<rparr>)
                   | Inr wrBuf \<Rightarrow> (Inr contentLen, ss\<lparr>ds_writeBuf := wrBuf\<rparr>))))"

definition ssl_SaveWriteData ::
    "'w dtls_env \<Rightarrow> 'w dtls_socket \<Rightarrow> byte list \<Rightarrow> u32 \<Rightarrow> unit result \<times> 'w dtls_socket" where
  "ssl_SaveWriteData env ss data len =
     (case sslBuffer_Append (en_nspr env) (ds_pendingBuf ss) data len of
        Inl e \<Rightarrow> (Inl e, ss)
      | Inr b \<Rightarrow> (Inr (), ss\<lparr>ds_pendingBuf := b\<rparr>))"

text \<open>The bytes left after a short send move to the front of the buffer.\<close>

definition ssl_SendSavedWriteData ::
    "'w dtls_env \<Rightarrow> 'w dtls_socket \<Rightarrow> u32 result \<times> 'w dtls_socket" where
  "ssl_SendSavedWriteData env ss =
     (let b = ds_pendingBuf ss in
      if sb_len b \<noteq> 0 then
        (case en_DefSend env (sslBuffer_contents b) (ds_world ss) of
           (Inl e, w) \<Rightarrow>
             (Inl e, ss\<lparr>ds_world := w, ds_datagrams := ds_datagrams ss @ [sslBuffer_contents b]\<rparr>)
         | (Inr rv, w) \<Rightarrow>
             let ss = ss\<lparr>ds_world := w, ds_datagrams := ds_datagrams ss @ [sslBuffer_contents b]\<rparr>;
                 len = (if rv > sb_len b then 0 else sb_len b - rv);
                 moved = (if len > 0 \<and> rv > 0
                          then sslBuffer_put b 0
                                 (take (unat len) (drop (unat rv) (sslBuffer_contents b)))
                          else Inr b)
             in (case moved of
                   Inl e \<Rightarrow> (Inl e, ss)
                 | Inr b \<Rightarrow> (Inr rv, ss\<lparr>ds_pendingBuf := b\<lparr>sb_len := len\<rparr>\<rparr>)))
      else (Inr 0, ss))"

text \<open>
  One turn of the loop of \<^verbatim>\<open>ssl3_SendRecord\<close>; the result is the number of plaintext bytes
  protected and whether later records are forced into the pending buffer.
\<close>

definition ssl3_SendRecord_turn ::
    "'w dtls_env \<Rightarrow> nat \<Rightarrow> byte \<Rightarrow> byte list \<Rightarrow> bool \<Rightarrow> 'w dtls_socket \<Rightarrow>
     (u32 \<times> bool) result \<times> 'w dtls_socket" where
  "ssl3_SendRecord_turn env spec ct pIn force ss =
     (case ssl_ProtectNextRecord env ss spec ct pIn (of_nat (length pIn)) of
        (Inl e, ss) \<Rightarrow> (Inl e, ss)
      | (Inr written, ss) \<Rightarrow>
          if sb_len (ds_pendingBuf ss) > 0 \<or> force then
            (case ssl_SaveWriteData env ss (sslBuffer_contents (ds_writeBuf ss))
                    (sb_len (ds_writeBuf ss)) of
               (Inl e, ss) \<Rightarrow> (Inl e, ss)
             | (Inr _, ss) \<Rightarrow>
                 if force then (Inr (written, True), ss)
                 else
                   (case ssl_SendSavedWriteData env (ss\<lparr>ds_handshakeBegun := True\<rparr>) of
                      (Inl e, ss) \<Rightarrow>
                        if e \<noteq> PR_WOULD_BLOCK_ERROR
                        then (Inl (ssl_MapLowLevelError e SSL_ERROR_SOCKET_WRITE_FAILURE), ss)
                        else (Inr (written, sb_len (ds_pendingBuf ss) \<noteq> 0), ss)
                    | (Inr _, ss) \<Rightarrow> (Inr (written, sb_len (ds_pendingBuf ss) \<noteq> 0), ss)))
          else
            (case en_DefSend env (sslBuffer_contents (ds_writeBuf ss)) (ds_world ss) of
               (r, w) \<Rightarrow>
                 let ss = ss\<lparr>ds_world := w, ds_handshakeBegun := True,
                             ds_datagrams := ds_datagrams ss @ [sslBuffer_contents (ds_writeBuf ss)]\<rparr>
                 in
                 (case (case r of
                          Inl e \<Rightarrow> if e \<noteq> PR_WOULD_BLOCK_ERROR
                                   then Inl (ssl_MapLowLevelError e SSL_ERROR_SOCKET_WRITE_FAILURE)
                                   else Inr 0
                        | Inr n \<Rightarrow> Inr n) of
                    Inl e \<Rightarrow> (Inl e, ss)
                  | Inr sent \<Rightarrow>
                      if sb_len (ds_writeBuf ss) > sent then
                        (if IS_DTLS ss then (Inl PR_WOULD_BLOCK_ERROR, ss)
                         else
                           (case ssl_SaveWriteData env ss
                                   (drop (unat sent) (sslBuffer_contents (ds_writeBuf ss)))
                                   (sb_len (ds_writeBuf ss) - sent) of
                              (Inl e, ss) \<Rightarrow> (Inl e, ss)
                            | (Inr _, ss) \<Rightarrow> (Inr (written, False), ss)))
                      else (Inr (written, False), ss))))"

partial_function (option) ssl3_SendRecord_loop ::
    "'w dtls_env \<Rightarrow> nat \<Rightarrow> byte \<Rightarrow> byte list \<Rightarrow> bool \<Rightarrow> u32 \<Rightarrow> 'w dtls_socket \<Rightarrow>
     (u32 result \<times> 'w dtls_socket) option" where
  "ssl3_SendRecord_loop env spec ct pIn force totalSent ss =
     (if pIn = [] then Some (Inr totalSent, ss)
      else case ssl3_SendRecord_turn env spec ct pIn force ss of
        (Inl e, ss) \<Rightarrow> Some (Inl e, ss\<lparr>ds_writeBuf := (ds_writeBuf ss)\<lparr>sb_len := 0\<rparr>\<rparr>)
      | (Inr (written, force), ss) \<Rightarrow>
          ssl3_SendRecord_loop env spec ct (drop (unat written) pIn) force (totalSent + written)
            (ss\<lparr>ds_writeBuf := (ds_writeBuf ss)\<lparr>sb_len := 0\<rparr>\<rparr>))"

declare ssl3_SendRecord_loop.simps [code]

definition ssl3_SendRecord ::
    "'w dtls_env \<Rightarrow> nat option \<Rightarrow> byte \<Rightarrow> byte list \<Rightarrow> bool \<Rightarrow> 'w dtls_socket \<Rightarrow>
     (u32 result \<times> 'w dtls_socket) option" where
  "ssl3_SendRecord env cwSpec ct pIn force ss =
     (if ss_fatalAlertSent ss
      then Some (Inl (if ct \<noteq> ssl_ct_alert then SSL_ERROR_HANDSHAKE_FAILED else NO_ERROR_SET), ss)
      else if \<not> ss_tokenPresent ss then Some (Inl SSL_ERROR_TOKEN_INSERTION_REMOVAL, ss)
      else
        let spec = (case cwSpec of Some spec \<Rightarrow> spec | None \<Rightarrow> ds_cwSpec ss) in
        run_bind
          (case en_recordWriteCallback env of
             Some cb \<Rightarrow>
               (case cb (cs_epoch (ds_specs ss (ds_cwSpec ss))) ct pIn (ds_world ss) of
                  (r, w) \<Rightarrow> Some (res_bind r (\<lambda>_. Inr (of_nat (length pIn))), ss\<lparr>ds_world := w\<rparr>))
           | None \<Rightarrow> ssl3_SendRecord_loop env spec ct pIn force 0 ss)
          (\<lambda>n ss. Some (Inr n, ss\<lparr>ds_sentRecords := ds_sentRecords ss @ [(spec, ct, pIn)]\<rparr>)))"

definition dtls_SendSavedWriteData ::
    "'w dtls_env \<Rightarrow> 'w dtls_socket \<Rightarrow> (unit result \<times> 'w dtls_socket) option" where
  "dtls_SendSavedWriteData env ss =
     (case ssl_SendSavedWriteData env ss of
        (Inl e, ss) \<Rightarrow> Some (Inl e, ss)
      | (Inr sent, ss) \<Rightarrow>
          if sb_len (ds_pendingBuf ss) > 0
          then Some (Inl (ssl_MapLowLevelError NO_ERROR_SET SSL_ERROR_SOCKET_WRITE_FAILURE), ss)
          else Some (Inr (), if sent > ucast (ds_maxMessageSent ss)
                             then ss\<lparr>ds_maxMessageSent := ucast sent\<rparr> else ss))"

section \<open>The length of a protected record\<close>

lemma sslBuffer_put_keeps:
  assumes "sslBuffer_put b off src = Inr b'" and "sslBuffer_inv b"
  shows "sslBuffer_inv b' \<and> sb_len b' = sb_len b \<and> sb_space b' = sb_space b"
  using assms by (auto simp: sslBuffer_put_def sslBuffer_inv_def dest!: mem_write_length split: if_splits option.splits)

lemma sslBuffer_AppendNumber_len:
  assumes "nspr_ok h" "sslBuffer_inv b" "sslBuffer_AppendNumber h b v sz = Inr b'"
    and "sz \<le> 8" "unat (sb_len b) + unat sz < 2 ^ 32"
  shows "sslBuffer_inv b' \<and> unat (sb_len b') = unat (sb_len b) + unat sz"
  using sslBuffer_AppendNumber_appends [OF assms(1,2,4,5), of v] assms(2,3)
    length_sslBuffer_contents [of b] length_sslBuffer_contents [of b']
  by (simp add: sslBuffer_appends_def)

text \<open>\<open>buf_upto n r\<close>: a result that is a buffer is well formed and at most \<open>n\<close> bytes long.\<close>

definition buf_upto :: "nat \<Rightarrow> sslBuffer result \<Rightarrow> bool" where
  "buf_upto n r \<longleftrightarrow> (\<forall>b. r = Inr b \<longrightarrow> sslBuffer_inv b \<and> unat (sb_len b) \<le> n)"

lemma buf_upto_bind:
  "buf_upto n r \<Longrightarrow> (\<And>b. r = Inr b \<Longrightarrow> sslBuffer_inv b \<Longrightarrow> unat (sb_len b) \<le> n \<Longrightarrow> buf_upto n' (f b)) \<Longrightarrow>
     buf_upto n' (res_bind r f)"
  by (cases r) (auto simp: buf_upto_def)

lemma buf_upto_AppendNumber:
  assumes h: "nspr_ok h" and b: "sslBuffer_inv b" "unat (sb_len b) \<le> n" and sz: "sz \<le> 8" "n + unat sz < 2 ^ 32"
    and f: "\<And>b'. sslBuffer_inv b' \<Longrightarrow> unat (sb_len b') \<le> n + unat sz \<Longrightarrow> buf_upto n' (f b')"
  shows "buf_upto n' (res_bind (sslBuffer_AppendNumber h b v sz) f)"
proof (cases "sslBuffer_AppendNumber h b v sz")
  case (Inl e)
  then show ?thesis by (simp add: buf_upto_def)
next
  case (Inr b')
  with sslBuffer_AppendNumber_len [OF h b(1) Inr sz(1)] b sz show ?thesis by (auto intro: f)
qed

lemma buf_upto_Inr: "sslBuffer_inv b \<Longrightarrow> unat (sb_len b) \<le> n \<Longrightarrow> n \<le> n' \<Longrightarrow> buf_upto n' (Inr b)"
  by (simp add: buf_upto_def)

lemma ssl_InsertRecordHeader_len:
  assumes h: "nspr_ok h" and inv: "sslBuffer_inv b" and len: "sb_len b = 0"
  shows "buf_upto 11 (map_sum id fst (ssl_InsertRecordHeader h ss spec ct b))"
proof -
  have fst_bind: "map_sum id fst (res_bind r f) = res_bind r (\<lambda>x. map_sum id fst (f x))"
    for r :: "sslBuffer result" and f :: "sslBuffer \<Rightarrow> (sslBuffer \<times> bool) result"
    by (cases r) simp_all
  have assoc: "res_bind (res_bind r f) g = res_bind r (\<lambda>x. res_bind (f x) g)"
    for r :: "sslBuffer result" and f g :: "sslBuffer \<Rightarrow> sslBuffer result"
    by (cases r) simp_all
  have sz: "(1 :: u32) \<le> 8" "(2 :: u32) \<le> 8" "(6 :: u32) \<le> 8" by (simp_all add: word_le_nat_alt)
  have b: "sslBuffer_inv b" "unat (sb_len b) \<le> 0" using inv len by simp_all
  have two: "buf_upto 11 (res_bind (sslBuffer_AppendNumber h b v 1) (\<lambda>b. res_bind (sslBuffer_AppendNumber h b v' sz) Inr))"
    if "sz \<le> 8" for v v' sz
  proof (rule buf_upto_AppendNumber [OF h b sz(1)])
    fix b' assume "sslBuffer_inv b'" "unat (sb_len b') \<le> 0 + unat (1 :: u32)"
    then show "buf_upto 11 (res_bind (sslBuffer_AppendNumber h b' v' sz) Inr)"
      by (rule buf_upto_AppendNumber [OF h])
        (use that in \<open>auto simp: word_le_nat_alt intro!: buf_upto_Inr\<close>)
  qed simp
  have "buf_upto 11 (res_bind (sslBuffer_AppendNumber h b v 1) (\<lambda>b. res_bind (sslBuffer_AppendNumber h b v' 2) (\<lambda>b.
      res_bind (sslBuffer_AppendNumber h b v2 2) (\<lambda>b. res_bind (sslBuffer_AppendNumber h b v3 6) Inr))))" for v v' v2 v3
  proof (rule buf_upto_AppendNumber [OF h b sz(1)])
    fix b' assume "sslBuffer_inv b'" "unat (sb_len b') \<le> 0 + unat (1 :: u32)"
    then show "buf_upto 11 (res_bind (sslBuffer_AppendNumber h b' v' 2) (\<lambda>b.
      res_bind (sslBuffer_AppendNumber h b v2 2) (\<lambda>b. res_bind (sslBuffer_AppendNumber h b v3 6) Inr)))"
    proof (rule buf_upto_AppendNumber [OF h _ _ sz(2)])
      fix b'' assume "sslBuffer_inv b''" "unat (sb_len b'') \<le> 0 + unat (1 :: u32) + unat (2 :: u32)"
      then show "buf_upto 11 (res_bind (sslBuffer_AppendNumber h b'' v2 2) (\<lambda>b. res_bind (sslBuffer_AppendNumber h b v3 6) Inr))"
      proof (rule buf_upto_AppendNumber [OF h _ _ sz(2)])
        fix b3 assume "sslBuffer_inv b3" "unat (sb_len b3) \<le> 0 + unat (1 :: u32) + unat (2 :: u32) + unat (2 :: u32)"
        then show "buf_upto 11 (res_bind (sslBuffer_AppendNumber h b3 v3 6) Inr)"
          by (rule buf_upto_AppendNumber [OF h _ _ sz(3)]) (auto intro!: buf_upto_Inr)
      qed simp
    qed simp
  qed simp
  then show ?thesis
    by (cases "IS_DTLS ss") (simp_all add: ssl_InsertRecordHeader_def dtls13_InsertCipherTextHeader_def
        Let_def fst_bind assoc two [OF sz(1)] two [OF sz(2)])
qed

lemma tls13_AEAD_encrypt_len:
  assumes tk: "aead_token_ok tk" and ret: "tls13_AEAD_encrypt tk spec fixed iv ivLen aad maxout tagLen inp = (r, spec')"
  shows "(\<exists>ctx. spec' = spec\<lparr>cs_ivContext := ctx\<rparr>) \<and>
         (\<forall>out. r = Inr out \<longrightarrow> length out = length inp + unat tagLen)"
proof -
  obtain g ctx where g: "pk11_GenerateIV (tk_random tk) (cs_ivContext spec) CKG_GENERATE_COUNTER_XOR fixed iv ivLen = (g, ctx)"
    by fastforce
  have enc: "length c = length pt \<and> length tag = n" if "tk_encrypt tk key v aad n pt = Inr (c, tag)" for key v n pt c tag
    using tk that unfolding aead_token_ok_def by blast
  show ?thesis
    using ret by (auto simp: tls13_AEAD_encrypt_def g split: if_splits dest!: enc)
qed

lemma tls13_ProtectRecord_len:
  assumes h: "nspr_ok h" and tk: "aead_token_ok tk" and inv: "sslBuffer_inv b"
    and tag: "unat (bc_tag_size (cs_cipherDef spec)) \<le> 16" and len: "unat (sb_len b) + unat n + 17 < 2 ^ 32"
    and ret: "tls13_ProtectRecord h tk ss spec ct pIn n b = (r, spec')"
  shows "(\<exists>ctx. spec' = spec\<lparr>cs_ivContext := ctx\<rparr>) \<and> buf_upto (unat (sb_len b) + unat n + 17) r"
proof -
  let ?k = "unat (sb_len b) + unat n + 17"
  define R where "R p \<longleftrightarrow> (\<exists>ctx. snd p = spec\<lparr>cs_ivContext := ctx\<rparr>) \<and> buf_upto ?k (fst p)" for p
  have id: "\<exists>ctx. spec = spec\<lparr>cs_ivContext := ctx\<rparr>" by (rule exI [of _ "cs_ivContext spec"]) simp
  have fail: "R (Inl e, spec)" for e using id by (simp add: R_def buf_upto_def)
  have skip: "buf_upto ?k (res_bind (sslBuffer_Skip h b1 sz) (\<lambda>(b2, _). Inr b2))"
    if "sslBuffer_inv b1" "sb_len b1 = sb_len b" "unat sz \<le> unat n + 17" for b1 sz
  proof (cases "sslBuffer_Skip h b1 sz")
    case (Inl e)
    then show ?thesis by (simp add: buf_upto_def)
  next
    case (Inr p)
    then show ?thesis
      using sslBuffer_Skip_ok [OF h that(1), of sz "fst p" "snd p"] that len
      by (auto simp: buf_upto_def unat_plus_no_wrap split_beta)
  qed
  have aead: "R (case tls13_AEAD_encrypt tk spec fixed iv ivLen aad maxout (bc_tag_size (cs_cipherDef spec))
          (take (unat n + 1) xs) of
        (Inl _, s) \<Rightarrow> (Inl SSL_ERROR_ENCRYPTION_FAILURE, s)
      | (Inr out, s) \<Rightarrow> (res_bind (sslBuffer_put b1 next out) (\<lambda>b2.
          res_bind (sslBuffer_Skip h b2 (of_nat (length out))) (\<lambda>(b3, _). Inr b3)), s))"
    if b1: "sslBuffer_inv b1" "sb_len b1 = sb_len b" for b1 fixed iv ivLen aad maxout xs "next"
  proof -
    obtain q s where e: "tls13_AEAD_encrypt tk spec fixed iv ivLen aad maxout (bc_tag_size (cs_cipherDef spec))
          (take (unat n + 1) xs) = (q, s)" by fastforce
    note E = tls13_AEAD_encrypt_len [OF tk e]
    show ?thesis
    proof (cases q)
      case (Inl a)
      then show ?thesis using E by (simp add: R_def e [simplified] buf_upto_def)
    next
      case (Inr out)
      have lo: "length out \<le> unat n + 17" using E Inr tag by auto
      then have "unat (of_nat (length out) :: u32) \<le> unat n + 17"
        using len by (simp add: unat_of_nat)
      then have "buf_upto ?k (res_bind (sslBuffer_put b1 next out) (\<lambda>b2.
          res_bind (sslBuffer_Skip h b2 (of_nat (length out))) (\<lambda>(b3, _). Inr b3)))"
        using sslBuffer_put_keeps [OF _ b1(1), of "next" out] skip b1(2)
        by (cases "sslBuffer_put b1 next out") (auto simp: buf_upto_def)
      then show ?thesis using E by (simp add: R_def e [simplified] Inr)
    qed
  qed
  have "R (tls13_ProtectRecord h tk ss spec ct pIn n b)"
  proof (cases "res_bind (mem_read pIn 0 (unat n)) (sslBuffer_put b (unat (sb_len b)))")
    case (Inl e)
    then show ?thesis using fail by (simp add: tls13_ProtectRecord_def Let_def)
  next
    case (Inr b1)
    then have b1: "sslBuffer_inv b1" "sb_len b1 = sb_len b"
      using sslBuffer_put_keeps [OF _ inv] by fastforce+
    define inner where "inner = res_bind (sslBuffer_put b1 (unat (sb_len b) + unat n) [ct]) (\<lambda>wrBuf.
                   res_bind (tls13_ProtectRecord_aad h ss spec n) (\<lambda>aad.
                   res_bind (tls13_SetupAeadIv (IS_DTLS ss) (cs_version spec) (cs_iv spec)
                               (spec_ivLen spec - 8) (spec_ivLen spec) (cs_epoch spec)) (\<lambda>(ivOut, ivOffset).
                   Inr (wrBuf, aad, ivOut, ivOffset))))"
    have b2: "sslBuffer_inv b2 \<and> sb_len b2 = sb_len b" if "inner = Inr (b2, aad, ivOut, ivOffset)" for b2 aad ivOut ivOffset
      using that sslBuffer_put_keeps [OF _ b1(1)] b1(2) by (auto simp: inner_def split_beta)
    show ?thesis
      unfolding tls13_ProtectRecord_def Let_def Inr sum.case inner_def [symmetric]
      using fail skip [OF b1, of n] id aead b2
      by (cases inner) (auto simp: R_def [of "(res_bind (sslBuffer_Skip h b1 n) _, _)"])
  qed
  then show ?thesis by (simp add: ret R_def)
qed

text \<open>
  Protection changes the counters of a spec only. \<open>mac_encrypt_ok\<close> is what the MTU arithmetic
  takes for granted of protection before TLS 1.3: at most 16 bytes of IV, 16 of padding and 32 of MAC.
\<close>

definition spec_const :: "ssl3CipherSpec \<Rightarrow> ssl3CipherSpec \<Rightarrow> bool" where
  "spec_const s s' \<longleftrightarrow> cs_recordSizeLimit s' = cs_recordSizeLimit s \<and> cs_cipherDef s' = cs_cipherDef s \<and>
     cs_version s' = cs_version s \<and> cs_epoch s' = cs_epoch s"

definition mac_encrypt_ok ::
    "(ssl3CipherSpec \<Rightarrow> byte \<Rightarrow> byte list \<Rightarrow> u32 \<Rightarrow> sslBuffer \<Rightarrow> sslBuffer result \<times> ssl3CipherSpec) \<Rightarrow> bool" where
  "mac_encrypt_ok mac \<longleftrightarrow>
     (\<forall>spec ct pIn n b. spec_const spec (snd (mac spec ct pIn n b)) \<and>
        (sslBuffer_inv b \<longrightarrow> buf_upto (unat (sb_len b) + unat n + 64) (fst (mac spec ct pIn n b))))"

lemma spec_const_refl [simp]: "spec_const s s"
  by (simp add: spec_const_def)

lemma spec_const_trans: "spec_const s s' \<Longrightarrow> spec_const s' s'' \<Longrightarrow> spec_const s s''"
  by (simp add: spec_const_def)

lemma spec_const_updates [simp]:
  "spec_const s (s\<lparr>cs_ivContext := x\<rparr>)" "spec_const s (s'\<lparr>cs_nextSeqNum := y\<rparr>) = spec_const s s'"
  by (simp_all add: spec_const_def)

lemma buf_upto_mono: "buf_upto n r \<Longrightarrow> n \<le> n' \<Longrightarrow> buf_upto n' r"
  by (auto simp: buf_upto_def)

lemma buf_upto_Inl [simp]: "buf_upto n (Inl e)"
  by (simp add: buf_upto_def)

lemma buf_upto_put:
  assumes "sslBuffer_inv b" "unat (sb_len b) \<le> n"
  shows "buf_upto n (sslBuffer_put b off src)"
  using sslBuffer_put_keeps [OF _ assms(1)] assms(2) by (fastforce simp: buf_upto_def)

lemma buf_upto_InsertLength:
  assumes "sslBuffer_inv b" "unat (sb_len b) \<le> n"
  shows "buf_upto n (sslBuffer_InsertLength b at sz)"
  using buf_upto_put [OF assms] by (simp add: sslBuffer_InsertLength_def Let_def)

lemma ssl_ProtectRecord_len:
  assumes h: "nspr_ok h" and tk: "aead_token_ok tk" and mac: "mac_encrypt_ok mac"
    and inv: "sslBuffer_inv b" and len: "sb_len b = 0" and n: "unat n \<le> 65535"
    and tag: "unat (bc_tag_size (cs_cipherDef spec)) \<le> 16"
    and ret: "ssl_ProtectRecord h tk mac ss spec ct pIn n b = (r, spec')"
  shows "spec_const spec spec' \<and> buf_upto (unat n + 77) r"
proof -
  define hdr where "hdr = res_bind (ssl_InsertRecordHeader h ss spec ct b) (\<lambda>(wrBuf, needsLength).
                  if needsLength
                  then res_bind (sslBuffer_Skip h wrBuf 2) (\<lambda>(wrBuf, lenOffset).
                         Inr (wrBuf, Some lenOffset))
                  else Inr (wrBuf, None))"
  define prot where "prot b1 = (if cs_version spec \<ge> SSL_LIBRARY_VERSION_TLS_1_3 then
                   case tls13_ProtectRecord h tk ss spec ct pIn n b1 of
                     (r, cwSpec) \<Rightarrow>
                       (res_bind r (\<lambda>wrBuf.
                          if IS_DTLS ss
                          then res_bind (dtls13_MaskSequenceNumber tk cwSpec
                                           (take (unat (sb_len b1)) (sslBuffer_contents wrBuf))
                                           (drop (unat (sb_len b1)) (sslBuffer_contents wrBuf)))
                                 (sslBuffer_put wrBuf 0)
                          else Inr wrBuf), cwSpec)
                 else mac spec ct pIn n b1)" for b1
  have hdr_len: "sslBuffer_inv b1 \<and> unat (sb_len b1) \<le> 13" if "hdr = Inr (b1, off)" for b1 off
  proof -
    have "sslBuffer_inv b0 \<and> unat (sb_len b0) \<le> 11"
      if "ssl_InsertRecordHeader h ss spec ct b = Inr (b0, x)" for b0 x
      using ssl_InsertRecordHeader_len [OF h inv len, of ss spec ct] that by (simp add: buf_upto_def)
    moreover have "sslBuffer_inv b1 \<and> unat (sb_len b1) = unat (sb_len b0) + 2"
      if "sslBuffer_Skip h b0 2 = Inr (b1, at)" "sslBuffer_inv b0" "unat (sb_len b0) \<le> 11" for b0 at
      using sslBuffer_Skip_ok [OF h that(2) _ that(1)] that(3) by (simp add: unat_plus_no_wrap)
    ultimately show ?thesis using that unfolding hdr_def
      by (fastforce simp: split_beta split: if_splits)
  qed
  have prot_len: "spec_const spec (snd (prot b1)) \<and> buf_upto (unat n + 77) (fst (prot b1))"
    if b1: "sslBuffer_inv b1" "unat (sb_len b1) \<le> 13" for b1
  proof (cases "cs_version spec \<ge> SSL_LIBRARY_VERSION_TLS_1_3")
    case True
    obtain q s where q: "tls13_ProtectRecord h tk ss spec ct pIn n b1 = (q, s)" by fastforce
    have Q: "spec_const spec s" "buf_upto (unat n + 30) q"
      using tls13_ProtectRecord_len [OF h tk b1(1) tag _ q] b1(2) n
      by (auto intro: buf_upto_mono)
    have "buf_upto (unat n + 77) (res_bind q (\<lambda>wrBuf.
                          if IS_DTLS ss
                          then res_bind (dtls13_MaskSequenceNumber tk s
                                           (take (unat (sb_len b1)) (sslBuffer_contents wrBuf))
                                           (drop (unat (sb_len b1)) (sslBuffer_contents wrBuf)))
                                 (sslBuffer_put wrBuf 0)
                          else Inr wrBuf))"
    proof (rule buf_upto_bind [OF Q(2)])
      fix w assume w: "sslBuffer_inv w" "unat (sb_len w) \<le> unat n + 30"
      then show "buf_upto (unat n + 77) (if IS_DTLS ss
                          then res_bind (dtls13_MaskSequenceNumber tk s
                                           (take (unat (sb_len b1)) (sslBuffer_contents w))
                                           (drop (unat (sb_len b1)) (sslBuffer_contents w)))
                                 (sslBuffer_put w 0)
                          else Inr w)"
        using buf_upto_put [OF w(1), of "unat n + 77"]
        by (cases "dtls13_MaskSequenceNumber tk s (take (unat (sb_len b1)) (sslBuffer_contents w))
                                           (drop (unat (sb_len b1)) (sslBuffer_contents w))")
          (auto simp: buf_upto_def [of _ "Inr _"])
    qed
    then show ?thesis using True Q by (simp add: prot_def q)
  next
    case False
    have "spec_const spec (snd (mac spec ct pIn n b1))"
      "buf_upto (unat (sb_len b1) + unat n + 64) (fst (mac spec ct pIn n b1))"
      using mac b1 by (auto simp: mac_encrypt_ok_def)
    then show ?thesis using False b1 by (auto simp: prot_def intro: buf_upto_mono)
  qed
  have fin: "buf_upto (unat n + 77) (res_bind q (\<lambda>wrBuf.
                    case off of None \<Rightarrow> Inr wrBuf | Some at \<Rightarrow> sslBuffer_InsertLength wrBuf at 2))"
    if "buf_upto (unat n + 77) q" for q off
    by (rule buf_upto_bind [OF that]) (auto simp: buf_upto_def [of _ "Inr _"] intro: buf_upto_InsertLength split: option.split)
  show ?thesis
  proof (cases "cs_nextSeqNum spec \<ge> bc_max_records (cs_cipherDef spec)")
    case True
    then show ?thesis using ret by (auto simp: ssl_ProtectRecord_def)
  next
    case False
    show ?thesis
    proof (cases hdr)
      case (Inl e)
      then show ?thesis using ret False by (auto simp: ssl_ProtectRecord_def hdr_def [symmetric])
    next
      case (Inr p)
      obtain b1 off where p: "p = (b1, off)" by fastforce
      obtain q s where q: "prot b1 = (q, s)" by fastforce
      note H = hdr_len [OF Inr [unfolded p]]
      define out where "out = res_bind q (\<lambda>wrBuf.
                    case off of None \<Rightarrow> Inr wrBuf | Some at \<Rightarrow> sslBuffer_InsertLength wrBuf at 2)"
      have "spec_const spec s" "buf_upto (unat n + 77) out"
        using prot_len [of b1] H q fin [of q off] by (auto simp: out_def)
      then show ?thesis
        using ret False Inr p q
        by (cases out) (auto simp: ssl_ProtectRecord_def hdr_def [symmetric] prot_def [symmetric]
            out_def [symmetric] Let_def)
    qed
  qed
qed

section \<open>What writing a record changes\<close>

text \<open>
  \<open>sends_only\<close>: of the socket, only what sending changes has changed. The fields that may change
  are blotted out before the comparison.
\<close>

definition control_part :: "'w dtls_socket \<Rightarrow> 'w dtls_socket" where
  "control_part ss = ss\<lparr>ds_specs := undefined, ds_pendingBuf := undefined, ds_writeBuf := undefined,
     ds_handshakeBegun := undefined, ds_maxMessageSent := undefined, ds_sentRecords := undefined,
     ds_datagrams := undefined, ds_dtlsSentHandshake := undefined, ds_world := undefined\<rparr>"

definition sends_only :: "'w dtls_socket \<Rightarrow> 'w dtls_socket \<Rightarrow> bool" where
  "sends_only ss ss' \<longleftrightarrow> control_part ss' = control_part ss \<and>
     (\<forall>a. spec_const (ds_specs ss a) (ds_specs ss' a))"

lemma sends_only_refl [simp]: "sends_only ss ss"
  by (simp add: sends_only_def)

lemma sends_only_trans [trans]: "sends_only ss ss' \<Longrightarrow> sends_only ss' ss'' \<Longrightarrow> sends_only ss ss''"
  unfolding sends_only_def by (metis spec_const_trans)

lemma control_part_updates [simp]:
  "control_part (ss\<lparr>ds_specs := specs\<rparr>) = control_part ss"
  "control_part (ss\<lparr>ds_pendingBuf := pend\<rparr>) = control_part ss"
  "control_part (ss\<lparr>ds_writeBuf := wr\<rparr>) = control_part ss"
  "control_part (ss\<lparr>ds_handshakeBegun := begun\<rparr>) = control_part ss"
  "control_part (ss\<lparr>ds_maxMessageSent := sent\<rparr>) = control_part ss"
  "control_part (ss\<lparr>ds_sentRecords := hist\<rparr>) = control_part ss"
  "control_part (ss\<lparr>ds_datagrams := grams\<rparr>) = control_part ss"
  "control_part (ss\<lparr>ds_dtlsSentHandshake := entries\<rparr>) = control_part ss"
  "control_part (ss\<lparr>ds_world := w\<rparr>) = control_part ss"
  by (simp_all add: control_part_def)

lemma sends_only_updates [simp]:
  "sends_only ss (ss'\<lparr>ds_pendingBuf := pend\<rparr>) = sends_only ss ss'"
  "sends_only ss (ss'\<lparr>ds_writeBuf := wr\<rparr>) = sends_only ss ss'"
  "sends_only ss (ss'\<lparr>ds_handshakeBegun := begun\<rparr>) = sends_only ss ss'"
  "sends_only ss (ss'\<lparr>ds_maxMessageSent := sent\<rparr>) = sends_only ss ss'"
  "sends_only ss (ss'\<lparr>ds_sentRecords := hist\<rparr>) = sends_only ss ss'"
  "sends_only ss (ss'\<lparr>ds_datagrams := grams\<rparr>) = sends_only ss ss'"
  "sends_only ss (ss'\<lparr>ds_dtlsSentHandshake := entries\<rparr>) = sends_only ss ss'"
  "sends_only ss (ss'\<lparr>ds_world := w\<rparr>) = sends_only ss ss'"
  by (simp_all add: sends_only_def)

lemma control_part_fields:
  "ds_mtu (control_part ss) = ds_mtu ss" "ss_version (control_part ss) = ss_version ss"
  "ds_vrangeMax (control_part ss) = ds_vrangeMax ss" "ds_preinfoVersion (control_part ss) = ds_preinfoVersion ss"
  "ds_lastMessageFlight (control_part ss) = ds_lastMessageFlight ss"
  "ds_rtTimer (control_part ss) = ds_rtTimer ss" "ds_rtRetries (control_part ss) = ds_rtRetries ss"
  "ds_recvMessageSeq (control_part ss) = ds_recvMessageSeq ss"
  by (simp_all add: control_part_def)

lemma sends_onlyD:
  assumes "sends_only ss ss'"
  shows "ds_mtu ss' = ds_mtu ss" "tls13_MaybeTls13 ss' = tls13_MaybeTls13 ss"
    "ds_lastMessageFlight ss' = ds_lastMessageFlight ss" "ds_rtTimer ss' = ds_rtTimer ss"
    "ds_rtRetries ss' = ds_rtRetries ss" "spec_const (ds_specs ss a) (ds_specs ss' a)"
proof -
  have e: "control_part ss' = control_part ss" using assms by (simp add: sends_only_def)
  show "ds_mtu ss' = ds_mtu ss" "ds_lastMessageFlight ss' = ds_lastMessageFlight ss"
    "ds_rtTimer ss' = ds_rtTimer ss" "ds_rtRetries ss' = ds_rtRetries ss"
    by (metis e control_part_fields)+
  show "tls13_MaybeTls13 ss' = tls13_MaybeTls13 ss"
    unfolding tls13_MaybeTls13_def by (metis e control_part_fields(2-4))
  show "spec_const (ds_specs ss a) (ds_specs ss' a)" using assms by (simp add: sends_only_def)
qed

definition tx_ok :: "'w dtls_env \<Rightarrow> 'w dtls_socket \<Rightarrow> bool" where
  "tx_ok env ss \<longleftrightarrow> nspr_ok (en_nspr env) \<and> aead_token_ok (en_token env) \<and>
     mac_encrypt_ok (en_MACEncryptRecord env) \<and> sslBuffer_inv (ds_pendingBuf ss) \<and>
     sslBuffer_inv (ds_writeBuf ss) \<and> sb_len (ds_writeBuf ss) = 0 \<and>
     90 \<le> unat (ds_mtu ss) \<and> unat (ds_mtu ss) \<le> 1500 \<and>
     (\<forall>d w n w'. en_DefSend env d w = (Inr n, w') \<longrightarrow> unat n \<le> length d)"

lemma ssl_ProtectNextRecord_ok:
  assumes ok: "tx_ok env ss" and tag: "unat (bc_tag_size (cs_cipherDef (ds_specs ss a))) \<le> 16"
    and fits: "length data \<le> unat (cs_recordSizeLimit (ds_specs ss a))"
  obtains r specs wr where
    "ssl_ProtectNextRecord env ss a ct data (of_nat (length data)) = (r, ss\<lparr>ds_specs := specs, ds_writeBuf := wr\<rparr>)"
    "sslBuffer_inv wr" "\<forall>x. spec_const (ds_specs ss x) (specs x)"
    "\<And>n. r = Inr n \<Longrightarrow> n = of_nat (length data) \<and> unat (sb_len wr) \<le> length data + 77"
proof -
  let ?spec = "ds_specs ss a"
  have lim: "unat (cs_recordSizeLimit ?spec) < 65536"
    using unsigned_less [of "cs_recordSizeLimit ?spec", where 'a = nat] by simp
  have ld: "unat (of_nat (length data) :: u32) = length data" using fits lim by (simp add: unat_of_nat)
  have "of_nat (length data) \<le> (ucast (cs_recordSizeLimit ?spec) :: u32)"
    using fits ld by (simp add: word_le_nat_alt unat_ucast_le)
  then have mn: "min (of_nat (length data)) (ucast (cs_recordSizeLimit ?spec)) = (of_nat (length data) :: u32)"
    by (simp add: min_def)
  define need where "need = (of_nat (length data) :: u32) + SSL3_BUFFER_FUDGE +
            (if cs_version ?spec \<ge> SSL_LIBRARY_VERSION_TLS_1_1 \<and> bc_type (cs_cipherDef ?spec) = type_block
             then bc_iv_size (cs_cipherDef ?spec) else 0)"
  define g where "g = (if need > SSL_BUFFER_SPACE (ds_writeBuf ss)
               then sslBuffer_Grow (en_nspr env) (ds_writeBuf ss) need else Inr (ds_writeBuf ss))"
  have core: "ssl_ProtectNextRecord env ss a ct data (of_nat (length data)) =
      (case g of
         Inl e \<Rightarrow> (Inl e, ss)
       | Inr wrBuf \<Rightarrow>
           (case ssl_ProtectRecord (en_nspr env) (en_token env) (en_MACEncryptRecord env)
                   (sslSocket.truncate ss) ?spec ct data (of_nat (length data)) wrBuf of
              (r, spec) \<Rightarrow>
                let ss = ss\<lparr>ds_specs := (ds_specs ss)(a := spec)\<rparr> in
                (case r of
                   Inl e \<Rightarrow> (Inl e, ss\<lparr>ds_writeBuf := wrBuf\<rparr>)
                 | Inr wrBuf \<Rightarrow> (Inr (of_nat (length data)), ss\<lparr>ds_writeBuf := wrBuf\<rparr>))))"
    unfolding ssl_ProtectNextRecord_def Let_def mn g_def need_def ..
  show ?thesis
  proof (cases g)
    case (Inl e)
    have "ssl_ProtectNextRecord env ss a ct data (of_nat (length data)) =
        (Inl e, ss\<lparr>ds_specs := ds_specs ss, ds_writeBuf := ds_writeBuf ss\<rparr>)"
      by (simp add: core Inl)
    then show ?thesis by (rule that) (use ok in \<open>simp_all add: tx_ok_def\<close>)
  next
    case (Inr wr)
    have wr: "sslBuffer_inv wr" "sb_len wr = 0"
      using Inr ok sslBuffer_Grow_ok [of "en_nspr env" "ds_writeBuf ss" need wr]
      by (auto simp: g_def tx_ok_def split: if_splits)
    obtain r spec' where p: "ssl_ProtectRecord (en_nspr env) (en_token env) (en_MACEncryptRecord env)
        (sslSocket.truncate ss) ?spec ct data (of_nat (length data)) wr = (r, spec')" by fastforce
    have P: "spec_const ?spec spec'" "buf_upto (length data + 77) r"
      using ssl_ProtectRecord_len [OF _ _ _ wr _ tag p] ok ld fits lim by (simp_all add: tx_ok_def)
    show ?thesis
    proof (cases r)
      case (Inl e)
      have "ssl_ProtectNextRecord env ss a ct data (of_nat (length data)) =
          (Inl e, ss\<lparr>ds_specs := (ds_specs ss)(a := spec'), ds_writeBuf := wr\<rparr>)"
        by (simp add: core Inr p Inl)
      then show ?thesis by (rule that) (use wr P in simp_all)
    next
      case I: (Inr wr')
      have "ssl_ProtectNextRecord env ss a ct data (of_nat (length data)) =
          (Inr (of_nat (length data)), ss\<lparr>ds_specs := (ds_specs ss)(a := spec'), ds_writeBuf := wr'\<rparr>)"
        by (simp add: core Inr p I)
      then show ?thesis by (rule that) (use P I in \<open>simp_all add: buf_upto_def\<close>)
    qed
  qed
qed

text \<open>What the pending buffer, the histories and the result of a send have to do with each other.\<close>

lemma tx_ok_updates [simp]:
  "tx_ok env (ss\<lparr>ds_sentRecords := x\<rparr>) = tx_ok env ss" "tx_ok env (ss\<lparr>ds_world := y\<rparr>) = tx_ok env ss"
  "tx_ok env (ss\<lparr>ds_datagrams := z\<rparr>) = tx_ok env ss" "tx_ok env (ss\<lparr>ds_maxMessageSent := u\<rparr>) = tx_ok env ss"
  "tx_ok env (ss\<lparr>ds_dtlsSentHandshake := v\<rparr>) = tx_ok env ss" "tx_ok env (ss\<lparr>ds_lastMessageFlight := fl\<rparr>) = tx_ok env ss"
  by (simp_all add: tx_ok_def)

lemma sslBuffer_inv_empty: "sslBuffer_inv b \<Longrightarrow> sslBuffer_inv (b\<lparr>sb_len := 0\<rparr>)"
  by (auto simp: sslBuffer_inv_def split: option.splits)

lemma ssl3_SendRecord_turn_force:
  "ssl3_SendRecord_turn env spec ct pIn True ss =
     (case ssl_ProtectNextRecord env ss spec ct pIn (of_nat (length pIn)) of
        (Inl e, ss) \<Rightarrow> (Inl e, ss)
      | (Inr written, ss) \<Rightarrow>
          (case sslBuffer_Append (en_nspr env) (ds_pendingBuf ss) (sslBuffer_contents (ds_writeBuf ss))
                  (sb_len (ds_writeBuf ss)) of
             Inl e \<Rightarrow> (Inl e, ss)
           | Inr b \<Rightarrow> (Inr (written, True), ss\<lparr>ds_pendingBuf := b\<rparr>)))"
  by (simp add: ssl3_SendRecord_turn_def ssl_SaveWriteData_def split: prod.split sum.split)

lemma ssl3_SendRecord_force:
  assumes ok: "tx_ok env ss" and tag: "unat (bc_tag_size (cs_cipherDef (ds_specs ss a))) \<le> 16"
    and fits: "length data \<le> unat (cs_recordSizeLimit (ds_specs ss a))" and ne: "data \<noteq> []"
    and pend: "unat (sb_len (ds_pendingBuf ss)) + length data + 77 < 2 ^ 32"
  obtains r ss' where "ssl3_SendRecord env (Some a) ct data True ss = Some (r, ss')"
    "sends_only ss ss'" "tx_ok env ss'" "ds_datagrams ss' = ds_datagrams ss"
    "ds_dtlsSentHandshake ss' = ds_dtlsSentHandshake ss" "ds_maxMessageSent ss' = ds_maxMessageSent ss"
    "unat (sb_len (ds_pendingBuf ss')) \<le> unat (sb_len (ds_pendingBuf ss)) + length data + 77"
    "case r of Inl e \<Rightarrow> ds_sentRecords ss' = ds_sentRecords ss
     | Inr n \<Rightarrow> n = of_nat (length data) \<and> ds_sentRecords ss' = ds_sentRecords ss @ [(a, ct, data)]"
proof -
  let ?done = "\<lambda>ss. ss\<lparr>ds_writeBuf := (ds_writeBuf ss)\<lparr>sb_len := 0\<rparr>\<rparr>"
  have ld: "unat (of_nat (length data) :: u32) = length data"
    using fits unsigned_less [of "cs_recordSizeLimit (ds_specs ss a)", where 'a = nat] by (simp add: unat_of_nat)
  have loop: "\<exists>r ss'. ssl3_SendRecord_loop env a ct data True 0 ss = Some (r, ss') \<and>
      sends_only ss ss' \<and> tx_ok env ss' \<and> ds_datagrams ss' = ds_datagrams ss \<and>
      ds_dtlsSentHandshake ss' = ds_dtlsSentHandshake ss \<and> ds_maxMessageSent ss' = ds_maxMessageSent ss \<and> ds_sentRecords ss' = ds_sentRecords ss \<and>
      unat (sb_len (ds_pendingBuf ss')) \<le> unat (sb_len (ds_pendingBuf ss)) + length data + 77 \<and>
      (\<forall>n. r = Inr n \<longrightarrow> n = of_nat (length data))"
  proof -
    obtain r specs wr where p: "ssl_ProtectNextRecord env ss a ct data (of_nat (length data)) =
        (r, ss\<lparr>ds_specs := specs, ds_writeBuf := wr\<rparr>)"
      and wr: "sslBuffer_inv wr" and sc: "\<forall>x. spec_const (ds_specs ss x) (specs x)"
      and n: "\<And>n. r = Inr n \<Longrightarrow> n = of_nat (length data) \<and> unat (sb_len wr) \<le> length data + 77"
      by (rule ssl_ProtectNextRecord_ok [OF ok tag fits]) blast
    show ?thesis
    proof (cases r)
      case (Inl e)
      then show ?thesis
        using p wr sc ok ne
        by (subst ssl3_SendRecord_loop.simps)
          (simp add: ssl3_SendRecord_turn_force sends_only_def tx_ok_def sslBuffer_inv_empty)
    next
      case (Inr m)
      note m = n [OF Inr]
      let ?ss1 = "ss\<lparr>ds_specs := specs, ds_writeBuf := wr\<rparr>"
      have len: "unat (sb_len wr) = length (sslBuffer_contents wr)"
        using length_sslBuffer_contents [OF wr] by simp
      have app: "sslBuffer_appends (ds_pendingBuf ss) (take (unat (sb_len wr)) (sslBuffer_contents wr))
          (sslBuffer_Append (en_nspr env) (ds_pendingBuf ss) (sslBuffer_contents wr) (sb_len wr))"
        by (rule sslBuffer_Append_appends) (use ok len m pend in \<open>simp_all add: tx_ok_def\<close>)
      show ?thesis
      proof (cases "sslBuffer_Append (en_nspr env) (ds_pendingBuf ss) (sslBuffer_contents wr) (sb_len wr)")
        case I: (Inl e)
        then show ?thesis
          using p wr sc ok ne Inr
          by (subst ssl3_SendRecord_loop.simps)
            (simp add: ssl3_SendRecord_turn_force sends_only_def tx_ok_def sslBuffer_inv_empty)
      next
        case I: (Inr b)
        have b: "sslBuffer_inv b" "sslBuffer_contents b = sslBuffer_contents (ds_pendingBuf ss) @ sslBuffer_contents wr"
          using app I len by (simp_all add: sslBuffer_appends_def)
        have "unat (sb_len b) = unat (sb_len (ds_pendingBuf ss)) + unat (sb_len wr)"
          using length_sslBuffer_contents [OF b(1)] length_sslBuffer_contents [of "ds_pendingBuf ss"] b(2) len ok
          by (simp add: tx_ok_def)
        then show ?thesis
          using p wr sc ok ne Inr I m b(1) ld
          by (subst ssl3_SendRecord_loop.simps)
            (simp add: ssl3_SendRecord_turn_force sends_only_def tx_ok_def sslBuffer_inv_empty
              ssl3_SendRecord_loop.simps [of _ _ _ "[]"])
      qed
    qed
  qed
  consider (alert) "ss_fatalAlertSent ss" | (token) "\<not> ss_fatalAlertSent ss" "\<not> ss_tokenPresent ss"
    | (cb) cb where "\<not> ss_fatalAlertSent ss" "ss_tokenPresent ss" "en_recordWriteCallback env = Some cb"
    | (main) "\<not> ss_fatalAlertSent ss" "ss_tokenPresent ss" "en_recordWriteCallback env = None"
    by fastforce
  then show ?thesis
  proof cases
    case alert
    show ?thesis
      by (rule that [of "Inl (if ct \<noteq> ssl_ct_alert then SSL_ERROR_HANDSHAKE_FAILED else NO_ERROR_SET)" ss])
        (use alert ok in \<open>simp_all add: ssl3_SendRecord_def\<close>)
  next
    case token
    show ?thesis
      by (rule that [of "Inl SSL_ERROR_TOKEN_INSERTION_REMOVAL" ss])
        (use token ok in \<open>simp_all add: ssl3_SendRecord_def\<close>)
  next
    case cb
    obtain q w where q: "cb (cs_epoch (ds_specs ss (ds_cwSpec ss))) ct data (ds_world ss) = (q, w)" by fastforce
    show ?thesis
    proof (cases q)
      case (Inl e)
      show ?thesis
        by (rule that [of "Inl e" "ss\<lparr>ds_world := w\<rparr>"])
          (use cb q Inl ok in \<open>simp_all add: ssl3_SendRecord_def run_bind_def\<close>)
    next
      case (Inr u)
      show ?thesis
        by (rule that [of "Inr (of_nat (length data))"
              "ss\<lparr>ds_world := w, ds_sentRecords := ds_sentRecords ss @ [(a, ct, data)]\<rparr>"])
          (use cb q Inr ok in \<open>simp_all add: ssl3_SendRecord_def run_bind_def Let_def\<close>)
    qed
  next
    case main
    obtain r ss' where L: "ssl3_SendRecord_loop env a ct data True 0 ss = Some (r, ss')"
      "sends_only ss ss'" "tx_ok env ss'" "ds_datagrams ss' = ds_datagrams ss"
      "ds_dtlsSentHandshake ss' = ds_dtlsSentHandshake ss" "ds_maxMessageSent ss' = ds_maxMessageSent ss"
      "ds_sentRecords ss' = ds_sentRecords ss"
      "unat (sb_len (ds_pendingBuf ss')) \<le> unat (sb_len (ds_pendingBuf ss)) + length data + 77"
      "\<forall>n. r = Inr n \<longrightarrow> n = of_nat (length data)"
      using loop by blast
    show ?thesis
    proof (cases r)
      case (Inl e)
      show ?thesis
        by (rule that [of r ss']) (use L Inl main in \<open>simp_all add: ssl3_SendRecord_def run_bind_def Let_def\<close>)
    next
      case (Inr n)
      show ?thesis
        by (rule that [of r "ss'\<lparr>ds_sentRecords := ds_sentRecords ss' @ [(a, ct, data)]\<rparr>"])
          (use L Inr main in \<open>simp_all add: ssl3_SendRecord_def run_bind_def Let_def\<close>)
    qed
  qed
qed

lemma sslBuffer_inv_shorter: "sslBuffer_inv b \<Longrightarrow> n \<le> sb_len b \<Longrightarrow> sslBuffer_inv (b\<lparr>sb_len := n\<rparr>)"
  by (auto simp: sslBuffer_inv_def split: option.splits)

lemma ssl_SendSavedWriteData_ok:
  assumes inv: "sslBuffer_inv (ds_pendingBuf ss)"
    and io: "\<forall>d w n w'. en_DefSend env d w = (Inr n, w') \<longrightarrow> unat n \<le> length d"
  obtains r b w where "ssl_SendSavedWriteData env ss =
      (r, ss\<lparr>ds_pendingBuf := b, ds_world := w,
             ds_datagrams := ds_datagrams ss @ (if sb_len (ds_pendingBuf ss) = 0 then []
                                                else [sslBuffer_contents (ds_pendingBuf ss)])\<rparr>)"
    "sslBuffer_inv b" "sb_len b \<le> sb_len (ds_pendingBuf ss)"
    "\<And>n. r = Inr n \<Longrightarrow> unat n \<le> unat (sb_len (ds_pendingBuf ss))"
proof -
  let ?b = "ds_pendingBuf ss"
  show ?thesis
  proof (cases "sb_len ?b = 0")
    case True
    show ?thesis
      by (rule that [where r = "Inr 0" and b = ?b and w = "ds_world ss"]) (use True inv in \<open>simp_all add: ssl_SendSavedWriteData_def\<close>)
  next
    case False
    obtain q w where q: "en_DefSend env (sslBuffer_contents ?b) (ds_world ss) = (q, w)" by fastforce
    show ?thesis
    proof (cases q)
      case (Inl e)
      show ?thesis
        by (rule that [where r = "Inl e" and b = ?b and w = w])
          (use False inv q Inl in \<open>simp_all add: ssl_SendSavedWriteData_def Let_def\<close>)
    next
      case (Inr rv)
      define len where "len = (if rv > sb_len ?b then 0 else sb_len ?b - rv)"
      have len: "len \<le> sb_len ?b" "unat len \<le> unat (sb_len ?b)"
        by (auto simp: len_def word_le_nat_alt unat_sub_if' not_less)
      let ?src = "take (unat len) (drop (unat rv) (sslBuffer_contents ?b))"
      have "0 + length ?src \<le> unat (sb_len ?b)" using len(2) by (simp add: min.coboundedI2)
      then obtain b' where b': "sslBuffer_put ?b 0 ?src = Inr b'" "sslBuffer_inv b'" "sb_len b' = sb_len ?b"
        using sslBuffer_put_inside [OF inv] by blast
      define b2 where "b2 = (if len > 0 \<and> rv > 0 then b' else ?b)"
      have b2: "sslBuffer_inv b2" "sb_len b2 = sb_len ?b" using b' inv by (simp_all add: b2_def)
      have moved: "(if len > 0 \<and> rv > 0 then sslBuffer_put ?b 0 ?src else Inr ?b) = Inr b2"
        using b' by (simp add: b2_def)
      have rv: "unat rv \<le> unat (sb_len ?b)"
        using io q Inr length_sslBuffer_contents [OF inv] by (metis (no_types, lifting))
      show ?thesis
      proof (rule that [where r = "Inr rv" and b = "b2\<lparr>sb_len := len\<rparr>" and w = w])
        show "ssl_SendSavedWriteData env ss = (Inr rv, ss\<lparr>ds_pendingBuf := b2\<lparr>sb_len := len\<rparr>, ds_world := w,
             ds_datagrams := ds_datagrams ss @ (if sb_len ?b = 0 then [] else [sslBuffer_contents ?b])\<rparr>)"
          unfolding ssl_SendSavedWriteData_def Let_def q Inr prod.case sum.case if_P [OF False] len_def [symmetric] moved
          using False by simp
      qed (use b2 len rv in \<open>simp_all add: sslBuffer_inv_shorter\<close>)
    qed
  qed
qed

lemma dtls_SendSavedWriteData_ok:
  assumes ok: "tx_ok env ss" and small: "unat (sb_len (ds_pendingBuf ss)) \<le> unat (ds_mtu ss)"
  obtains r ss' where "dtls_SendSavedWriteData env ss = Some (r, ss')" "sends_only ss ss'" "tx_ok env ss'"
    "ds_sentRecords ss' = ds_sentRecords ss" "ds_dtlsSentHandshake ss' = ds_dtlsSentHandshake ss"
    "ds_datagrams ss' = ds_datagrams ss @ (if sb_len (ds_pendingBuf ss) = 0 then []
                                           else [sslBuffer_contents (ds_pendingBuf ss)])"
    "r = Inr () \<Longrightarrow> sb_len (ds_pendingBuf ss') = 0"
    "sb_len (ds_pendingBuf ss') \<le> sb_len (ds_pendingBuf ss)" "ds_maxMessageSent ss \<le> ds_maxMessageSent ss'"
proof -
  have inv: "sslBuffer_inv (ds_pendingBuf ss)"
    and io: "\<forall>d w n w'. en_DefSend env d w = (Inr n, w') \<longrightarrow> unat n \<le> length d" using ok by (simp_all add: tx_ok_def)
  obtain r b w where s: "ssl_SendSavedWriteData env ss =
      (r, ss\<lparr>ds_pendingBuf := b, ds_world := w,
             ds_datagrams := ds_datagrams ss @ (if sb_len (ds_pendingBuf ss) = 0 then []
                                                else [sslBuffer_contents (ds_pendingBuf ss)])\<rparr>)"
    "sslBuffer_inv b" "sb_len b \<le> sb_len (ds_pendingBuf ss)"
    "\<And>n. r = Inr n \<Longrightarrow> unat n \<le> unat (sb_len (ds_pendingBuf ss))"
    by (rule ssl_SendSavedWriteData_ok [OF inv io]) blast
  let ?ss1 = "ss\<lparr>ds_pendingBuf := b, ds_world := w,
             ds_datagrams := ds_datagrams ss @ (if sb_len (ds_pendingBuf ss) = 0 then []
                                                else [sslBuffer_contents (ds_pendingBuf ss)])\<rparr>"
  consider (err) e where "r = Inl e" | (left) n where "r = Inr n" "sb_len b > 0"
    | (new) n where "r = Inr n" "sb_len b = 0" "n > ucast (ds_maxMessageSent ss)"
    | (same) n where "r = Inr n" "sb_len b = 0" "\<not> n > ucast (ds_maxMessageSent ss)"
    by (cases r; cases "sb_len b = 0") (auto simp: word_neq_0_conv [symmetric])
  then show ?thesis
  proof cases
    case err
    show ?thesis
      by (rule that [of "Inl e" ?ss1]) (use err s(1-3) ok in \<open>simp_all add: dtls_SendSavedWriteData_def tx_ok_def sends_only_def\<close>)
  next
    case left
    show ?thesis
      by (rule that [of "Inl (ssl_MapLowLevelError NO_ERROR_SET SSL_ERROR_SOCKET_WRITE_FAILURE)" ?ss1])
        (use left s(1-3) ok in \<open>simp_all add: dtls_SendSavedWriteData_def tx_ok_def sends_only_def\<close>)
  next
    case new
    have "unat n < 65536" using s(4) [OF new(1)] small ok by (simp add: tx_ok_def)
    then have "unat (ucast n :: u16) = unat n" by (simp add: unsigned_ucast_eq take_bit_nat_eq_self)
    then have up: "ds_maxMessageSent ss \<le> ucast n"
      using new(3) by (simp add: word_le_nat_alt word_less_nat_alt unat_ucast_le)
    show ?thesis
      by (rule that [of "Inr ()" "?ss1\<lparr>ds_maxMessageSent := ucast n\<rparr>"])
        (use new s(1-3) ok up in \<open>simp_all add: dtls_SendSavedWriteData_def tx_ok_def sends_only_def\<close>)
  next
    case same
    show ?thesis
      by (rule that [of "Inr ()" ?ss1])
        (use same s(1-3) ok in \<open>simp_all add: dtls_SendSavedWriteData_def tx_ok_def sends_only_def\<close>)
  qed
qed

end
