(* ===== verification/Dtls_Flight.thy ===== *)
theory Dtls_Flight
  imports Dtls_Socket
begin

text \<open>
  The sending half of the DTLS handshake of \<^verbatim>\<open>lib/ssl/dtlscon.c\<close>: a handshake message is
  built in the send buffer, queued whole, cut into fragments that fit the path MTU, written into
  records and flushed as datagrams; the retransmission timer sends the flight again, of which only the
  bytes no acknowledgement of \<^verbatim>\<open>lib/ssl/dtls13con.c\<close> covers. The lemmas follow one turn of the
  fragmenting loop, one message and one flight; the properties state what a transmission sends, when
  it ends, and what happens to the MTU estimate and to messages larger than the send buffer.
\<close>

section \<open>Acknowledged ranges\<close>

definition dtls_CombineSequenceNumber :: "u16 \<Rightarrow> u64 \<Rightarrow> u64" where
  "dtls_CombineSequenceNumber epoch seqNum = push_bit 48 (ucast epoch) OR seqNum"

abbreviation sizeof_DTLSHandshakeRecordEntry :: nat where
  "sizeof_DTLSHandshakeRecordEntry \<equiv> 48"

text \<open>The list is the argument and, with the new entry at its end, the result.\<close>

definition dtls13_RememberFragment ::
    "nspr \<Rightarrow> 'w dtls_socket \<Rightarrow> DTLSHandshakeRecordEntry list \<Rightarrow> u32 \<Rightarrow> u32 \<Rightarrow> u32 \<Rightarrow> u16 \<Rightarrow> u64 \<Rightarrow>
     DTLSHandshakeRecordEntry list result" where
  "dtls13_RememberFragment h ss entries sequence offset len epoch seqNum =
     (if \<not> tls13_MaybeTls13 ss then Inr entries
      else res_bind (PORT_ZAlloc h sizeof_DTLSHandshakeRecordEntry) (\<lambda>_.
        Inr (entries @ [\<lparr>re_messageSeq = ucast sequence, re_offset = offset, re_length = len,
                         re_record = dtls_CombineSequenceNumber epoch seqNum,
                         re_acked = False\<rparr>])))"

fun dtls_IsEmptyMessageAcknowledged :: "DTLSHandshakeRecordEntry list \<Rightarrow> u16 \<Rightarrow> bool" where
  "dtls_IsEmptyMessageAcknowledged [] msgSeq = False"
| "dtls_IsEmptyMessageAcknowledged (entry # entries) msgSeq =
     (if \<not> re_acked entry \<or> msgSeq \<noteq> re_messageSeq entry
      then dtls_IsEmptyMessageAcknowledged entries msgSeq
      else if re_length entry = 0 then True
      else dtls_IsEmptyMessageAcknowledged entries msgSeq)"

text \<open>\<open>None\<close> is the result \<^verbatim>\<open>PR_FALSE\<close>: the bound does not move.\<close>

definition dtls_MoveUnackedStartForward :: "DTLSHandshakeRecordEntry \<Rightarrow> u32 \<Rightarrow> u32 option" where
  "dtls_MoveUnackedStartForward entry start =
     (if start < re_offset entry then None
      else if start \<ge> re_offset entry + re_length entry then None
      else Some (re_offset entry + re_length entry))"

definition dtls_MoveUnackedEndBackward :: "DTLSHandshakeRecordEntry \<Rightarrow> u32 \<Rightarrow> u32 option" where
  "dtls_MoveUnackedEndBackward entry end =
     (if end > re_offset entry + re_length entry then None
      else if end \<le> re_offset entry then None
      else Some (re_offset entry))"

text \<open>One pass over the list, up to the first entry that moves a bound.\<close>

fun dtls_UnackedPass ::
    "DTLSHandshakeRecordEntry list \<Rightarrow> u16 \<Rightarrow> u32 \<Rightarrow> u32 \<Rightarrow> (u32 \<times> u32) option" where
  "dtls_UnackedPass [] msgSeq start end = None"
| "dtls_UnackedPass (entry # entries) msgSeq start end =
     (if \<not> re_acked entry \<or> msgSeq \<noteq> re_messageSeq entry
      then dtls_UnackedPass entries msgSeq start end
      else case dtls_MoveUnackedStartForward entry start of
        Some start' \<Rightarrow> Some (start', end)
      | None \<Rightarrow>
          (case dtls_MoveUnackedEndBackward entry end of
             Some end' \<Rightarrow> Some (start, end')
           | None \<Rightarrow> dtls_UnackedPass entries msgSeq start end))"

lemma dtls_UnackedPass_moves:
  "dtls_UnackedPass entries msgSeq start end = Some (start', end') \<Longrightarrow>
     start < start' \<and> end' = end \<or> start' = start \<and> end' < end"
  by (induction entries msgSeq start "end" rule: dtls_UnackedPass.induct)
     (auto simp: dtls_MoveUnackedStartForward_def dtls_MoveUnackedEndBackward_def not_le not_less
       split: if_splits option.splits)

text \<open>
  The loop of \<^verbatim>\<open>dtls_NextUnackedRange\<close>. A pass that moves a bound brings the bounds closer,
  so the loop ends whatever the entries hold.
\<close>

function dtls_UnackedLoop ::
    "DTLSHandshakeRecordEntry list \<Rightarrow> u16 \<Rightarrow> u32 \<Rightarrow> u32 \<Rightarrow> (u32 \<times> u32) option" where
  "dtls_UnackedLoop entries msgSeq start end =
     (case dtls_UnackedPass entries msgSeq start end of
        None \<Rightarrow> Some (start, end)
      | Some (start', end') \<Rightarrow>
          if start' \<ge> end' then None else dtls_UnackedLoop entries msgSeq start' end')"
  by pat_completeness auto

termination
  by (relation "measure (\<lambda>(_, _, start, end). unat end - unat start)")
     (auto dest!: dtls_UnackedPass_moves simp: word_less_nat_alt word_le_nat_alt)

definition dtls_NextUnackedRange :: "'w dtls_socket \<Rightarrow> u16 \<Rightarrow> u32 \<Rightarrow> u32 \<Rightarrow> (u32 \<times> u32) option" where
  "dtls_NextUnackedRange ss msgSeq offset len =
     (if \<not> tls13_MaybeTls13 ss then Some (offset, len)
      else if len = 0
      then (if dtls_IsEmptyMessageAcknowledged (ds_dtlsSentHandshake ss) msgSeq
            then None else Some (offset, len))
      else dtls_UnackedLoop (ds_dtlsSentHandshake ss) msgSeq offset len)"

section \<open>Timers and the path MTU\<close>

definition COMMON_MTU_VALUES :: "u16 list" where
  "COMMON_MTU_VALUES = [1500 - 28, 1280 - 28, 576 - 28, 256 - 28]"

definition dtls_SetMTU :: "'w dtls_socket \<Rightarrow> u16 \<Rightarrow> 'w dtls_socket" where
  "dtls_SetMTU ss advertised =
     (if advertised = 0 then ss\<lparr>ds_mtu := COMMON_MTU_VALUES ! 0\<rparr>
      else case find (\<lambda>v. v \<le> advertised) COMMON_MTU_VALUES of
        Some v \<Rightarrow> ss\<lparr>ds_mtu := v\<rparr>
      | None \<Rightarrow> ss\<lparr>ds_mtu := last COMMON_MTU_VALUES\<rparr>)"

abbreviation DTLS_RETRANSMIT_INITIAL_MS :: u32 where
  "DTLS_RETRANSMIT_INITIAL_MS \<equiv> 50"

abbreviation DTLS_RETRANSMIT_MAX_MS :: u32 where
  "DTLS_RETRANSMIT_MAX_MS \<equiv> 10000"

abbreviation DTLS_RETRANSMIT_FINISHED_MS :: u32 where
  "DTLS_RETRANSMIT_FINISHED_MS \<equiv> 30000"

text \<open>
  The timer operations change one timer: each takes that timer and gives it back. Starting and
  restarting a timer never fail.
\<close>

definition dtls_StartTimer :: "u32 \<Rightarrow> u32 \<Rightarrow> DTLSTimerCb \<Rightarrow> dtlsTimer \<Rightarrow> dtlsTimer" where
  "dtls_StartTimer now time cb timer =
     timer\<lparr>tm_started := now, tm_timeout := time, tm_cb := Some cb\<rparr>"

definition dtls_RestartTimer :: "u32 \<Rightarrow> dtlsTimer \<Rightarrow> dtlsTimer" where
  "dtls_RestartTimer now timer = timer\<lparr>tm_started := now\<rparr>"

definition dtls_TimerActive :: "dtlsTimer \<Rightarrow> bool" where
  "dtls_TimerActive timer \<longleftrightarrow> tm_cb timer \<noteq> None"

definition dtls_CancelTimer :: "dtlsTimer \<Rightarrow> dtlsTimer" where
  "dtls_CancelTimer timer = timer\<lparr>tm_cb := None\<rparr>"

definition dtls_CancelAllTimers :: "'w dtls_socket \<Rightarrow> 'w dtls_socket" where
  "dtls_CancelAllTimers ss =
     ss\<lparr>ds_rtTimer := dtls_CancelTimer (ds_rtTimer ss),
        ds_ackTimer := dtls_CancelTimer (ds_ackTimer ss),
        ds_hdTimer := dtls_CancelTimer (ds_hdTimer ss)\<rparr>"

definition dtls_StartRetransmitTimer :: "'w dtls_env \<Rightarrow> 'w dtls_socket \<Rightarrow> 'w dtls_socket" where
  "dtls_StartRetransmitTimer env ss =
     (let timer = ds_rtTimer ss;
          now = en_IntervalNow env (ds_world ss);
          timeout = DTLS_RETRANSMIT_INITIAL_MS
      in if dtls_TimerActive timer
         then ss\<lparr>ds_rtTimer := (dtls_RestartTimer now timer)\<lparr>tm_timeout := timeout\<rparr>, ds_rtRetries := 0\<rparr>
         else ss\<lparr>ds_rtTimer := dtls_StartTimer now timeout dtls_RetransmitTimerExpiredCb timer,
                 ds_rtRetries := 0\<rparr>)"

definition dtls_StartHolddownTimer :: "'w dtls_env \<Rightarrow> 'w dtls_socket \<Rightarrow> 'w dtls_socket" where
  "dtls_StartHolddownTimer env ss =
     ss\<lparr>ds_hdTimer := dtls_StartTimer (en_IntervalNow env (ds_world ss)) DTLS_RETRANSMIT_FINISHED_MS
          dtls_FinishedTimerCb (ds_hdTimer ss)\<rparr>"

section \<open>The flight\<close>

abbreviation DTLS_MAX_MTU :: u32 where
  "DTLS_MAX_MTU \<equiv> 1500"

abbreviation DTLS_HS_HDR_LEN :: u32 where
  "DTLS_HS_HDR_LEN \<equiv> 12"

abbreviation DTLS_MAX_EXPANSION :: u32 where
  "DTLS_MAX_EXPANSION \<equiv> 13 + 16 + 16 + 32"

abbreviation DTLS_MIN_FRAGMENT :: u32 where
  "DTLS_MIN_FRAGMENT \<equiv> DTLS_HS_HDR_LEN + 1 + DTLS_MAX_EXPANSION"

definition dtls_SendFragment ::
    "'w dtls_env \<Rightarrow> DTLSQueuedMessage \<Rightarrow> byte list \<Rightarrow> 'w dtls_socket \<Rightarrow>
     (unit result \<times> 'w dtls_socket) option" where
  "dtls_SendFragment env msg data ss =
     run_bind (ssl3_SendRecord env (Some (qm_cwSpec msg)) (qm_type msg) data True ss) (\<lambda>sent ss.
       if sent \<noteq> of_nat (length data) then Some (Inl SEC_ERROR_LIBRARY_FAILURE, ss)
       else if ucast (ds_mtu ss) < sb_len (ds_pendingBuf ss) + DTLS_MIN_FRAGMENT
       then dtls_SendSavedWriteData env ss
       else Some (Inr (), ss))"

text \<open>The length of the next fragment: what is left, cut to the record size limit and to the MTU.\<close>

definition dtls_FragmentLen :: "'w dtls_socket \<Rightarrow> DTLSQueuedMessage \<Rightarrow> u32 \<Rightarrow> u32 \<Rightarrow> u32 \<Rightarrow> u32" where
  "dtls_FragmentLen ss msg contentLen fragmentOffset end =
     (let fragmentLen = min end contentLen - fragmentOffset;
          fragmentLen = min fragmentLen
            (ucast (cs_recordSizeLimit (ds_specs ss (qm_cwSpec msg))) - DTLS_HS_HDR_LEN)
      in min fragmentLen
           (ucast (ds_mtu ss) - sb_len (ds_pendingBuf ss) - DTLS_MAX_EXPANSION - DTLS_HS_HDR_LEN))"

text \<open>
  The bytes of a fragment: the message as it is when nothing was cut off, otherwise type, length and
  sequence number of the message, offset and length of the fragment, and its bytes, put together in a
  local array (whose initial bytes never reach the record).
\<close>

definition dtls_BuildFragment ::
    "nspr \<Rightarrow> DTLSQueuedMessage \<Rightarrow> u32 \<Rightarrow> u32 \<Rightarrow> u32 \<Rightarrow> byte list result" where
  "dtls_BuildFragment h msg contentLen fragmentOffset fragmentLen =
     (if fragmentLen = contentLen
      then mem_read (qm_data msg) 0 (unat (fragmentLen + DTLS_HS_HDR_LEN))
      else
        res_bind (sslBuffer_Append h (SSL_BUFFER_FIXED (replicate 1500 0) DTLS_MAX_MTU)
                    (qm_data msg) 6) (\<lambda>tmp.
        res_bind (sslBuffer_AppendNumber h tmp (ucast fragmentOffset) 3) (\<lambda>tmp.
        res_bind (sslBuffer_AppendNumber h tmp (ucast fragmentLen) 3) (\<lambda>tmp.
        res_bind (mem_read (qm_data msg) (unat (DTLS_HS_HDR_LEN + fragmentOffset)) (unat fragmentLen))
          (\<lambda>bytes. res_bind (sslBuffer_Append h tmp bytes fragmentLen) (\<lambda>tmp.
        mem_read (the (sb_buf tmp)) 0 (unat (fragmentLen + DTLS_HS_HDR_LEN))))))))"

text \<open>
  One turn of the loop of \<^verbatim>\<open>dtls_FragmentHandshake\<close>: \<open>None\<close> in the result is the
  \<^verbatim>\<open>break\<close> of a message that is all acknowledged, otherwise it is the next offset.
\<close>

definition dtls_FragmentHandshake_turn ::
    "'w dtls_env \<Rightarrow> DTLSQueuedMessage \<Rightarrow> u16 \<Rightarrow> u32 \<Rightarrow> u32 \<Rightarrow> 'w dtls_socket \<Rightarrow>
     (u32 option result \<times> 'w dtls_socket) option" where
  "dtls_FragmentHandshake_turn env msg msgSeq contentLen fragmentOffset ss =
     (case dtls_NextUnackedRange ss msgSeq fragmentOffset contentLen of
        None \<Rightarrow> Some (Inr None, ss)
      | Some (fragmentOffset, end) \<Rightarrow>
          let fragmentLen = dtls_FragmentLen ss msg contentLen fragmentOffset end in
          if fragmentLen \<ge> DTLS_MAX_MTU - DTLS_HS_HDR_LEN
          then Some (Inl SEC_ERROR_LIBRARY_FAILURE, ss)
          else case dtls_BuildFragment (en_nspr env) msg contentLen fragmentOffset fragmentLen of
            Inl e \<Rightarrow> Some (Inl e, ss)
          | Inr fragment \<Rightarrow>
              let spec = ds_specs ss (qm_cwSpec msg) in
              case dtls13_RememberFragment (en_nspr env) ss (ds_dtlsSentHandshake ss) (ucast msgSeq)
                     fragmentOffset fragmentLen (cs_epoch spec) (cs_nextSeqNum spec) of
                Inl e \<Rightarrow> Some (Inl e, ss)
              | Inr entries \<Rightarrow>
                  run_bind (dtls_SendFragment env msg fragment (ss\<lparr>ds_dtlsSentHandshake := entries\<rparr>))
                    (\<lambda>_ ss. Some (Inr (Some (fragmentOffset + fragmentLen)), ss)))"

partial_function (option) dtls_FragmentHandshake_loop ::
    "'w dtls_env \<Rightarrow> DTLSQueuedMessage \<Rightarrow> u16 \<Rightarrow> u32 \<Rightarrow> bool \<Rightarrow> u32 \<Rightarrow> 'w dtls_socket \<Rightarrow>
     (bool result \<times> 'w dtls_socket) option" where
  "dtls_FragmentHandshake_loop env msg msgSeq contentLen fragmentWritten fragmentOffset ss =
     (case dtls_FragmentHandshake_turn env msg msgSeq contentLen fragmentOffset ss of
        None \<Rightarrow> None
      | Some (Inl e, ss) \<Rightarrow> Some (Inl e, ss)
      | Some (Inr None, ss) \<Rightarrow> Some (Inr fragmentWritten, ss)
      | Some (Inr (Some fragmentOffset), ss) \<Rightarrow>
          if fragmentOffset < contentLen
          then dtls_FragmentHandshake_loop env msg msgSeq contentLen True fragmentOffset ss
          else Some (Inr True, ss))"

declare dtls_FragmentHandshake_loop.simps [code]

text \<open>The result says whether anything was written; a message of which nothing was is dropped.\<close>

definition dtls_FragmentHandshake ::
    "'w dtls_env \<Rightarrow> DTLSQueuedMessage \<Rightarrow> 'w dtls_socket \<Rightarrow> (bool result \<times> 'w dtls_socket) option" where
  "dtls_FragmentHandshake env msg ss =
     (let contentLen = ucast (qm_len msg) - DTLS_HS_HDR_LEN in
      case mem_read (qm_data msg) 4 2 of
        Inl e \<Rightarrow> Some (Inl e, ss)
      | Inr bs \<Rightarrow>
          let msgSeq = push_bit 8 (ucast (bs ! 0)) OR ucast (bs ! 1) in
          dtls_FragmentHandshake_loop env msg msgSeq contentLen False 0 ss)"

text \<open>\<open>kept\<close> are the messages already passed that stay in the flight.\<close>

fun dtls_TransmitMessages ::
    "'w dtls_env \<Rightarrow> DTLSQueuedMessage list \<Rightarrow> DTLSQueuedMessage list \<Rightarrow> 'w dtls_socket \<Rightarrow>
     (unit result \<times> 'w dtls_socket) option" where
  "dtls_TransmitMessages env kept [] ss = Some (Inr (), ss)"
| "dtls_TransmitMessages env kept (msg # msgs) ss =
     run_bind (if qm_type msg = ssl_ct_handshake then dtls_FragmentHandshake env msg ss
               else run_bind (Some (mem_read (qm_data msg) 0 (unat (qm_len msg)), ss)) (\<lambda>data ss.
                    run_bind (dtls_SendFragment env msg data ss) (\<lambda>_ ss. Some (Inr True, ss))))
       (\<lambda>fragmentWritten ss.
          let kept = (if fragmentWritten then kept @ [msg] else kept) in
          dtls_TransmitMessages env kept msgs (ss\<lparr>ds_lastMessageFlight := kept @ msgs\<rparr>))"

definition dtls_TransmitMessageFlight ::
    "'w dtls_env \<Rightarrow> 'w dtls_socket \<Rightarrow> (unit result \<times> 'w dtls_socket) option" where
  "dtls_TransmitMessageFlight env ss =
     run_bind (dtls_TransmitMessages env [] (ds_lastMessageFlight ss) ss)
       (\<lambda>_ ss. dtls_SendSavedWriteData env ss)"

section \<open>Queueing and retransmission\<close>

abbreviation sizeof_DTLSQueuedMessage :: nat where
  "sizeof_DTLSQueuedMessage \<equiv> 48"

text \<open>The length is stored in 16 bits. Every failure is reported as lack of memory by the caller.\<close>

definition dtls_AllocQueuedMessage ::
    "nspr \<Rightarrow> nat \<Rightarrow> byte \<Rightarrow> byte list \<Rightarrow> u32 \<Rightarrow> DTLSQueuedMessage result" where
  "dtls_AllocQueuedMessage h cwSpec ct data len =
     res_bind (PORT_ZAlloc h sizeof_DTLSQueuedMessage) (\<lambda>_.
     res_bind (PORT_Alloc h (unat len)) (\<lambda>block.
     res_bind (mem_read data 0 (unat len)) (\<lambda>src.
     res_bind (mem_write block 0 src) (\<lambda>block.
     Inr \<lparr>qm_cwSpec = cwSpec, qm_type = ct, qm_data = block, qm_len = ucast len\<rparr>))))"

definition dtls_QueueMessage ::
    "'w dtls_env \<Rightarrow> byte \<Rightarrow> byte list \<Rightarrow> u32 \<Rightarrow> 'w dtls_socket \<Rightarrow> unit result \<times> 'w dtls_socket" where
  "dtls_QueueMessage env ct pIn nIn ss =
     (case dtls_AllocQueuedMessage (en_nspr env) (ds_cwSpec ss) ct pIn nIn of
        Inl e \<Rightarrow> (Inl (if e = UNDEFINED_BEHAVIOUR then e else SEC_ERROR_NO_MEMORY), ss)
      | Inr msg \<Rightarrow> (Inr (), ss\<lparr>ds_lastMessageFlight := ds_lastMessageFlight ss @ [msg]\<rparr>))"

definition dtls_StageHandshakeMessage ::
    "'w dtls_env \<Rightarrow> 'w dtls_socket \<Rightarrow> unit result \<times> 'w dtls_socket" where
  "dtls_StageHandshakeMessage env ss =
     (case sb_buf (ds_sendBuf ss) of
        None \<Rightarrow> (Inr (), ss)
      | Some buf \<Rightarrow>
          if sb_len (ds_sendBuf ss) = 0 then (Inr (), ss)
          else case dtls_QueueMessage env ssl_ct_handshake buf (sb_len (ds_sendBuf ss)) ss of
            (r, ss) \<Rightarrow> (r, ss\<lparr>ds_sendBuf := (ds_sendBuf ss)\<lparr>sb_len := 0\<rparr>\<rparr>))"

definition dtls_FlushHandshakeMessages ::
    "'w dtls_env \<Rightarrow> bool \<Rightarrow> bool \<Rightarrow> 'w dtls_socket \<Rightarrow> (unit result \<times> 'w dtls_socket) option" where
  "dtls_FlushHandshakeMessages env forceIntoBuffer noRetransmit ss =
     run_bind (Some (dtls_StageHandshakeMessage env ss)) (\<lambda>_ ss.
       if forceIntoBuffer then Some (Inr (), ss)
       else run_bind (dtls_TransmitMessageFlight env ss) (\<lambda>_ ss.
         Some (Inr (), if noRetransmit then ss else dtls_StartRetransmitTimer env ss)))"

text \<open>The callback of the retransmission timer; a failed transmission leaves the timer cancelled.\<close>

definition RetransmitTimerExpired :: "'w dtls_env \<Rightarrow> 'w dtls_socket \<Rightarrow> 'w dtls_socket option" where
  "RetransmitTimerExpired env ss =
     (let ss = ss\<lparr>ds_rtRetries := ds_rtRetries ss + 1\<rparr>;
          ss = (if ds_rtRetries ss mod 3 = 0 then dtls_SetMTU ss (ds_maxMessageSent ss - 1) else ss)
      in map_option
           (\<lambda>(r, ss).
              case r of
                Inl e \<Rightarrow> ss
              | Inr _ \<Rightarrow>
                  let timer = ds_rtTimer ss;
                      timeout = min (tm_timeout timer * 2) DTLS_RETRANSMIT_MAX_MS
                  in ss\<lparr>ds_rtTimer := timer\<lparr>tm_timeout := timeout,
                          tm_started := en_IntervalNow env (ds_world ss),
                          tm_cb := Some dtls_RetransmitTimerExpiredCb\<rparr>\<rparr>)
           (dtls_TransmitMessageFlight env ss))"

text \<open>
  The comparison with a quarter of the time-out is between clock ticks and milliseconds, as in the
  source.
\<close>

definition dtls_RetransmitDetected ::
    "'w dtls_env \<Rightarrow> 'w dtls_socket \<Rightarrow> (unit result \<times> 'w dtls_socket) option" where
  "dtls_RetransmitDetected env ss =
     (if tm_cb (ds_rtTimer ss) = Some dtls_RetransmitTimerExpiredCb then
        (if en_IntervalNow env (ds_world ss) - tm_started (ds_rtTimer ss) >
            tm_timeout (ds_rtTimer ss) div 4
         then map_option (Pair (Inr ()))
                (RetransmitTimerExpired env (ss\<lparr>ds_rtTimer := dtls_CancelTimer (ds_rtTimer ss)\<rparr>))
         else Some (Inr (), ss))
      else if tm_cb (ds_hdTimer ss) = Some dtls_FinishedTimerCb then
        run_bind (dtls_TransmitMessageFlight env
                    (ss\<lparr>ds_hdTimer := dtls_CancelTimer (ds_hdTimer ss)\<rparr>))
          (\<lambda>_ ss. Some (Inr (), dtls_StartHolddownTimer env ss))
      else Some (Inr (), ss))"

definition dtls_FreeHandshakeMessages :: "'w dtls_socket \<Rightarrow> 'w dtls_socket" where
  "dtls_FreeHandshakeMessages ss = ss\<lparr>ds_lastMessageFlight := []\<rparr>"

definition dtls_RehandshakeCleanup :: "'w dtls_socket \<Rightarrow> 'w dtls_socket" where
  "dtls_RehandshakeCleanup ss =
     (if ds_helloRetry ss then ss
      else (dtls_FreeHandshakeMessages (dtls_CancelAllTimers ss))
             \<lparr>ds_sendMessageSeq := 0, ds_recvMessageSeq := 0\<rparr>)"

definition dtls_ReceivedFirstMessageInFlight :: "'w dtls_socket \<Rightarrow> 'w dtls_socket" where
  "dtls_ReceivedFirstMessageInFlight ss =
     (if \<not> IS_DTLS ss then ss
      else
        let ss = (if ds_ws ss \<noteq> idle_handshake \<or> ss_version ss \<ge> SSL_LIBRARY_VERSION_TLS_1_3
                  then
                    let ss = dtls_FreeHandshakeMessages ss;
                        ss = ss\<lparr>ds_rtTimer := dtls_CancelTimer (ds_rtTimer ss)\<rparr>
                    in (if ds_rtRetries ss = 0
                        then ss\<lparr>ds_rtTimer := (ds_rtTimer ss)\<lparr>tm_timeout := DTLS_RETRANSMIT_INITIAL_MS\<rparr>\<rparr>
                        else ss)
                  else ss)
        in ss\<lparr>ds_dtlsRcvdHandshake := []\<rparr>)"

section \<open>Building handshake messages\<close>

abbreviation MAX_SEND_BUF_LENGTH :: u32 where
  "MAX_SEND_BUF_LENGTH \<equiv> 32000"

abbreviation MIN_SEND_BUF_LENGTH :: u32 where
  "MIN_SEND_BUF_LENGTH \<equiv> 4000"

text \<open>
  Over a stream, the content of \<^verbatim>\<open>sendBuf\<close> is sent as a record of its own.
\<close>

definition ssl3_FlushHandshakeMessages ::
    "'w dtls_env \<Rightarrow> bool \<Rightarrow> 'w dtls_socket \<Rightarrow> (unit result \<times> 'w dtls_socket) option" where
  "ssl3_FlushHandshakeMessages env forceIntoBuffer ss =
     (let b = ds_sendBuf ss in
      if sb_buf b = None \<or> sb_len b = 0 then Some (Inr (), ss)
      else map_option
        (\<lambda>(r, ss).
           ((case r of
               Inl e \<Rightarrow> Inl (if e = PR_WOULD_BLOCK_ERROR then SEC_ERROR_LIBRARY_FAILURE else e)
             | Inr count \<Rightarrow> if count < sb_len b then Inl SEC_ERROR_LIBRARY_FAILURE else Inr ()),
            ss\<lparr>ds_sendBuf := (ds_sendBuf ss)\<lparr>sb_len := 0\<rparr>\<rparr>))
        (ssl3_SendRecord env None ssl_ct_handshake (sslBuffer_contents b) forceIntoBuffer ss))"

definition ssl3_FlushHandshake ::
    "'w dtls_env \<Rightarrow> bool \<Rightarrow> 'w dtls_socket \<Rightarrow> (unit result \<times> 'w dtls_socket) option" where
  "ssl3_FlushHandshake env forceIntoBuffer ss =
     (if IS_DTLS ss then dtls_FlushHandshakeMessages env forceIntoBuffer False ss
      else ssl3_FlushHandshakeMessages env forceIntoBuffer ss)"

text \<open>
  The loop that fills \<^verbatim>\<open>sendBuf\<close>: as long as the rest does not fit, the buffer is filled to its
  end and flushed.
\<close>

partial_function (option) ssl3_AppendHandshake_loop ::
    "'w dtls_env \<Rightarrow> byte list \<Rightarrow> u32 \<Rightarrow> u32 \<Rightarrow> 'w dtls_socket \<Rightarrow> (unit result \<times> 'w dtls_socket) option" where
  "ssl3_AppendHandshake_loop env src bytes room ss =
     (let b = ds_sendBuf ss in
      if bytes > room then
        (case res_bind (mem_read src 0 (unat room)) (sslBuffer_put b (unat (sb_len b))) of
           Inl e \<Rightarrow> Some (Inl e, ss)
         | Inr b \<Rightarrow>
             (case ssl3_FlushHandshake env True (ss\<lparr>ds_sendBuf := b\<lparr>sb_len := sb_len b + room\<rparr>\<rparr>) of
                None \<Rightarrow> None
              | Some (Inl e, ss) \<Rightarrow> Some (Inl e, ss)
              | Some (Inr _, ss) \<Rightarrow>
                  ssl3_AppendHandshake_loop env (drop (unat room) src) (bytes - room)
                    (sb_space (ds_sendBuf ss)) ss))
      else
        (case res_bind (mem_read src 0 (unat bytes)) (sslBuffer_put b (unat (sb_len b))) of
           Inl e \<Rightarrow> Some (Inl e, ss)
         | Inr b \<Rightarrow> Some (Inr (), ss\<lparr>ds_sendBuf := b\<lparr>sb_len := sb_len b + bytes\<rparr>\<rparr>)))"

declare ssl3_AppendHandshake_loop.simps [code]

definition ssl3_AppendHandshakeInternal ::
    "'w dtls_env \<Rightarrow> byte list \<Rightarrow> u32 \<Rightarrow> bool \<Rightarrow> 'w dtls_socket \<Rightarrow> (unit result \<times> 'w dtls_socket) option" where
  "ssl3_AppendHandshakeInternal env src bytes suppressHash ss =
     (let b = ds_sendBuf ss in
      if bytes = 0 then Some (Inr (), ss)
      else
        case (if sb_space b < MAX_SEND_BUF_LENGTH \<and> sb_space b - sb_len b < bytes
              then sslBuffer_Grow (en_nspr env) b
                     (max MIN_SEND_BUF_LENGTH (min MAX_SEND_BUF_LENGTH (sb_len b + bytes)))
              else Inr b) of
          Inl e \<Rightarrow> Some (Inl e, ss)
        | Inr b \<Rightarrow>
            let ss = ss\<lparr>ds_sendBuf := b\<rparr>;
                (r, w) = (if \<not> suppressHash \<and>
                             (\<not> ss_firstHsDone ss \<or> ss_version ss < SSL_LIBRARY_VERSION_TLS_1_3)
                          then en_UpdateHandshakeHashes env (take (unat bytes) src) (ds_world ss)
                          else (Inr (), ds_world ss))
            in run_bind (Some (r, ss\<lparr>ds_world := w\<rparr>)) (\<lambda>_ ss.
                 ssl3_AppendHandshake_loop env src bytes (sb_space b - sb_len b) ss))"

definition ssl3_AppendHandshake ::
    "'w dtls_env \<Rightarrow> byte list \<Rightarrow> u32 \<Rightarrow> 'w dtls_socket \<Rightarrow> (unit result \<times> 'w dtls_socket) option" where
  "ssl3_AppendHandshake env src bytes ss = ssl3_AppendHandshakeInternal env src bytes False ss"

definition ssl3_AppendHandshakeNumberSuppressHash ::
    "'w dtls_env \<Rightarrow> u64 \<Rightarrow> nat \<Rightarrow> bool \<Rightarrow> 'w dtls_socket \<Rightarrow> (unit result \<times> 'w dtls_socket) option" where
  "ssl3_AppendHandshakeNumberSuppressHash env num lenSize suppressHash ss =
     (if lenSize > 8 \<or> (lenSize < 8 \<and> num \<ge> push_bit (8 * lenSize) 1)
      then Some (Inl SEC_ERROR_INVALID_ARGS, ss)
      else ssl3_AppendHandshakeInternal env (ssl_EncodeUintX num lenSize) (of_nat lenSize) suppressHash ss)"

definition ssl3_AppendHandshakeNumber ::
    "'w dtls_env \<Rightarrow> u64 \<Rightarrow> nat \<Rightarrow> 'w dtls_socket \<Rightarrow> (unit result \<times> 'w dtls_socket) option" where
  "ssl3_AppendHandshakeNumber env num lenSize ss =
     ssl3_AppendHandshakeNumberSuppressHash env num lenSize False ss"

definition ssl3_AppendHandshakeVariable ::
    "'w dtls_env \<Rightarrow> byte list \<Rightarrow> u32 \<Rightarrow> nat \<Rightarrow> 'w dtls_socket \<Rightarrow> (unit result \<times> 'w dtls_socket) option" where
  "ssl3_AppendHandshakeVariable env src bytes lenSize ss =
     run_bind (ssl3_AppendHandshakeNumber env (ucast bytes) lenSize ss) (\<lambda>_ ss.
       ssl3_AppendHandshake env src bytes ss)"

text \<open>
  The header of a message. Over DTLS it first queues the message before it, and takes the next
  message sequence number, which is the result.
\<close>

definition ssl3_AppendHandshakeHeaderAndStashSeqNum ::
    "'w dtls_env \<Rightarrow> byte \<Rightarrow> u32 \<Rightarrow> 'w dtls_socket \<Rightarrow> (u16 option result \<times> 'w dtls_socket) option" where
  "ssl3_AppendHandshakeHeaderAndStashSeqNum env t len ss =
     run_bind (Some (if IS_DTLS ss then dtls_StageHandshakeMessage env ss else (Inr (), ss))) (\<lambda>_ ss.
     run_bind (ssl3_AppendHandshakeNumber env (ucast t) 1 ss) (\<lambda>_ ss.
     run_bind (ssl3_AppendHandshakeNumber env (ucast len) 3 ss) (\<lambda>_ ss.
       if \<not> IS_DTLS ss then Some (Inr None, ss)
       else
         let suppressHash = (ss_version ss = SSL_LIBRARY_VERSION_TLS_1_3);
             seq = ds_sendMessageSeq ss
         in
         run_bind (ssl3_AppendHandshakeNumberSuppressHash env (ucast seq) 2 suppressHash ss) (\<lambda>_ ss.
         run_bind (ssl3_AppendHandshakeNumberSuppressHash env 0 3 suppressHash
                     (ss\<lparr>ds_sendMessageSeq := ds_sendMessageSeq ss + 1\<rparr>)) (\<lambda>_ ss.
         run_bind (ssl3_AppendHandshakeNumberSuppressHash env (ucast len) 3 suppressHash ss) (\<lambda>_ ss.
           Some (Inr (Some seq), ss)))))))"

section \<open>Which bytes are acknowledged\<close>

definition acked_bytes :: "DTLSHandshakeRecordEntry list \<Rightarrow> u16 \<Rightarrow> nat set" where
  "acked_bytes entries msgSeq =
     {i. \<exists>e \<in> set entries. re_acked e \<and> re_messageSeq e = msgSeq \<and>
           unat (re_offset e) \<le> i \<and> i < unat (re_offset e) + unat (re_length e)}"

definition entries_ok :: "DTLSHandshakeRecordEntry list \<Rightarrow> bool" where
  "entries_ok entries \<longleftrightarrow> (\<forall>e \<in> set entries. unat (re_offset e) + unat (re_length e) < 2 ^ 32)"

lemma acked_bytes_Nil [simp]: "acked_bytes [] msgSeq = {}"
  by (simp add: acked_bytes_def)

lemma acked_bytes_Cons:
  "acked_bytes (e # es) msgSeq =
     (if re_acked e \<and> re_messageSeq e = msgSeq
      then {unat (re_offset e)..<unat (re_offset e) + unat (re_length e)} else {}) \<union> acked_bytes es msgSeq"
  by (auto simp: acked_bytes_def)

lemma acked_bytes_append [simp]:
  "acked_bytes (es @ es') msgSeq = acked_bytes es msgSeq \<union> acked_bytes es' msgSeq"
  by (auto simp: acked_bytes_def)

lemma entries_ok_append [simp]: "entries_ok (es @ es') \<longleftrightarrow> entries_ok es \<and> entries_ok es'"
  by (auto simp: entries_ok_def)

text \<open>A pass that moves a bound moves it over acknowledged bytes only.\<close>

lemma dtls_UnackedPass_Some:
  assumes "dtls_UnackedPass entries msgSeq start end = Some (start', end')" and "entries_ok entries"
  shows "{unat start..<unat start'} \<subseteq> acked_bytes entries msgSeq \<and>
         {unat end'..<unat end} \<subseteq> acked_bytes entries msgSeq"
  using assms
proof (induction entries msgSeq start "end" rule: dtls_UnackedPass.induct)
  case (1 msgSeq start "end")
  then show ?case by simp
next
  case (2 e es msgSeq start "end")
  have sum: "unat (re_offset e + re_length e) = unat (re_offset e) + unat (re_length e)"
    using 2(4) by (simp add: entries_ok_def unat_plus_no_wrap)
  have IH: "dtls_UnackedPass es msgSeq start end = Some (start', end') \<Longrightarrow>
      {unat start..<unat start'} \<subseteq> acked_bytes es msgSeq \<and> {unat end'..<unat end} \<subseteq> acked_bytes es msgSeq"
    if "\<not> (re_acked e \<and> msgSeq = re_messageSeq e) \<or>
        dtls_MoveUnackedStartForward e start = None \<and> dtls_MoveUnackedEndBackward e end = None"
    using 2(1,2) 2(4) that by (fastforce simp: entries_ok_def)
  show ?case
    using 2(3) IH sum
    by (auto simp: acked_bytes_Cons dtls_MoveUnackedStartForward_def dtls_MoveUnackedEndBackward_def
        word_le_nat_alt word_less_nat_alt split: if_splits option.splits)
qed

lemma dtls_UnackedPass_None:
  "dtls_UnackedPass entries msgSeq start end = None \<longleftrightarrow>
     (\<forall>e \<in> set entries. re_acked e \<longrightarrow> re_messageSeq e = msgSeq \<longrightarrow>
        dtls_MoveUnackedStartForward e start = None \<and> dtls_MoveUnackedEndBackward e end = None)"
  by (induction entries msgSeq start "end" rule: dtls_UnackedPass.induct) (auto split: option.splits)

lemma dtls_UnackedPass_stops:
  assumes "dtls_UnackedPass entries msgSeq start end = None" and "entries_ok entries"
  shows "unat start \<notin> acked_bytes entries msgSeq \<and>
         (0 < unat end \<longrightarrow> unat end - 1 \<notin> acked_bytes entries msgSeq)"
proof -
  have "unat (re_offset e + re_length e) = unat (re_offset e) + unat (re_length e)" if "e \<in> set entries" for e
    using assms(2) that by (simp add: entries_ok_def unat_plus_no_wrap)
  then show ?thesis
    using assms(1)
    by (fastforce simp: dtls_UnackedPass_None acked_bytes_def dtls_MoveUnackedStartForward_def
        dtls_MoveUnackedEndBackward_def word_le_nat_alt word_less_nat_alt split: if_splits)
qed

text \<open>
  The range found starts at the first and ends after the last byte that no acknowledgement covers.
\<close>

definition unacked_range :: "nat set \<Rightarrow> nat \<Rightarrow> nat \<Rightarrow> (u32 \<times> u32) option \<Rightarrow> bool" where
  "unacked_range A lo hi r \<longleftrightarrow>
     (case r of
        None \<Rightarrow> {lo..<hi} \<subseteq> A
      | Some (s, e) \<Rightarrow> lo \<le> unat s \<and> unat s < unat e \<and> unat e \<le> hi \<and>
          {lo..<unat s} \<subseteq> A \<and> unat s \<notin> A \<and> unat e - 1 \<notin> A \<and> {unat e..<hi} \<subseteq> A)"

lemma unacked_range_mono:
  assumes "unacked_range A lo' hi' r" and "lo \<le> lo'" "hi' \<le> hi"
    and "{lo..<lo'} \<subseteq> A" "{hi'..<hi} \<subseteq> A"
  shows "unacked_range A lo hi r"
proof (cases r)
  case None
  have "i \<in> A" if "lo \<le> i" "i < hi" for i
  proof -
    consider "i < lo'" | "lo' \<le> i" "i < hi'" | "hi' \<le> i" by linarith
    then show ?thesis using assms that by cases (auto simp: unacked_range_def None)
  qed
  then show ?thesis by (auto simp: unacked_range_def None)
next
  case (Some se)
  obtain s e where "se = (s, e)" by fastforce
  moreover have "i \<in> A" if "lo \<le> i" "i < unat s" "{lo'..<unat s} \<subseteq> A" for i
    using assms(4) that by (cases "i < lo'") auto
  moreover have "i \<in> A" if "unat e \<le> i" "i < hi" "{unat e..<hi'} \<subseteq> A" for i
    using assms(5) that by (cases "i < hi'") auto
  ultimately show ?thesis using assms(1-3) by (auto simp: unacked_range_def Some)
qed

lemma dtls_UnackedLoop_range:
  assumes "start < end" and "entries_ok entries"
  shows "unacked_range (acked_bytes entries msgSeq) (unat start) (unat end)
           (dtls_UnackedLoop entries msgSeq start end)"
  using assms
proof (induction entries msgSeq start "end" rule: dtls_UnackedLoop.induct)
  case (1 entries msgSeq start "end")
  show ?case
  proof (cases "dtls_UnackedPass entries msgSeq start end")
    case None
    then show ?thesis
      using dtls_UnackedPass_stops [OF None] 1(2,3)
      by (simp add: dtls_UnackedLoop.simps [of entries] unacked_range_def word_less_nat_alt)
  next
    case (Some p)
    obtain s e where p: "p = (s, e)" by fastforce
    note S = Some [unfolded p]
    have A: "{unat start..<unat s} \<subseteq> acked_bytes entries msgSeq" "{unat e..<unat end} \<subseteq> acked_bytes entries msgSeq"
      using dtls_UnackedPass_Some [OF S 1(3)] by auto
    have le: "unat start \<le> unat s" "unat e \<le> unat end"
      using dtls_UnackedPass_moves [OF S] by (auto simp: word_less_nat_alt)
    show ?thesis
    proof (cases "s \<ge> e")
      case True
      have "i \<in> acked_bytes entries msgSeq" if "unat start \<le> i" "i < unat end" for i
        using A that True by (cases "i < unat s") (auto simp: word_le_nat_alt)
      then show ?thesis
        using True S by (auto simp: dtls_UnackedLoop.simps [of entries msgSeq start] unacked_range_def)
    next
      case False
      then have "unacked_range (acked_bytes entries msgSeq) (unat s) (unat e)
          (dtls_UnackedLoop entries msgSeq s e)"
        using 1(1) [OF S] 1(3) by simp
      from unacked_range_mono [OF this le A] show ?thesis
        using False S by (simp add: dtls_UnackedLoop.simps [of entries msgSeq start])
    qed
  qed
qed

lemma dtls_NextUnackedRange_range:
  assumes "tls13_MaybeTls13 ss" "offset < len" "entries_ok (ds_dtlsSentHandshake ss)"
  shows "unacked_range (acked_bytes (ds_dtlsSentHandshake ss) msgSeq) (unat offset) (unat len)
           (dtls_NextUnackedRange ss msgSeq offset len)"
  using dtls_UnackedLoop_range [OF assms(2,3)] assms(1,2) by (auto simp: dtls_NextUnackedRange_def)

section \<open>Fragments\<close>

text \<open>
  A fragment with room for its record: it is accepted, nothing beyond the MTU is sent, and afterwards
  there is room for another one.
\<close>

definition tx_room :: "'w dtls_socket \<Rightarrow> bool" where
  "tx_room ss \<longleftrightarrow> unat (sb_len (ds_pendingBuf ss)) + 90 \<le> unat (ds_mtu ss)"

definition grams_fit :: "'w dtls_socket \<Rightarrow> 'w dtls_socket \<Rightarrow> bool" where
  "grams_fit ss ss' \<longleftrightarrow> (\<exists>ds. ds_datagrams ss' = ds_datagrams ss @ ds \<and> (\<forall>d \<in> set ds. length d \<le> unat (ds_mtu ss))) \<and>
     ds_maxMessageSent ss \<le> ds_maxMessageSent ss'"

lemma dtls_SendFragment_ok:
  assumes ok: "tx_ok env ss" and tag: "unat (bc_tag_size (cs_cipherDef (ds_specs ss (qm_cwSpec msg)))) \<le> 16"
    and fits: "length data \<le> unat (cs_recordSizeLimit (ds_specs ss (qm_cwSpec msg)))" and ne: "data \<noteq> []"
    and pend: "unat (sb_len (ds_pendingBuf ss)) + length data + 77 \<le> unat (ds_mtu ss)"
  obtains r ss' where "dtls_SendFragment env msg data ss = Some (r, ss')" "sends_only ss ss'" "tx_ok env ss'"
    "ds_dtlsSentHandshake ss' = ds_dtlsSentHandshake ss" "grams_fit ss ss'"
    "unat (sb_len (ds_pendingBuf ss')) \<le> unat (ds_mtu ss)"
    "r = Inr () \<Longrightarrow> ds_sentRecords ss' = ds_sentRecords ss @ [(qm_cwSpec msg, qm_type msg, data)] \<and> tx_room ss'"
    "ds_sentRecords ss' \<in> {ds_sentRecords ss, ds_sentRecords ss @ [(qm_cwSpec msg, qm_type msg, data)]}"
proof -
  have mtu: "unat (ds_mtu ss) \<le> 1500" "90 \<le> unat (ds_mtu ss)" using ok by (simp_all add: tx_ok_def)
  have "unat (sb_len (ds_pendingBuf ss)) + length data + 77 < 2 ^ 32" using pend mtu by simp
  then obtain r ss1 where S: "ssl3_SendRecord env (Some (qm_cwSpec msg)) (qm_type msg) data True ss = Some (r, ss1)"
    "sends_only ss ss1" "tx_ok env ss1" "ds_datagrams ss1 = ds_datagrams ss"
    "ds_dtlsSentHandshake ss1 = ds_dtlsSentHandshake ss" "ds_maxMessageSent ss1 = ds_maxMessageSent ss"
    "unat (sb_len (ds_pendingBuf ss1)) \<le> unat (sb_len (ds_pendingBuf ss)) + length data + 77"
    "case r of Inl e \<Rightarrow> ds_sentRecords ss1 = ds_sentRecords ss
     | Inr n \<Rightarrow> n = of_nat (length data) \<and> ds_sentRecords ss1 = ds_sentRecords ss @ [(qm_cwSpec msg, qm_type msg, data)]"
    by (rule ssl3_SendRecord_force [OF ok tag fits ne])
  have m1: "ds_mtu ss1 = ds_mtu ss" by (rule sends_onlyD [OF S(2)])
  have p1: "unat (sb_len (ds_pendingBuf ss1)) \<le> unat (ds_mtu ss)" using S(7) pend by simp
  show ?thesis
  proof (cases r)
    case (Inl e)
    show ?thesis
      by (rule that [of "Inl e" ss1])
        (use S Inl p1 in \<open>simp_all add: dtls_SendFragment_def run_bind_def grams_fit_def\<close>)
  next
    case (Inr n)
    have min: "unat (sb_len (ds_pendingBuf ss1) + DTLS_MIN_FRAGMENT) = unat (sb_len (ds_pendingBuf ss1)) + 90"
      using p1 mtu by (simp add: unat_plus_no_wrap)
    show ?thesis
    proof (cases "ucast (ds_mtu ss1) < sb_len (ds_pendingBuf ss1) + DTLS_MIN_FRAGMENT")
      case True
      obtain q ss2 where Q: "dtls_SendSavedWriteData env ss1 = Some (q, ss2)" "sends_only ss1 ss2" "tx_ok env ss2"
        "ds_sentRecords ss2 = ds_sentRecords ss1" "ds_dtlsSentHandshake ss2 = ds_dtlsSentHandshake ss1"
        "ds_datagrams ss2 = ds_datagrams ss1 @ (if sb_len (ds_pendingBuf ss1) = 0 then []
                                           else [sslBuffer_contents (ds_pendingBuf ss1)])"
        "q = Inr () \<Longrightarrow> sb_len (ds_pendingBuf ss2) = 0"
        "sb_len (ds_pendingBuf ss2) \<le> sb_len (ds_pendingBuf ss1)" "ds_maxMessageSent ss1 \<le> ds_maxMessageSent ss2"
        by (rule dtls_SendSavedWriteData_ok [OF S(3) p1 [folded m1]]) blast
      have l: "length (sslBuffer_contents (ds_pendingBuf ss1)) = unat (sb_len (ds_pendingBuf ss1))"
        using length_sslBuffer_contents [of "ds_pendingBuf ss1"] S(3) by (simp add: tx_ok_def)
      have run: "dtls_SendFragment env msg data ss = Some (q, ss2)"
        using S(1,8) Inr True Q(1) by (simp add: dtls_SendFragment_def run_bind_def)
      show ?thesis
      proof (rule that [OF run])
        show "sends_only ss ss2" using S(2) Q(2) by (rule sends_only_trans)
        show "grams_fit ss ss2" using Q(6,9) S(4,6) l p1 by (auto simp: grams_fit_def)
        show "unat (sb_len (ds_pendingBuf ss2)) \<le> unat (ds_mtu ss)" using Q(8) p1 by (simp add: word_le_nat_alt)
        show "ds_sentRecords ss2 = ds_sentRecords ss @ [(qm_cwSpec msg, qm_type msg, data)] \<and> tx_room ss2" if "q = Inr ()"
          using that Q(4,7) S(8) Inr m1 mtu sends_onlyD(1) [OF Q(2)] by (simp add: tx_room_def)
      qed (use Q S Inr in simp_all)
    next
      case False
      have run: "dtls_SendFragment env msg data ss = Some (Inr (), ss1)"
        using S(1,8) Inr False by (simp add: dtls_SendFragment_def run_bind_def)
      show ?thesis
      proof (rule that [OF run])
        show "ds_sentRecords ss1 = ds_sentRecords ss @ [(qm_cwSpec msg, qm_type msg, data)] \<and> tx_room ss1"
          using S(8) Inr False min m1
          by (simp add: tx_room_def word_less_nat_alt unat_ucast_le not_less)
      qed (use S Inr p1 in \<open>simp_all add: grams_fit_def\<close>)
    qed
  qed
qed

definition content_len :: "DTLSQueuedMessage \<Rightarrow> nat" where
  "content_len msg = unat (qm_len msg) - 12"

text \<open>A fragment as it goes on the wire, and a queued handshake message with its own header.\<close>

definition hs_fragment :: "DTLSQueuedMessage \<Rightarrow> nat \<Rightarrow> nat \<Rightarrow> byte list" where
  "hs_fragment msg off l =
     take 6 (qm_data msg) @ be_bytes 3 off @ be_bytes 3 l @ take l (drop (12 + off) (qm_data msg))"

definition message_ok :: "DTLSQueuedMessage \<Rightarrow> bool" where
  "message_ok msg \<longleftrightarrow> length (qm_data msg) = unat (qm_len msg) \<and> 12 \<le> unat (qm_len msg) \<and>
     take 6 (drop 6 (qm_data msg)) = be_bytes 3 0 @ be_bytes 3 (content_len msg)"

lemma content_len_word:
  assumes "message_ok msg"
  shows "unat (ucast (qm_len msg) - DTLS_HS_HDR_LEN :: u32) = content_len msg" and "content_len msg < 65536"
proof -
  have "unat (qm_len msg) < 65536" using unsigned_less [of "qm_len msg", where 'a = nat] by simp
  then show "content_len msg < 65536" by (simp add: content_len_def)
  have "(12 :: u32) \<le> ucast (qm_len msg)"
    using assms by (simp add: message_ok_def word_le_nat_alt unat_ucast_le)
  then show "unat (ucast (qm_len msg) - DTLS_HS_HDR_LEN :: u32) = content_len msg"
    by (simp add: unat_sub content_len_def unat_ucast_le)
qed

lemma hs_fragment_whole: "message_ok msg \<Longrightarrow> hs_fragment msg 0 (content_len msg) = qm_data msg"
proof -
  assume ok: "message_ok msg"
  then have "take 12 (qm_data msg) = take 6 (qm_data msg) @ take 6 (drop 6 (qm_data msg))"
    using take_add [of 6 6 "qm_data msg"] by simp
  then have "take 12 (qm_data msg) = take 6 (qm_data msg) @ be_bytes 3 0 @ be_bytes 3 (content_len msg)"
    using ok by (simp add: message_ok_def)
  moreover have "take (content_len msg) (drop 12 (qm_data msg)) = drop 12 (qm_data msg)"
    using ok by (simp add: message_ok_def content_len_def)
  ultimately show ?thesis
    by (metis (no_types, lifting) append.assoc append_take_drop_id hs_fragment_def add.right_neutral)
qed

lemma length_hs_fragment:
  "message_ok msg \<Longrightarrow> off + l \<le> content_len msg \<Longrightarrow> length (hs_fragment msg off l) = l + 12"
  by (simp add: hs_fragment_def message_ok_def content_len_def)

lemma dtls_BuildFragment_ok:
  assumes msg: "message_ok msg" and cl: "unat contentLen = content_len msg"
    and fits: "unat off + unat l \<le> content_len msg" and small: "unat l < 1488"
  shows "dtls_BuildFragment h msg contentLen off l = Inr (hs_fragment msg (unat off) (unat l))"
proof (cases "l = contentLen")
  case True
  then have "unat off = 0" "unat l = content_len msg" using fits cl by simp_all
  moreover have "unat (l + DTLS_HS_HDR_LEN) = unat l + 12" using small by (simp add: unat_plus_no_wrap)
  ultimately show ?thesis
    using msg True hs_fragment_whole [OF msg]
    by (simp add: dtls_BuildFragment_def mem_read_def message_ok_def content_len_def)
next
  case False
  have cl16: "content_len msg < 65536" by (rule content_len_word [OF msg])
  have len: "length (qm_data msg) = content_len msg + 12" using msg by (simp add: message_ok_def content_len_def)
  have ns: "unat (6 :: u32) = 6" "unat (3 :: u32) = 3" "(3 :: u32) \<le> 8" by (simp_all add: word_le_nat_alt)
  have u: "unat (ucast off :: u64) = unat off" "unat (ucast l :: u64) = unat l" by (simp_all add: unat_ucast_le)
  have s12: "unat (l + DTLS_HS_HDR_LEN) = unat l + 12" "unat (DTLS_HS_HDR_LEN + off) = 12 + unat off"
    using small fits cl16 by (simp_all add: unat_plus_no_wrap)
  have i0: "fixed_at 1500 (SSL_BUFFER_FIXED (replicate 1500 0) DTLS_MAX_MTU) []"
    using fixed_at_init [of "replicate 1500 0" 1500] by simp
  obtain b1 where b1: "sslBuffer_Append h (SSL_BUFFER_FIXED (replicate 1500 0) DTLS_MAX_MTU) (qm_data msg) 6 = Inr b1"
      "fixed_at 1500 b1 (take 6 (qm_data msg))"
    using fixed_Append [OF i0, of 6 "qm_data msg" h] len by (auto simp: fixed_append_def ns)
  obtain b2 where b2: "sslBuffer_AppendNumber h b1 (ucast off) 3 = Inr b2"
      "fixed_at 1500 b2 (take 6 (qm_data msg) @ be_bytes 3 (unat off))"
    using fixed_AppendNumber [OF b1(2) ns(3), of "ucast off" h] len by (auto simp: fixed_append_def ns u min_def)
  obtain b3 where b3: "sslBuffer_AppendNumber h b2 (ucast l) 3 = Inr b3"
      "fixed_at 1500 b3 (take 6 (qm_data msg) @ be_bytes 3 (unat off) @ be_bytes 3 (unat l))"
    using fixed_AppendNumber [OF b2(2) ns(3), of "ucast l" h] len by (auto simp: fixed_append_def ns u min_def)
  let ?bytes = "take (unat l) (drop (12 + unat off) (qm_data msg))"
  have rd: "mem_read (qm_data msg) (12 + unat off) (unat l) = Inr ?bytes"
    using len fits by (simp add: mem_read_def)
  have lb: "length ?bytes = unat l" using len fits by simp
  have "take (unat l) ?bytes = ?bytes" by simp
  then obtain b4 where b4: "sslBuffer_Append h b3 ?bytes l = Inr b4"
      "fixed_at 1500 b4 (hs_fragment msg (unat off) (unat l))"
    using fixed_Append [OF b3(2), of l ?bytes h] lb small len by (auto simp: fixed_append_def hs_fragment_def min_def)
  obtain m where m: "sb_buf b4 = Some (hs_fragment msg (unat off) (unat l) @ m)"
    using b4(2) by (auto simp: fixed_at_def)
  show ?thesis
    unfolding dtls_BuildFragment_def if_not_P [OF False] b1(1) res_bind_simps b2(1) b3(1) s12 rd b4(1) m option.sel
    using length_hs_fragment [OF msg fits] by (simp add: mem_read_def)
qed

definition sock_acked :: "'w dtls_socket \<Rightarrow> u16 \<Rightarrow> nat set" where
  "sock_acked ss msgSeq =
     (if tls13_MaybeTls13 ss then acked_bytes (ds_dtlsSentHandshake ss) msgSeq else {})"

lemma dtls_NextUnackedRange_acked:
  assumes "offset < len" "entries_ok (ds_dtlsSentHandshake ss)"
  shows "unacked_range (sock_acked ss msgSeq) (unat offset) (unat len) (dtls_NextUnackedRange ss msgSeq offset len)"
  using dtls_NextUnackedRange_range [OF _ assms] assms(1)
  by (auto simp: sock_acked_def dtls_NextUnackedRange_def unacked_range_def word_less_nat_alt)

text \<open>What a step of the flight keeps.\<close>

definition flight_step :: "'w dtls_env \<Rightarrow> 'w dtls_socket \<Rightarrow> 'w dtls_socket \<Rightarrow> bool" where
  "flight_step env ss ss' \<longleftrightarrow> sends_only ss ss' \<and> tx_ok env ss' \<and> entries_ok (ds_dtlsSentHandshake ss') \<and>
     (\<forall>msgSeq. sock_acked ss' msgSeq = sock_acked ss msgSeq) \<and> grams_fit ss ss' \<and>
     unat (sb_len (ds_pendingBuf ss')) \<le> unat (ds_mtu ss)"

lemma grams_fit_refl [simp]: "grams_fit ss ss"
  by (simp add: grams_fit_def)

lemma grams_fit_trans:
  "grams_fit ss ss' \<Longrightarrow> grams_fit ss' ss'' \<Longrightarrow> ds_mtu ss' = ds_mtu ss \<Longrightarrow> grams_fit ss ss''"
  by (fastforce simp: grams_fit_def)

lemma flight_step_refl:
  "tx_ok env ss \<Longrightarrow> entries_ok (ds_dtlsSentHandshake ss) \<Longrightarrow> unat (sb_len (ds_pendingBuf ss)) \<le> unat (ds_mtu ss) \<Longrightarrow>
     flight_step env ss ss"
  by (simp add: flight_step_def)

lemma flight_step_trans:
  assumes "flight_step env ss ss'" "flight_step env ss' ss''"
  shows "flight_step env ss ss''"
proof -
  have "ds_mtu ss' = ds_mtu ss" using assms(1) by (auto simp: flight_step_def dest: sends_onlyD(1))
  then show ?thesis
    using assms by (auto simp: flight_step_def intro: sends_only_trans grams_fit_trans)
qed

lemma dtls13_RememberFragment_ok:
  assumes "dtls13_RememberFragment h ss entries seq off l epoch n = Inr entries'"
    and "unat off + unat l < 2 ^ 32" "entries_ok entries"
  shows "entries_ok entries' \<and> acked_bytes entries' q = acked_bytes entries q"
  using assms by (auto simp: dtls13_RememberFragment_def acked_bytes_def entries_ok_def split: if_splits)

text \<open>\<open>queued_ok\<close>: what a queued message and its cipher spec have to be for the sender to make progress.\<close>

definition spec_sendable :: "ssl3CipherSpec \<Rightarrow> bool" where
  "spec_sendable spec \<longleftrightarrow> unat (bc_tag_size (cs_cipherDef spec)) \<le> 16 \<and> 13 \<le> unat (cs_recordSizeLimit spec)"

lemma spec_sendable_const: "spec_const s s' \<Longrightarrow> spec_sendable s' = spec_sendable s"
  by (simp add: spec_const_def spec_sendable_def)

lemma dtls_FragmentLen_ok:
  assumes ok: "tx_ok env ss" and room: "tx_room ss" and spec: "spec_sendable (ds_specs ss (qm_cwSpec msg))"
    and range: "unat off \<le> unat end" "unat end \<le> unat contentLen"
  defines "l \<equiv> unat (dtls_FragmentLen ss msg contentLen off end)"
  shows "unat off + l \<le> unat end" "l + 12 \<le> unat (cs_recordSizeLimit (ds_specs ss (qm_cwSpec msg)))"
    "unat (sb_len (ds_pendingBuf ss)) + (l + 12) + 77 \<le> unat (ds_mtu ss)" "l < 1488"
    "unat off < unat end \<Longrightarrow> 0 < l"
proof -
  have mtu: "90 \<le> unat (ds_mtu ss)" "unat (ds_mtu ss) \<le> 1500" using ok by (simp_all add: tx_ok_def)
  have p: "unat (sb_len (ds_pendingBuf ss)) + 90 \<le> unat (ds_mtu ss)" using room by (simp add: tx_room_def)
  let ?m = "ucast (ds_mtu ss) - sb_len (ds_pendingBuf ss) - DTLS_MAX_EXPANSION - DTLS_HS_HDR_LEN :: u32"
  have e: "?m = ucast (ds_mtu ss) - (sb_len (ds_pendingBuf ss) + 89)" by simp
  have s: "unat (sb_len (ds_pendingBuf ss) + 89) = unat (sb_len (ds_pendingBuf ss)) + 89"
    using p mtu by (simp add: unat_plus_no_wrap)
  have m: "unat ?m = unat (ds_mtu ss) - (unat (sb_len (ds_pendingBuf ss)) + 89)"
    unfolding e using p s by (subst unat_sub) (simp_all add: word_le_nat_alt unat_ucast_le)
  let ?r = "ucast (cs_recordSizeLimit (ds_specs ss (qm_cwSpec msg))) - DTLS_HS_HDR_LEN :: u32"
  have r: "unat ?r = unat (cs_recordSizeLimit (ds_specs ss (qm_cwSpec msg))) - 12"
    using spec by (subst unat_sub) (simp_all add: word_le_nat_alt unat_ucast_le spec_sendable_def)
  have "min end contentLen = end" using range by (simp add: min_def word_le_nat_alt)
  then have d: "unat (min end contentLen - off) = unat end - unat off"
    using range by (simp add: unat_sub word_le_nat_alt)
  have unat_min: "unat (min x y) = min (unat x) (unat y)" for x y :: u32 by (simp add: min_def word_le_nat_alt)
  have "l = min (min (unat end - unat off) (unat (cs_recordSizeLimit (ds_specs ss (qm_cwSpec msg))) - 12))
          (unat (ds_mtu ss) - (unat (sb_len (ds_pendingBuf ss)) + 89))"
    unfolding l_def dtls_FragmentLen_def Let_def unat_min d m r ..
  then show "unat off + l \<le> unat end" "l + 12 \<le> unat (cs_recordSizeLimit (ds_specs ss (qm_cwSpec msg)))"
    "unat (sb_len (ds_pendingBuf ss)) + (l + 12) + 77 \<le> unat (ds_mtu ss)" "l < 1488"
    "unat off < unat end \<Longrightarrow> 0 < l"
    using range p mtu spec by (auto simp: spec_sendable_def min_def split: if_splits)
qed

definition is_fragment :: "DTLSQueuedMessage \<Rightarrow> nat \<times> byte \<times> byte list \<Rightarrow> bool" where
  "is_fragment msg rec \<longleftrightarrow>
     (\<exists>s l. rec = (qm_cwSpec msg, qm_type msg, hs_fragment msg s l) \<and> s + l \<le> content_len msg)"

lemma dtls_FragmentHandshake_turn_ok:
  assumes ok: "tx_ok env ss" "tx_room ss" "entries_ok (ds_dtlsSentHandshake ss)" and msg: "message_ok msg"
    and spec: "spec_sendable (ds_specs ss (qm_cwSpec msg))"
    and cl: "unat contentLen = content_len msg" and off: "off < contentLen \<or> off = 0 \<and> contentLen = 0"
  obtains r ss' where "dtls_FragmentHandshake_turn env msg msgSeq contentLen off ss = Some (r, ss')"
    "flight_step env ss ss'"
    "\<exists>fs. ds_sentRecords ss' = ds_sentRecords ss @ fs \<and> (\<forall>f \<in> set fs. is_fragment msg f)"
    "r = Inr None \<Longrightarrow> ss' = ss \<and> {unat off..<content_len msg} \<subseteq> sock_acked ss msgSeq"
    "\<And>off'. r = Inr (Some off') \<Longrightarrow> tx_room ss' \<and> (\<exists>s l. unat off \<le> s \<and> unat off' = s + l \<and> s + l \<le> content_len msg \<and>
        (0 < content_len msg \<longrightarrow> 0 < l) \<and> {unat off..<s} \<subseteq> sock_acked ss msgSeq \<and>
        ds_sentRecords ss' = ds_sentRecords ss @ [(qm_cwSpec msg, qm_type msg, hs_fragment msg s l)])"
proof -
  have pend: "unat (sb_len (ds_pendingBuf ss)) \<le> unat (ds_mtu ss)" using ok(2) by (simp add: tx_room_def)
  note refl = flight_step_refl [OF ok(1,3) pend]
  show ?thesis
  proof (cases "dtls_NextUnackedRange ss msgSeq off contentLen")
    case None
    have "{unat off..<content_len msg} \<subseteq> sock_acked ss msgSeq"
      using dtls_NextUnackedRange_acked [of off contentLen ss msgSeq] None off ok(3) cl
      by (auto simp: unacked_range_def)
    then show ?thesis
      by (intro that [of "Inr None" ss]) (use None refl in \<open>simp_all add: dtls_FragmentHandshake_turn_def\<close>)
  next
    case (Some p)
    obtain s e where p: "p = (s, e)" by fastforce
    have R: "unat off \<le> unat s" "unat s \<le> unat e" "unat e \<le> unat contentLen" "{unat off..<unat s} \<subseteq> sock_acked ss msgSeq"
      "contentLen \<noteq> 0 \<Longrightarrow> unat s < unat e"
      using dtls_NextUnackedRange_acked [of off contentLen ss msgSeq] Some p off ok(3)
      by (auto simp: unacked_range_def dtls_NextUnackedRange_def split: if_splits)
    let ?l = "dtls_FragmentLen ss msg contentLen s e"
    note F = dtls_FragmentLen_ok [OF ok(1,2) spec R(2,3)]
    have sl: "unat s + unat ?l \<le> content_len msg" using F(1) R(3) cl by simp
    have small: "\<not> ?l \<ge> DTLS_MAX_MTU - DTLS_HS_HDR_LEN" using F(4) by (simp add: word_le_nat_alt)
    have cl16: "content_len msg < 65536" by (rule content_len_word [OF msg])
    have sum: "unat (s + ?l) = unat s + unat ?l" using sl cl16 by (simp add: unat_plus_no_wrap)
    note B = dtls_BuildFragment_ok [OF msg cl sl F(4), of "en_nspr env"]
    let ?spec = "ds_specs ss (qm_cwSpec msg)"
    define rem where "rem = dtls13_RememberFragment (en_nspr env) ss (ds_dtlsSentHandshake ss) (ucast msgSeq)
                     s ?l (cs_epoch ?spec) (cs_nextSeqNum ?spec)"
    have turn: "dtls_FragmentHandshake_turn env msg msgSeq contentLen off ss =
        (case rem of
           Inl e \<Rightarrow> Some (Inl e, ss)
         | Inr entries \<Rightarrow>
             run_bind (dtls_SendFragment env msg (hs_fragment msg (unat s) (unat ?l)) (ss\<lparr>ds_dtlsSentHandshake := entries\<rparr>))
               (\<lambda>_ ss. Some (Inr (Some (s + ?l)), ss)))"
      unfolding dtls_FragmentHandshake_turn_def Some p option.case prod.case Let_def if_not_P [OF small] B sum.case rem_def ..
    show ?thesis
    proof (cases rem)
      case (Inl err)
      show ?thesis
        by (rule that [of "Inl err" ss]) (use turn Inl refl in simp_all)
    next
      case (Inr entries)
      let ?ss1 = "ss\<lparr>ds_dtlsSentHandshake := entries\<rparr>"
      have E: "entries_ok entries" "\<And>q. acked_bytes entries q = acked_bytes (ds_dtlsSentHandshake ss) q"
        using dtls13_RememberFragment_ok [OF Inr [unfolded rem_def]] sl cl16 ok(3) by simp_all
      have ok1: "tx_ok env ?ss1" using ok(1) by simp
      have l12: "length (hs_fragment msg (unat s) (unat ?l)) = unat ?l + 12" by (rule length_hs_fragment [OF msg sl])
      then have ne: "hs_fragment msg (unat s) (unat ?l) \<noteq> []" by auto
      obtain r ss2 where S: "dtls_SendFragment env msg (hs_fragment msg (unat s) (unat ?l)) ?ss1 = Some (r, ss2)"
        "sends_only ?ss1 ss2" "tx_ok env ss2" "ds_dtlsSentHandshake ss2 = ds_dtlsSentHandshake ?ss1" "grams_fit ?ss1 ss2"
        "unat (sb_len (ds_pendingBuf ss2)) \<le> unat (ds_mtu ?ss1)"
        "r = Inr () \<Longrightarrow> ds_sentRecords ss2 = ds_sentRecords ?ss1 @ [(qm_cwSpec msg, qm_type msg, hs_fragment msg (unat s) (unat ?l))] \<and> tx_room ss2"
        "ds_sentRecords ss2 \<in> {ds_sentRecords ?ss1, ds_sentRecords ?ss1 @ [(qm_cwSpec msg, qm_type msg, hs_fragment msg (unat s) (unat ?l))]}"
        by (rule dtls_SendFragment_ok [OF ok1, of msg "hs_fragment msg (unat s) (unat ?l)"])
          (use spec F ne l12 in \<open>simp_all add: spec_sendable_def\<close>)
      have so: "sends_only ss ss2" using S(2) by (simp add: sends_only_def)
      have step: "flight_step env ss ss2"
        using S(3-6) so E sends_onlyD(2) [OF so]
        by (simp add: flight_step_def sock_acked_def grams_fit_def)
      have frag: "is_fragment msg (qm_cwSpec msg, qm_type msg, hs_fragment msg (unat s) (unat ?l))"
        using sl by (auto simp: is_fragment_def)
      show ?thesis
      proof (cases r)
        case I: (Inl err)
        show ?thesis
          by (rule that [of "Inl err" ss2]) (use turn Inr S(1,8) I step frag in \<open>auto simp: run_bind_def\<close>)
      next
        case I: (Inr u)
        have run: "dtls_FragmentHandshake_turn env msg msgSeq contentLen off ss = Some (Inr (Some (s + ?l)), ss2)"
          using turn Inr S(1) I by (simp add: run_bind_def)
        have sent: "ds_sentRecords ss2 = ds_sentRecords ss @ [(qm_cwSpec msg, qm_type msg, hs_fragment msg (unat s) (unat ?l))]"
          "tx_room ss2"
          using S(7) I by simp_all
        show ?thesis
        proof (rule that [OF run step])
          fix off' assume "Inr (Some (s + ?l)) = (Inr (Some off') :: u32 option result)"
          then have off': "off' = s + ?l" by simp
          have "0 < content_len msg \<longrightarrow> 0 < unat ?l" using F(5) R(5) cl by (cases "contentLen = 0") auto
          then show "tx_room ss2 \<and> (\<exists>s l. unat off \<le> s \<and> unat off' = s + l \<and> s + l \<le> content_len msg \<and>
              (0 < content_len msg \<longrightarrow> 0 < l) \<and> {unat off..<s} \<subseteq> sock_acked ss msgSeq \<and>
              ds_sentRecords ss2 = ds_sentRecords ss @ [(qm_cwSpec msg, qm_type msg, hs_fragment msg s l)])"
            using sent R(1,4) sl sum off' by (intro conjI exI [of _ "unat s"] exI [of _ "unat ?l"]) simp_all
        qed (use sent frag in auto)
      qed
    qed
  qed
qed

definition covered :: "DTLSQueuedMessage \<Rightarrow> (nat \<times> byte \<times> byte list) list \<Rightarrow> nat \<Rightarrow> bool" where
  "covered msg recs i \<longleftrightarrow>
     (\<exists>s l. (qm_cwSpec msg, qm_type msg, hs_fragment msg s l) \<in> set recs \<and> s \<le> i \<and> i < s + l \<and>
            s + l \<le> content_len msg)"

lemma covered_append [simp]: "covered msg (xs @ ys) i \<longleftrightarrow> covered msg xs i \<or> covered msg ys i"
  by (auto simp: covered_def)

lemma dtls_FragmentHandshake_loop_ok:
  assumes "tx_ok env ss" "tx_room ss" "entries_ok (ds_dtlsSentHandshake ss)" and msg: "message_ok msg"
    and "spec_sendable (ds_specs ss (qm_cwSpec msg))"
    and cl: "unat contentLen = content_len msg" and "off < contentLen \<or> off = 0 \<and> contentLen = 0"
  shows "\<exists>r ss' fs. dtls_FragmentHandshake_loop env msg msgSeq contentLen written off ss = Some (r, ss') \<and>
    flight_step env ss ss' \<and> ds_sentRecords ss' = ds_sentRecords ss @ fs \<and> (\<forall>f \<in> set fs. is_fragment msg f) \<and>
    (\<forall>w. r = Inr w \<longrightarrow> tx_room ss' \<and> (w \<longleftrightarrow> written \<or> fs \<noteq> []) \<and>
       (\<forall>i. unat off \<le> i \<longrightarrow> i < content_len msg \<longrightarrow> i \<notin> sock_acked ss msgSeq \<longrightarrow> covered msg fs i))"
  using assms
proof (induction "content_len msg - unat off" arbitrary: off ss written rule: less_induct)
  case less
  obtain r ss1 where T: "dtls_FragmentHandshake_turn env msg msgSeq contentLen off ss = Some (r, ss1)"
    "flight_step env ss ss1" "\<exists>fs. ds_sentRecords ss1 = ds_sentRecords ss @ fs \<and> (\<forall>f \<in> set fs. is_fragment msg f)"
    "r = Inr None \<Longrightarrow> ss1 = ss \<and> {unat off..<content_len msg} \<subseteq> sock_acked ss msgSeq"
    "\<And>off'. r = Inr (Some off') \<Longrightarrow> tx_room ss1 \<and> (\<exists>s l. unat off \<le> s \<and> unat off' = s + l \<and> s + l \<le> content_len msg \<and>
        (0 < content_len msg \<longrightarrow> 0 < l) \<and> {unat off..<s} \<subseteq> sock_acked ss msgSeq \<and>
        ds_sentRecords ss1 = ds_sentRecords ss @ [(qm_cwSpec msg, qm_type msg, hs_fragment msg s l)])"
    by (rule dtls_FragmentHandshake_turn_ok [OF less.prems]) blast
  note simps = dtls_FragmentHandshake_loop.simps [of env msg msgSeq contentLen written off ss]
  show ?case
  proof (cases r)
    case (Inl e)
    then show ?thesis using T(1-3) by (auto simp: simps)
  next
    case (Inr o1)
    show ?thesis
    proof (cases o1)
      case None
      then show ?thesis using T(1,2,4) Inr less.prems(2) by (auto simp: simps)
    next
      case (Some off')
      obtain s l where S: "unat off \<le> s" "unat off' = s + l" "s + l \<le> content_len msg"
        "0 < content_len msg \<longrightarrow> 0 < l" "{unat off..<s} \<subseteq> sock_acked ss msgSeq"
        "ds_sentRecords ss1 = ds_sentRecords ss @ [(qm_cwSpec msg, qm_type msg, hs_fragment msg s l)]" "tx_room ss1"
        using T(5) Inr Some by blast
      let ?f = "(qm_cwSpec msg, qm_type msg, hs_fragment msg s l)"
      have frag: "is_fragment msg ?f" using S(3) by (auto simp: is_fragment_def)
      have cov: "i \<in> sock_acked ss msgSeq \<or> covered msg [?f] i" if "unat off \<le> i" "i < s + l" for i
        using that S(3,5) by (cases "i < s") (auto simp: covered_def)
      show ?thesis
      proof (cases "off' < contentLen")
        case False
        then have "s + l = content_len msg" using S(2,3) cl by (simp add: word_less_nat_alt)
        then show ?thesis using T(1,2) Inr Some False S(6,7) frag cov by (auto simp: simps)
      next
        case True
        then have "unat off' < content_len msg" using cl by (simp add: word_less_nat_alt)
        then have dec: "content_len msg - unat off' < content_len msg - unat off" using S(1,2,4) by auto
        have F: "tx_ok env ss1" "entries_ok (ds_dtlsSentHandshake ss1)" "sends_only ss ss1"
          "sock_acked ss1 msgSeq = sock_acked ss msgSeq"
          using T(2) by (simp_all add: flight_step_def)
        have "spec_sendable (ds_specs ss1 (qm_cwSpec msg))"
          using less.prems(5) sends_onlyD(6) [OF F(3)] spec_sendable_const by blast
        from less.hyps [OF dec F(1) S(7) F(2) msg this cl disjI1 [OF True], of True]
        obtain r2 ss2 fs where L: "dtls_FragmentHandshake_loop env msg msgSeq contentLen True off' ss1 = Some (r2, ss2)"
          "flight_step env ss1 ss2" "ds_sentRecords ss2 = ds_sentRecords ss1 @ fs" "\<forall>f \<in> set fs. is_fragment msg f"
          "\<forall>w. r2 = Inr w \<longrightarrow> tx_room ss2 \<and> w \<and>
             (\<forall>i. unat off' \<le> i \<longrightarrow> i < content_len msg \<longrightarrow> i \<notin> sock_acked ss msgSeq \<longrightarrow> covered msg fs i)"
          using F(4) by auto
        have run: "dtls_FragmentHandshake_loop env msg msgSeq contentLen written off ss = Some (r2, ss2)"
          using T(1) Inr Some True L(1) by (simp add: simps)
        have C: "covered msg (?f # fs) i" if "r2 = Inr w" "unat off \<le> i" "i < content_len msg" "i \<notin> sock_acked ss msgSeq" for w i
        proof (cases "i < s + l")
          case True
          then show ?thesis using cov [of i] that covered_append [of msg "[?f]" fs i] by auto
        next
          case False
          then show ?thesis using L(5) that S(2) covered_append [of msg "[?f]" fs i] by auto
        qed
        show ?thesis
          using run flight_step_trans [OF T(2) L(2)] L(3,4,5) S(6) frag C
          by (intro exI [of _ r2] exI [of _ ss2] exI [of _ "?f # fs"]) auto
      qed
    qed
  qed
qed

section \<open>Messages and flights\<close>

definition queued_seq :: "DTLSQueuedMessage \<Rightarrow> u16" where
  "queued_seq msg = push_bit 8 (ucast (qm_data msg ! 4)) OR ucast (qm_data msg ! 5)"

definition queued_ok :: "'w dtls_socket \<Rightarrow> DTLSQueuedMessage \<Rightarrow> bool" where
  "queued_ok ss msg \<longleftrightarrow> spec_sendable (ds_specs ss (qm_cwSpec msg)) \<and>
     (if qm_type msg = ssl_ct_handshake then message_ok msg
      else length (qm_data msg) = unat (qm_len msg) \<and> 1 \<le> unat (qm_len msg) \<and> unat (qm_len msg) \<le> 13)"

text \<open>The message needs no more sending: every byte of its content is acknowledged.\<close>

definition all_acked :: "'w dtls_socket \<Rightarrow> DTLSQueuedMessage \<Rightarrow> bool" where
  "all_acked ss msg \<longleftrightarrow> {..<content_len msg} \<subseteq> sock_acked ss (queued_seq msg)"

lemma dtls_FragmentHandshake_ok:
  assumes "tx_ok env ss" "tx_room ss" "entries_ok (ds_dtlsSentHandshake ss)" and msg: "message_ok msg"
    and "spec_sendable (ds_specs ss (qm_cwSpec msg))"
  shows "\<exists>r ss' fs. dtls_FragmentHandshake env msg ss = Some (r, ss') \<and> flight_step env ss ss' \<and>
    ds_sentRecords ss' = ds_sentRecords ss @ fs \<and> (\<forall>f \<in> set fs. is_fragment msg f) \<and>
    (\<forall>w. r = Inr w \<longrightarrow> tx_room ss' \<and> (w \<or> all_acked ss msg) \<and>
       (\<forall>i < content_len msg. i \<notin> sock_acked ss (queued_seq msg) \<longrightarrow> covered msg fs i))"
proof -
  let ?cl = "ucast (qm_len msg) - DTLS_HS_HDR_LEN :: u32"
  have cl: "unat ?cl = content_len msg" by (rule content_len_word [OF msg])
  have off: "0 < ?cl \<or> 0 = (0 :: u32) \<and> ?cl = 0" using word_neq_0_conv [of ?cl] by auto
  have len: "12 \<le> length (qm_data msg)" using msg by (simp add: message_ok_def)
  have "mem_read (qm_data msg) 4 2 = Inr (take 2 (drop 4 (qm_data msg)))" using len by (simp add: mem_read_def)
  moreover have "take 2 (drop 4 (qm_data msg)) ! 0 = qm_data msg ! 4" "take 2 (drop 4 (qm_data msg)) ! 1 = qm_data msg ! 5"
    using len by simp_all
  ultimately have run: "dtls_FragmentHandshake env msg ss =
      dtls_FragmentHandshake_loop env msg (queued_seq msg) ?cl False 0 ss"
    by (simp add: dtls_FragmentHandshake_def queued_seq_def Let_def)
  have "all_acked ss msg"
    if "\<forall>i. 0 \<le> i \<longrightarrow> i < content_len msg \<longrightarrow> i \<notin> sock_acked ss (queued_seq msg) \<longrightarrow> covered msg [] i"
    using that by (auto simp: all_acked_def covered_def)
  then show ?thesis
    using dtls_FragmentHandshake_loop_ok [OF assms cl off, of "queued_seq msg" False] unfolding run by fastforce
qed

lemma control_part_flight: "control_part (ss\<lparr>ds_lastMessageFlight := x\<rparr>) = (control_part ss)\<lparr>ds_lastMessageFlight := x\<rparr>"
  by (simp add: control_part_def)

definition flight_moves :: "'w dtls_env \<Rightarrow> 'w dtls_socket \<Rightarrow> 'w dtls_socket \<Rightarrow> bool" where
  "flight_moves env ss ss' \<longleftrightarrow>
     flight_step env (ss\<lparr>ds_lastMessageFlight := []\<rparr>) (ss'\<lparr>ds_lastMessageFlight := []\<rparr>)"

lemma flight_moves_step: "flight_step env ss ss' \<Longrightarrow> flight_moves env ss ss'"
  by (auto simp: flight_moves_def flight_step_def sends_only_def control_part_flight sock_acked_def
      grams_fit_def tls13_MaybeTls13_def)

lemma flight_moves_trans: "flight_moves env ss ss' \<Longrightarrow> flight_moves env ss' ss'' \<Longrightarrow> flight_moves env ss ss''"
  unfolding flight_moves_def by (rule flight_step_trans)

lemma flight_moves_update [simp]: "flight_moves env (ss\<lparr>ds_lastMessageFlight := x\<rparr>) ss' = flight_moves env ss ss'"
  by (simp add: flight_moves_def)

lemma sock_acked_flight [simp]: "sock_acked (ss\<lparr>ds_lastMessageFlight := x\<rparr>) q = sock_acked ss q"
  by (simp add: sock_acked_def tls13_MaybeTls13_def)

lemma flight_movesD:
  assumes "flight_moves env ss ss'"
  shows "tx_ok env ss'" "entries_ok (ds_dtlsSentHandshake ss')" "sock_acked ss' q = sock_acked ss q"
    "grams_fit ss ss'" "spec_const (ds_specs ss a) (ds_specs ss' a)" "ds_mtu ss' = ds_mtu ss"
    "unat (sb_len (ds_pendingBuf ss')) \<le> unat (ds_mtu ss)"
proof -
  note F = assms [unfolded flight_moves_def flight_step_def]
  have so: "sends_only (ss\<lparr>ds_lastMessageFlight := []\<rparr>) (ss'\<lparr>ds_lastMessageFlight := []\<rparr>)" using F by simp
  show "tx_ok env ss'" "entries_ok (ds_dtlsSentHandshake ss')" "grams_fit ss ss'"
    "unat (sb_len (ds_pendingBuf ss')) \<le> unat (ds_mtu ss)" using F by (simp_all add: grams_fit_def)
  show "spec_const (ds_specs ss a) (ds_specs ss' a)" "ds_mtu ss' = ds_mtu ss"
    using sends_onlyD(1,6) [OF so] by simp_all
  have "sock_acked (ss'\<lparr>ds_lastMessageFlight := []\<rparr>) q = sock_acked (ss\<lparr>ds_lastMessageFlight := []\<rparr>) q" using F by blast
  then show "sock_acked ss' q = sock_acked ss q" by simp
qed

definition is_message_record :: "DTLSQueuedMessage list \<Rightarrow> nat \<times> byte \<times> byte list \<Rightarrow> bool" where
  "is_message_record msgs rec \<longleftrightarrow>
     (\<exists>msg \<in> set msgs. if qm_type msg = ssl_ct_handshake then is_fragment msg rec
                       else rec = (qm_cwSpec msg, qm_type msg, qm_data msg))"

lemma dtls_TransmitMessages_ok:
  assumes "tx_ok env ss" "tx_room ss" "entries_ok (ds_dtlsSentHandshake ss)"
    and "\<forall>msg \<in> set msgs. queued_ok ss msg" and "ds_lastMessageFlight ss = kept @ msgs"
  shows "\<exists>r ss' fs. dtls_TransmitMessages env kept msgs ss = Some (r, ss') \<and> flight_moves env ss ss' \<and>
    ds_sentRecords ss' = ds_sentRecords ss @ fs \<and> (\<forall>f \<in> set fs. is_message_record msgs f) \<and>
    (\<forall>msg \<in> set kept. msg \<in> set (ds_lastMessageFlight ss')) \<and>
    (\<forall>msg \<in> set msgs. msg \<in> set (ds_lastMessageFlight ss') \<or> qm_type msg = ssl_ct_handshake \<and> all_acked ss msg) \<and>
    (r = Inr () \<longrightarrow> (\<forall>msg \<in> set msgs. qm_type msg = ssl_ct_handshake \<longrightarrow>
       (\<forall>i < content_len msg. i \<notin> sock_acked ss (queued_seq msg) \<longrightarrow> covered msg fs i)))"
  using assms
proof (induction msgs arbitrary: kept ss)
  case Nil
  have "flight_step env ss ss"
    using Nil(1-3) by (intro flight_step_refl) (simp_all add: tx_room_def)
  then show ?case using Nil by (auto intro: flight_moves_step)
next
  case (Cons msg msgs)
  define run1 where "run1 = (if qm_type msg = ssl_ct_handshake then dtls_FragmentHandshake env msg ss
               else run_bind (Some (mem_read (qm_data msg) 0 (unat (qm_len msg)), ss)) (\<lambda>data ss.
                    run_bind (dtls_SendFragment env msg data ss) (\<lambda>_ ss. Some (Inr True, ss))))"
  have Q: "queued_ok ss msg" using Cons.prems(4) by simp
  have "\<exists>r ss' fs. run1 = Some (r, ss') \<and> flight_step env ss ss' \<and>
    ds_sentRecords ss' = ds_sentRecords ss @ fs \<and> (\<forall>f \<in> set fs. is_message_record [msg] f) \<and>
    (\<forall>w. r = Inr w \<longrightarrow> tx_room ss' \<and> (w \<or> qm_type msg = ssl_ct_handshake \<and> all_acked ss msg) \<and>
       (qm_type msg = ssl_ct_handshake \<longrightarrow>
        (\<forall>i < content_len msg. i \<notin> sock_acked ss (queued_seq msg) \<longrightarrow> covered msg fs i)))"
  proof (cases "qm_type msg = ssl_ct_handshake")
    case True
    then show ?thesis
      using dtls_FragmentHandshake_ok [OF Cons.prems(1-3), of msg] Q
      by (auto simp: run1_def queued_ok_def is_message_record_def)
  next
    case False
    then have L: "length (qm_data msg) = unat (qm_len msg)" "1 \<le> unat (qm_len msg)" "unat (qm_len msg) \<le> 13"
      and sp: "spec_sendable (ds_specs ss (qm_cwSpec msg))" using Q by (simp_all add: queued_ok_def)
    obtain r ss2 where S: "dtls_SendFragment env msg (qm_data msg) ss = Some (r, ss2)"
        "sends_only ss ss2" "tx_ok env ss2" "ds_dtlsSentHandshake ss2 = ds_dtlsSentHandshake ss" "grams_fit ss ss2"
        "unat (sb_len (ds_pendingBuf ss2)) \<le> unat (ds_mtu ss)"
        "r = Inr () \<Longrightarrow> ds_sentRecords ss2 = ds_sentRecords ss @ [(qm_cwSpec msg, qm_type msg, qm_data msg)] \<and> tx_room ss2"
        "ds_sentRecords ss2 \<in> {ds_sentRecords ss, ds_sentRecords ss @ [(qm_cwSpec msg, qm_type msg, qm_data msg)]}"
      by (rule dtls_SendFragment_ok [OF Cons.prems(1), of msg "qm_data msg"])
        (use sp L Cons.prems(2) in \<open>auto simp: spec_sendable_def tx_room_def\<close>)
    have step: "flight_step env ss ss2"
      using S(2-6) Cons.prems(3) sends_onlyD(2) [OF S(2)] by (simp add: flight_step_def sock_acked_def)
    have r1: "run1 = Some (map_sum id (\<lambda>_. True) r, ss2)"
      using False L S(1) by (cases r) (simp_all add: run1_def run_bind_def mem_read_def)
    show ?thesis
      using r1 step S(7,8) False by (cases r) (auto simp: is_message_record_def)
  qed
  then obtain r ss1 fs where R: "run1 = Some (r, ss1)" "flight_step env ss ss1"
    "ds_sentRecords ss1 = ds_sentRecords ss @ fs" "\<forall>f \<in> set fs. is_message_record [msg] f"
    "\<forall>w. r = Inr w \<longrightarrow> tx_room ss1 \<and> (w \<or> qm_type msg = ssl_ct_handshake \<and> all_acked ss msg) \<and>
       (qm_type msg = ssl_ct_handshake \<longrightarrow>
        (\<forall>i < content_len msg. i \<notin> sock_acked ss (queued_seq msg) \<longrightarrow> covered msg fs i))" by blast
  have run: "dtls_TransmitMessages env kept (msg # msgs) ss = run_bind run1 (\<lambda>fragmentWritten ss.
          let kept = (if fragmentWritten then kept @ [msg] else kept) in
          dtls_TransmitMessages env kept msgs (ss\<lparr>ds_lastMessageFlight := kept @ msgs\<rparr>))"
    by (simp add: run1_def)
  have so: "sends_only ss ss1" using R(2) by (simp add: flight_step_def)
  have fl: "ds_lastMessageFlight ss1 = kept @ msg # msgs" using sends_onlyD(3) [OF so] Cons.prems(5) by simp
  have rec1: "is_message_record (msg # msgs) f" if "f \<in> set fs" for f
    using R(4) that by (auto simp: is_message_record_def)
  show ?case
  proof (cases r)
    case (Inl e)
    have "dtls_TransmitMessages env kept (msg # msgs) ss = Some (Inl e, ss1)"
      unfolding run using R(1) Inl by (simp add: run_bind_def)
    then show ?thesis
      using R(3) fl rec1 flight_moves_step [OF R(2)]
      by (intro exI [of _ "Inl e"] exI [of _ ss1] exI [of _ fs]) (simp del: dtls_TransmitMessages.simps)
  next
    case (Inr w)
    let ?kept = "if w then kept @ [msg] else kept"
    let ?ss1 = "ss1\<lparr>ds_lastMessageFlight := ?kept @ msgs\<rparr>"
    have q1: "\<forall>m \<in> set msgs. queued_ok ?ss1 m"
      using Cons.prems(4) sends_onlyD(6) [OF so] spec_sendable_const by (fastforce simp: queued_ok_def)
    have "tx_ok env ?ss1" "tx_room ?ss1" "entries_ok (ds_dtlsSentHandshake ?ss1)"
      using R(2,5) Inr by (simp_all add: flight_step_def tx_room_def)
    from Cons.IH [OF this q1, of ?kept] obtain r2 ss2 fs2 where I:
      "dtls_TransmitMessages env ?kept msgs ?ss1 = Some (r2, ss2)" "flight_moves env ss1 ss2"
      "ds_sentRecords ss2 = ds_sentRecords ss1 @ fs2" "\<forall>f \<in> set fs2. is_message_record msgs f"
      "\<forall>m \<in> set ?kept. m \<in> set (ds_lastMessageFlight ss2)"
      "\<forall>m \<in> set msgs. m \<in> set (ds_lastMessageFlight ss2) \<or> qm_type m = ssl_ct_handshake \<and> all_acked ?ss1 m"
      "r2 = Inr () \<longrightarrow> (\<forall>m \<in> set msgs. qm_type m = ssl_ct_handshake \<longrightarrow>
         (\<forall>i < content_len m. i \<notin> sock_acked ?ss1 (queued_seq m) \<longrightarrow> covered m fs2 i))"
      by auto
    have ack: "sock_acked ?ss1 q = sock_acked ss q" for q
      using R(2) by (simp add: flight_step_def)
    have rec2: "is_message_record (msg # msgs) f" if "f \<in> set fs2" for f
      using I(4) that by (auto simp: is_message_record_def)
    have r2: "dtls_TransmitMessages env kept (msg # msgs) ss = Some (r2, ss2)"
      unfolding run using R(1) Inr I(1) by (simp add: run_bind_def Let_def)
    show ?thesis
    proof (intro exI conjI)
      show "dtls_TransmitMessages env kept (msg # msgs) ss = Some (r2, ss2)" by (rule r2)
      show "flight_moves env ss ss2" using flight_moves_step [OF R(2)] I(2) by (rule flight_moves_trans)
      show "ds_sentRecords ss2 = ds_sentRecords ss @ (fs @ fs2)" using I(3) R(3) by simp
      show "\<forall>f \<in> set (fs @ fs2). is_message_record (msg # msgs) f" using rec1 rec2 by auto
      show "\<forall>m \<in> set kept. m \<in> set (ds_lastMessageFlight ss2)" using I(5) by (auto split: if_splits)
      show "\<forall>m \<in> set (msg # msgs). m \<in> set (ds_lastMessageFlight ss2) \<or> qm_type m = ssl_ct_handshake \<and> all_acked ss m"
        using I(5,6) R(5) Inr ack by (auto simp: all_acked_def split: if_splits)
      show "r2 = Inr () \<longrightarrow> (\<forall>m \<in> set (msg # msgs). qm_type m = ssl_ct_handshake \<longrightarrow>
         (\<forall>i < content_len m. i \<notin> sock_acked ss (queued_seq m) \<longrightarrow> covered m (fs @ fs2) i))"
        using I(7) R(5) Inr ack by auto
    qed
  qed
qed

lemma dtls_TransmitMessageFlight_ok:
  assumes ok: "tx_ok env ss" and empty: "sb_len (ds_pendingBuf ss) = 0" and ent: "entries_ok (ds_dtlsSentHandshake ss)"
    and flight: "\<forall>msg \<in> set (ds_lastMessageFlight ss). queued_ok ss msg"
  shows "\<exists>r ss' recs. dtls_TransmitMessageFlight env ss = Some (r, ss') \<and> flight_moves env ss ss' \<and>
    ds_sentRecords ss' = ds_sentRecords ss @ recs \<and>
    (\<forall>f \<in> set recs. is_message_record (ds_lastMessageFlight ss) f) \<and>
    (\<forall>msg \<in> set (ds_lastMessageFlight ss).
       msg \<in> set (ds_lastMessageFlight ss') \<or> qm_type msg = ssl_ct_handshake \<and> all_acked ss msg) \<and>
    (r = Inr () \<longrightarrow> sb_len (ds_pendingBuf ss') = 0 \<and>
       (\<forall>msg \<in> set (ds_lastMessageFlight ss). qm_type msg = ssl_ct_handshake \<longrightarrow>
         (\<forall>i < content_len msg. i \<notin> sock_acked ss (queued_seq msg) \<longrightarrow> covered msg recs i)))"
proof -
  have room: "tx_room ss" using ok empty by (simp add: tx_room_def tx_ok_def)
  obtain r ss1 fs where T: "dtls_TransmitMessages env [] (ds_lastMessageFlight ss) ss = Some (r, ss1)"
    "flight_moves env ss ss1" "ds_sentRecords ss1 = ds_sentRecords ss @ fs"
    "\<forall>f \<in> set fs. is_message_record (ds_lastMessageFlight ss) f"
    "\<forall>msg \<in> set (ds_lastMessageFlight ss). msg \<in> set (ds_lastMessageFlight ss1) \<or> qm_type msg = ssl_ct_handshake \<and> all_acked ss msg"
    "r = Inr () \<longrightarrow> (\<forall>msg \<in> set (ds_lastMessageFlight ss). qm_type msg = ssl_ct_handshake \<longrightarrow>
       (\<forall>i < content_len msg. i \<notin> sock_acked ss (queued_seq msg) \<longrightarrow> covered msg fs i))"
    using dtls_TransmitMessages_ok [OF ok room ent flight, of "[]"] by auto
  note D = flight_movesD [OF T(2)]
  show ?thesis
  proof (cases r)
    case (Inl e)
    then have "dtls_TransmitMessageFlight env ss = Some (Inl e, ss1)"
      using T(1) by (simp add: dtls_TransmitMessageFlight_def run_bind_def)
    then show ?thesis using T(2-5) by blast
  next
    case (Inr u)
    have p1: "unat (sb_len (ds_pendingBuf ss1)) \<le> unat (ds_mtu ss1)" using D(6,7) by simp
    obtain q ss2 where Q: "dtls_SendSavedWriteData env ss1 = Some (q, ss2)" "sends_only ss1 ss2" "tx_ok env ss2"
        "ds_sentRecords ss2 = ds_sentRecords ss1" "ds_dtlsSentHandshake ss2 = ds_dtlsSentHandshake ss1"
        "ds_datagrams ss2 = ds_datagrams ss1 @ (if sb_len (ds_pendingBuf ss1) = 0 then []
                                           else [sslBuffer_contents (ds_pendingBuf ss1)])"
        "q = Inr () \<Longrightarrow> sb_len (ds_pendingBuf ss2) = 0"
        "sb_len (ds_pendingBuf ss2) \<le> sb_len (ds_pendingBuf ss1)" "ds_maxMessageSent ss1 \<le> ds_maxMessageSent ss2"
      by (rule dtls_SendSavedWriteData_ok [OF D(1) p1]) blast
    have run: "dtls_TransmitMessageFlight env ss = Some (q, ss2)"
      using T(1) Inr Q(1) by (simp add: dtls_TransmitMessageFlight_def run_bind_def)
    have l: "length (sslBuffer_contents (ds_pendingBuf ss1)) = unat (sb_len (ds_pendingBuf ss1))"
      using length_sslBuffer_contents [of "ds_pendingBuf ss1"] D(1) by (simp add: tx_ok_def)
    have "unat (sb_len (ds_pendingBuf ss2)) \<le> unat (ds_mtu ss1)" using Q(8) p1 by (simp add: word_le_nat_alt)
    then have "flight_step env ss1 ss2"
      using Q(2-6,9) D(2) l p1 sends_onlyD(2) [OF Q(2)]
      by (auto simp: flight_step_def sock_acked_def grams_fit_def)
    then have "flight_moves env ss ss2" using T(2) flight_moves_step flight_moves_trans by blast
    then show ?thesis
      using run T(3-6) Q(4,7) Inr sends_onlyD(3) [OF Q(2)]
      by (intro exI [of _ q] exI [of _ ss2] exI [of _ fs]) simp
  qed
qed

lemma queued_ok_specs: "ds_specs ss' = ds_specs ss \<Longrightarrow> queued_ok ss' msg = queued_ok ss msg"
  by (simp add: queued_ok_def)

lemma dtls_SetMTU_value:
  "ds_mtu (dtls_SetMTU ss v) \<in> set COMMON_MTU_VALUES" "1252 < v \<Longrightarrow> 1252 \<le> ds_mtu (dtls_SetMTU ss v)"
  by (auto simp: dtls_SetMTU_def COMMON_MTU_VALUES_def word_le_nat_alt word_less_nat_alt split: if_splits option.splits)

text \<open>The socket after the MTU has been adjusted, as the flight is retransmitted.\<close>

definition backed_off :: "'w dtls_socket \<Rightarrow> 'w dtls_socket" where
  "backed_off ss = (let ss = ss\<lparr>ds_rtRetries := ds_rtRetries ss + 1\<rparr> in
     if ds_rtRetries ss mod 3 = 0 then dtls_SetMTU ss (ds_maxMessageSent ss - 1) else ss)"

lemma backed_off_fields [simp]:
  "ds_pendingBuf (backed_off ss) = ds_pendingBuf ss" "ds_writeBuf (backed_off ss) = ds_writeBuf ss"
  "ds_specs (backed_off ss) = ds_specs ss" "ds_dtlsSentHandshake (backed_off ss) = ds_dtlsSentHandshake ss"
  "ds_lastMessageFlight (backed_off ss) = ds_lastMessageFlight ss" "ds_maxMessageSent (backed_off ss) = ds_maxMessageSent ss"
  "ds_sentRecords (backed_off ss) = ds_sentRecords ss" "ds_rtTimer (backed_off ss) = ds_rtTimer ss"
  "ds_ackTimer (backed_off ss) = ds_ackTimer ss" "ds_hdTimer (backed_off ss) = ds_hdTimer ss"
  "sock_acked (backed_off ss) q = sock_acked ss q"
  by (auto simp: backed_off_def dtls_SetMTU_def sock_acked_def tls13_MaybeTls13_def Let_def split: option.split)

lemma backed_off_tx_ok:
  assumes "tx_ok env ss"
  shows "tx_ok env (backed_off ss)"
proof -
  have "unat (ds_mtu (backed_off ss)) \<le> 1500 \<and> 90 \<le> unat (ds_mtu (backed_off ss))"
  proof (cases "(ds_rtRetries ss + 1) mod 3 = 0")
    case True
    then show ?thesis
      using dtls_SetMTU_value(1) [of "ss\<lparr>ds_rtRetries := ds_rtRetries ss + 1\<rparr>" "ds_maxMessageSent ss - 1"]
      by (auto simp: backed_off_def COMMON_MTU_VALUES_def)
  next
    case False
    then show ?thesis using assms by (simp add: backed_off_def tx_ok_def)
  qed
  then show ?thesis using assms by (simp add: tx_ok_def)
qed

lemma RetransmitTimerExpired_run:
  assumes "tx_ok env ss" and "sb_len (ds_pendingBuf ss) = 0" and "entries_ok (ds_dtlsSentHandshake ss)"
    and "\<forall>msg \<in> set (ds_lastMessageFlight ss). queued_ok ss msg"
  shows "\<exists>(r :: unit result) ss' recs. flight_moves env (backed_off ss) ss' \<and> ds_sentRecords ss' = ds_sentRecords ss @ recs \<and>
    (r = Inr () \<longrightarrow> (\<forall>msg \<in> set (ds_lastMessageFlight ss). qm_type msg = ssl_ct_handshake \<longrightarrow>
         (\<forall>i < content_len msg. i \<notin> sock_acked ss (queued_seq msg) \<longrightarrow> covered msg recs i))) \<and>
    RetransmitTimerExpired env ss = Some
      (case r of
         Inl e \<Rightarrow> ss'
       | Inr _ \<Rightarrow> ss'\<lparr>ds_rtTimer := (ds_rtTimer ss')
           \<lparr>tm_timeout := min (tm_timeout (ds_rtTimer ss') * 2) DTLS_RETRANSMIT_MAX_MS,
            tm_started := en_IntervalNow env (ds_world ss'), tm_cb := Some dtls_RetransmitTimerExpiredCb\<rparr>\<rparr>)"
proof -
  let ?b = "backed_off ss"
  have q: "\<forall>msg \<in> set (ds_lastMessageFlight ?b). queued_ok ?b msg"
    using assms(4) queued_ok_specs [of ?b ss] by simp
  obtain r ss' recs where T: "dtls_TransmitMessageFlight env ?b = Some (r, ss')" "flight_moves env ?b ss'"
      "ds_sentRecords ss' = ds_sentRecords ss @ recs"
      "r = Inr () \<longrightarrow> (\<forall>msg \<in> set (ds_lastMessageFlight ss). qm_type msg = ssl_ct_handshake \<longrightarrow>
         (\<forall>i < content_len msg. i \<notin> sock_acked ss (queued_seq msg) \<longrightarrow> covered msg recs i))"
    using dtls_TransmitMessageFlight_ok [OF backed_off_tx_ok [OF assms(1)] _ _ q] assms(2,3) by auto
  have "RetransmitTimerExpired env ss = map_option
      (\<lambda>(r, ss).
         case r of
           Inl e \<Rightarrow> ss
         | Inr _ \<Rightarrow> ss\<lparr>ds_rtTimer := (ds_rtTimer ss)
             \<lparr>tm_timeout := min (tm_timeout (ds_rtTimer ss) * 2) DTLS_RETRANSMIT_MAX_MS,
              tm_started := en_IntervalNow env (ds_world ss), tm_cb := Some dtls_RetransmitTimerExpiredCb\<rparr>\<rparr>)
      (dtls_TransmitMessageFlight env ?b)"
    unfolding RetransmitTimerExpired_def backed_off_def Let_def ..
  then show ?thesis using T by (intro exI [of _ r] exI [of _ ss'] exI [of _ recs]) simp
qed

text \<open>A flight of which everything is acknowledged sends nothing and is empty afterwards.\<close>

definition message_done :: "'w dtls_socket \<Rightarrow> DTLSQueuedMessage \<Rightarrow> bool" where
  "message_done ss msg \<longleftrightarrow> qm_type msg = ssl_ct_handshake \<and> message_ok msg \<and> 0 < content_len msg \<and> all_acked ss msg"

lemma dtls_FragmentHandshake_done:
  assumes msg: "message_done ss msg" and ent: "entries_ok (ds_dtlsSentHandshake ss)"
  shows "dtls_FragmentHandshake env msg ss = Some (Inr False, ss)"
proof -
  let ?cl = "ucast (qm_len msg) - DTLS_HS_HDR_LEN :: u32"
  have m: "message_ok msg" "0 < content_len msg" "{..<content_len msg} \<subseteq> sock_acked ss (queued_seq msg)"
    using msg by (simp_all add: message_done_def all_acked_def)
  have cl: "unat ?cl = content_len msg" by (rule content_len_word [OF m(1)])
  then have pos: "0 < ?cl" using m(2) by (simp add: word_less_nat_alt)
  have len: "12 \<le> length (qm_data msg)" using m(1) by (simp add: message_ok_def)
  have "dtls_NextUnackedRange ss (queued_seq msg) 0 ?cl = None"
    using dtls_NextUnackedRange_acked [OF pos ent, of "queued_seq msg"] cl m(3)
    by (cases "dtls_NextUnackedRange ss (queued_seq msg) 0 ?cl") (auto simp: unacked_range_def subset_iff)
  then have "dtls_FragmentHandshake_loop env msg (queued_seq msg) ?cl False 0 ss = Some (Inr False, ss)"
    by (subst dtls_FragmentHandshake_loop.simps) (simp add: dtls_FragmentHandshake_turn_def)
  then show ?thesis
    using len by (simp add: dtls_FragmentHandshake_def queued_seq_def mem_read_def Let_def)
qed

lemma dtls_TransmitMessages_done:
  assumes "\<forall>msg \<in> set msgs. message_done ss msg" "entries_ok (ds_dtlsSentHandshake ss)"
    and "ds_lastMessageFlight ss = kept @ msgs"
  shows "dtls_TransmitMessages env kept msgs ss = Some (Inr (), ss\<lparr>ds_lastMessageFlight := kept\<rparr>)"
  using assms
proof (induction msgs arbitrary: ss)
  case Nil
  then show ?case by simp
next
  case (Cons msg msgs)
  have "dtls_FragmentHandshake env msg ss = Some (Inr False, ss)"
    using Cons.prems by (intro dtls_FragmentHandshake_done) simp_all
  moreover have "qm_type msg = ssl_ct_handshake" using Cons.prems(1) by (simp add: message_done_def)
  moreover have "message_done (ss\<lparr>ds_lastMessageFlight := kept @ msgs\<rparr>) m = message_done ss m" for m
    by (simp add: message_done_def all_acked_def)
  ultimately show ?case
    using Cons.prems Cons.IH [of "ss\<lparr>ds_lastMessageFlight := kept @ msgs\<rparr>"] by (simp add: run_bind_def Let_def)
qed

lemma dtls_TransmitMessageFlight_done:
  assumes "\<forall>msg \<in> set (ds_lastMessageFlight ss). message_done ss msg" "entries_ok (ds_dtlsSentHandshake ss)"
    and "sb_len (ds_pendingBuf ss) = 0"
  shows "dtls_TransmitMessageFlight env ss = Some (Inr (), ss\<lparr>ds_lastMessageFlight := []\<rparr>)"
  using dtls_TransmitMessages_done [OF assms(1,2), of "[]" env] assms(3)
  by (simp add: dtls_TransmitMessageFlight_def run_bind_def dtls_SendSavedWriteData_def ssl_SendSavedWriteData_def Let_def)


text \<open>
  C31: the search for the next bytes to send ends and is exact: it reports nothing left just when
  every byte from the offset on is acknowledged, and otherwise the range it reports starts at the first
  and ends after the last byte that is not.
\<close>

theorem dtls_unacked_range_exact:
  assumes "tls13_MaybeTls13 ss" and "offset < len" and "entries_ok (ds_dtlsSentHandshake ss)"
  shows "case dtls_NextUnackedRange ss msgSeq offset len of
      None \<Rightarrow> {unat offset..<unat len} \<subseteq> acked_bytes (ds_dtlsSentHandshake ss) msgSeq
    | Some (s, e) \<Rightarrow>
        s < e \<and>
        unat s = (LEAST i. unat offset \<le> i \<and> i \<notin> acked_bytes (ds_dtlsSentHandshake ss) msgSeq) \<and>
        unat e - 1 = (GREATEST i. i < unat len \<and> i \<notin> acked_bytes (ds_dtlsSentHandshake ss) msgSeq)"
proof (cases "dtls_NextUnackedRange ss msgSeq offset len")
  case None
  then show ?thesis using dtls_NextUnackedRange_range [OF assms, of msgSeq] by (simp add: unacked_range_def)
next
  case (Some p)
  obtain s e where p: "p = (s, e)" by fastforce
  let ?A = "acked_bytes (ds_dtlsSentHandshake ss) msgSeq"
  have R: "unat offset \<le> unat s" "unat s < unat e" "unat e \<le> unat len" "{unat offset..<unat s} \<subseteq> ?A" "unat s \<notin> ?A"
    "unat e - 1 \<notin> ?A" "{unat e..<unat len} \<subseteq> ?A"
    using dtls_NextUnackedRange_range [OF assms, of msgSeq] Some p by (auto simp: unacked_range_def)
  have "(LEAST i. unat offset \<le> i \<and> i \<notin> ?A) = unat s"
    using R(1,4,5) by (intro Least_equality) (auto simp: subset_iff intro: leI)
  moreover have "(GREATEST i. i < unat len \<and> i \<notin> ?A) = unat e - 1"
  proof (rule Greatest_equality)
    show "unat e - 1 < unat len \<and> unat e - 1 \<notin> ?A" using R by auto
    show "y \<le> unat e - 1" if "y < unat len \<and> y \<notin> ?A" for y
      using that R(2,7) by (cases "unat e \<le> y") auto
  qed
  ultimately show ?thesis using Some p R(2) by (simp add: word_less_nat_alt)
qed

text \<open>
  C32: the MTU estimate goes down only once. The size of the largest datagram ever sent never
  decreases, so after a datagram of more than 1253 bytes no expiry of the retransmission timer brings
  the estimate below 1252, the second of the four values it can have.
\<close>

theorem dtls_mtu_backoff_stops:
  assumes "tx_ok env ss" and "sb_len (ds_pendingBuf ss) = 0" and "entries_ok (ds_dtlsSentHandshake ss)"
    and "\<forall>msg \<in> set (ds_lastMessageFlight ss). queued_ok ss msg"
    and max: "1253 < ds_maxMessageSent ss" and mtu: "1252 \<le> ds_mtu ss"
  shows "\<exists>ss'. RetransmitTimerExpired env ss = Some ss' \<and> 1252 \<le> ds_mtu ss' \<and> 1253 < ds_maxMessageSent ss'"
proof -
  have gt: "1252 < ds_maxMessageSent ss - 1"
    using max by (simp add: word_less_nat_alt unat_sub word_le_nat_alt)
  have mtu1: "1252 \<le> ds_mtu (backed_off ss)"
    using mtu dtls_SetMTU_value(2) [OF gt, of "ss\<lparr>ds_rtRetries := ds_rtRetries ss + 1\<rparr>"]
    by (simp add: backed_off_def Let_def)
  obtain r :: "unit result" and ss' f where T: "flight_moves env (backed_off ss) ss'"
      "RetransmitTimerExpired env ss = Some (case r of Inl e \<Rightarrow> ss' | Inr _ \<Rightarrow> ss'\<lparr>ds_rtTimer := f\<rparr>)"
    using RetransmitTimerExpired_run [OF assms(1-4)] by blast
  have D: "ds_mtu ss' = ds_mtu (backed_off ss)" "ds_maxMessageSent ss \<le> ds_maxMessageSent ss'"
    using flight_movesD(4,6) [OF T(1)] by (simp_all add: grams_fit_def)
  have "1253 < ds_maxMessageSent ss'" using max D(2) by (rule less_le_trans)
  then show ?thesis using T(2) mtu1 D(1) by (cases r) simp_all
qed

lemma dtls_QueueMessage_ok:
  assumes "nspr_ok (en_nspr env)" "PORT_ZAlloc (en_nspr env) sizeof_DTLSQueuedMessage = Inr z"
    and alloc: "PORT_Alloc (en_nspr env) (unat n) = Inr block" and n: "0 < unat n" "unat n \<le> length data"
  shows "dtls_QueueMessage env ct data n ss =
    (Inr (), ss\<lparr>ds_lastMessageFlight := ds_lastMessageFlight ss @
       [\<lparr>qm_cwSpec = ds_cwSpec ss, qm_type = ct, qm_data = take (unat n) data, qm_len = ucast n\<rparr>]\<rparr>)"
proof -
  have "length block = unat n" using PORT_Alloc_length [OF assms(1) alloc] n by (simp split: if_splits)
  then have "dtls_AllocQueuedMessage (en_nspr env) (ds_cwSpec ss) ct data n =
      Inr \<lparr>qm_cwSpec = ds_cwSpec ss, qm_type = ct, qm_data = take (unat n) data, qm_len = ucast n\<rparr>"
    using assms by (simp add: dtls_AllocQueuedMessage_def mem_read_def mem_write_def)
  then show ?thesis by (simp add: dtls_QueueMessage_def)
qed

text \<open>Flushing a send buffer over DTLS queues its contents and empties it.\<close>

lemma ssl3_FlushHandshake_queues:
  assumes "nspr_ok (en_nspr env)" "PORT_ZAlloc (en_nspr env) sizeof_DTLSQueuedMessage = Inr z"
    and "PORT_Alloc (en_nspr env) (unat (sb_len (ds_sendBuf ss))) = Inr block"
    and dtls: "IS_DTLS ss" and inv: "sslBuffer_inv (ds_sendBuf ss)" and len: "0 < unat (sb_len (ds_sendBuf ss))"
  shows "ssl3_FlushHandshake env True ss = Some (Inr (), ss\<lparr>ds_sendBuf := (ds_sendBuf ss)\<lparr>sb_len := 0\<rparr>,
    ds_lastMessageFlight := ds_lastMessageFlight ss @
      [\<lparr>qm_cwSpec = ds_cwSpec ss, qm_type = ssl_ct_handshake, qm_data = sslBuffer_contents (ds_sendBuf ss),
        qm_len = ucast (sb_len (ds_sendBuf ss))\<rparr>]\<rparr>)"
proof -
  let ?n = "sb_len (ds_sendBuf ss)"
  obtain m where m: "sb_buf (ds_sendBuf ss) = Some m" "unat ?n \<le> length m"
    using inv len by (auto simp: sslBuffer_inv_def word_le_nat_alt split: option.splits)
  have "?n \<noteq> 0" using len by auto
  then show ?thesis
    using dtls_QueueMessage_ok [OF assms(1-3) len m(2), of ssl_ct_handshake ss] m(1) dtls
    by (simp add: ssl3_FlushHandshake_def dtls_FlushHandshakeMessages_def dtls_StageHandshakeMessage_def
        run_bind_def sslBuffer_contents_def)
qed

text \<open>The last turn of the loop writes what is left to an empty buffer.\<close>

lemma ssl3_AppendHandshake_loop_last:
  assumes inv: "sslBuffer_inv (ds_sendBuf ss)" and empty: "sb_len (ds_sendBuf ss) = 0"
    and bytes: "unat bytes = length src" "length src \<le> unat (sb_space (ds_sendBuf ss))"
  shows "\<exists>b. ssl3_AppendHandshake_loop env src bytes (sb_space (ds_sendBuf ss)) ss = Some (Inr (), ss\<lparr>ds_sendBuf := b\<rparr>) \<and>
    sslBuffer_contents b = src"
proof -
  let ?b = "ds_sendBuf ss"
  have con: "sslBuffer_contents ?b = []" using empty by (simp add: sslBuffer_contents_def split: option.splits)
  have fits: "\<not> bytes > sb_space ?b" using bytes by (simp add: word_less_nat_alt not_less)
  obtain b3 where b3: "sslBuffer_put ?b 0 src = Inr b3" "sb_len b3 = 0" "sslBuffer_contents (b3\<lparr>sb_len := bytes\<rparr>) = src"
    using sslBuffer_put_end [OF inv, of src bytes] bytes empty con by auto
  have "mem_read src 0 (unat bytes) = Inr src" using bytes(1) by (simp add: mem_read_def)
  then have "ssl3_AppendHandshake_loop env src bytes (sb_space ?b) ss = Some (Inr (), ss\<lparr>ds_sendBuf := b3\<lparr>sb_len := bytes\<rparr>\<rparr>)"
    using fits b3 empty by (subst ssl3_AppendHandshake_loop.simps) (simp add: Let_def)
  then show ?thesis using b3(3) by blast
qed

text \<open>
  C33: over DTLS a message that outgrows the send buffer is torn apart. When the bytes to append
  do not fit into a buffer of the maximal size, the part that fits is queued as a message of its own and
  the rest starts the next one, which then has no handshake header.
\<close>

theorem dtls_oversize_message_split:
  fixes src :: "byte list"
  assumes "nspr_ok (en_nspr env)" "PORT_ZAlloc (en_nspr env) sizeof_DTLSQueuedMessage = Inr z"
    "PORT_Alloc (en_nspr env) (unat (sb_space (ds_sendBuf ss))) = Inr block"
    and dtls: "IS_DTLS ss" and inv: "sslBuffer_inv (ds_sendBuf ss)"
    and full: "32000 \<le> sb_space (ds_sendBuf ss)"
    and bytes: "unat bytes = length src" "unat (sb_space (ds_sendBuf ss) - sb_len (ds_sendBuf ss)) < length src"
      "length src \<le> unat (sb_space (ds_sendBuf ss))"
  shows "\<exists>ss'. ssl3_AppendHandshakeInternal env src bytes True ss = Some (Inr (), ss') \<and>
    (let room = unat (sb_space (ds_sendBuf ss) - sb_len (ds_sendBuf ss)) in
     ds_lastMessageFlight ss' = ds_lastMessageFlight ss @
       [\<lparr>qm_cwSpec = ds_cwSpec ss, qm_type = ssl_ct_handshake,
         qm_data = sslBuffer_contents (ds_sendBuf ss) @ take room src,
         qm_len = ucast (sb_space (ds_sendBuf ss))\<rparr>] \<and>
     sslBuffer_contents (ds_sendBuf ss') = drop room src)"
proof -
  let ?b = "ds_sendBuf ss"
  define room where "room = sb_space ?b - sb_len ?b"
  have le: "sb_len ?b \<le> sb_space ?b" using inv by (simp add: sslBuffer_inv_def)
  have sum: "sb_len ?b + room = sb_space ?b" by (simp add: room_def)
  have usum: "unat (sb_len ?b) + unat room = unat (sb_space ?b)"
    using le by (simp add: room_def unat_sub word_le_nat_alt)
  have gt: "room < bytes" using bytes(1,2) by (simp add: word_less_nat_alt room_def)
  have rl: "unat room < length src" using gt bytes(1) by (simp add: word_less_nat_alt)
  obtain b1 where b1: "sslBuffer_put ?b (unat (sb_len ?b)) (take (unat room) src) = Inr b1"
      "sb_len b1 = sb_len ?b" "sb_space b1 = sb_space ?b" "sslBuffer_inv (b1\<lparr>sb_len := sb_len ?b + room\<rparr>)"
      "sslBuffer_contents (b1\<lparr>sb_len := sb_len ?b + room\<rparr>) = sslBuffer_contents ?b @ take (unat room) src"
    using sslBuffer_put_end [OF inv, of "take (unat room) src" room] usum rl by auto
  let ?msg = "\<lparr>qm_cwSpec = ds_cwSpec ss, qm_type = ssl_ct_handshake,
         qm_data = sslBuffer_contents ?b @ take (unat room) src, qm_len = ucast (sb_space ?b)\<rparr>"
  let ?ss2 = "ss\<lparr>ds_sendBuf := b1\<lparr>sb_len := 0\<rparr>, ds_lastMessageFlight := ds_lastMessageFlight ss @ [?msg]\<rparr>"
  have flush: "ssl3_FlushHandshake env True (ss\<lparr>ds_sendBuf := b1\<lparr>sb_len := sb_space ?b\<rparr>\<rparr>) = Some (Inr (), ?ss2)"
    using ssl3_FlushHandshake_queues [OF assms(1,2), of "ss\<lparr>ds_sendBuf := b1\<lparr>sb_len := sb_space ?b\<rparr>\<rparr>"]
      assms(3) dtls full b1(4,5) sum by (simp add: word_le_nat_alt)
  have rest: "unat (bytes - room) = length (drop (unat room) src)"
    using gt bytes(1) by (simp add: unat_sub word_less_nat_alt word_le_nat_alt)
  have inv2: "sslBuffer_inv (b1\<lparr>sb_len := 0\<rparr>)" using b1(3,4) by (simp add: sslBuffer_inv_def split: option.splits)
  have small: "length (drop (unat room) src) \<le> unat (sb_space (ds_sendBuf ?ss2))" using bytes(3) b1(3) by simp
  have sp: "sb_space (ds_sendBuf ?ss2) = sb_space ?b" using b1(3) by simp
  obtain b3 where b3: "ssl3_AppendHandshake_loop env (drop (unat room) src) (bytes - room) (sb_space ?b) ?ss2 =
      Some (Inr (), ?ss2\<lparr>ds_sendBuf := b3\<rparr>)" "sslBuffer_contents b3 = drop (unat room) src"
    using ssl3_AppendHandshake_loop_last [OF _ _ rest small, of env] inv2 unfolding sp by auto
  have "mem_read src 0 (unat room) = Inr (take (unat room) src)" using rl by (simp add: mem_read_def)
  then have "ssl3_AppendHandshake_loop env src bytes room ss =
      ssl3_AppendHandshake_loop env (drop (unat room) src) (bytes - room) (sb_space ?b) ?ss2"
    using gt b1(1,2,3) sum flush by (subst ssl3_AppendHandshake_loop.simps) (simp add: Let_def)
  moreover have "bytes \<noteq> 0" "\<not> sb_space ?b < MAX_SEND_BUF_LENGTH" using bytes full by auto
  ultimately have "ssl3_AppendHandshakeInternal env src bytes True ss = Some (Inr (), ?ss2\<lparr>ds_sendBuf := b3\<rparr>)"
    using b3(1) by (simp add: ssl3_AppendHandshakeInternal_def Let_def room_def [symmetric] run_bind_def)
  then show ?thesis using b3(2) by (simp add: room_def [symmetric])
qed

section \<open>A concrete sender\<close>

text \<open>
  The world is the list of datagrams sent; the null protection appends the plaintext.
\<close>

definition null_MACEncryptRecord ::
    "ssl3CipherSpec \<Rightarrow> byte \<Rightarrow> byte list \<Rightarrow> u32 \<Rightarrow> sslBuffer \<Rightarrow> sslBuffer result \<times> ssl3CipherSpec" where
  "null_MACEncryptRecord spec ct pIn n b =
     (if unat n \<le> length pIn \<and> unat (sb_len b) + unat n < 2 ^ 32
      then sslBuffer_Append zero_nspr b pIn n else Inl SEC_ERROR_LIBRARY_FAILURE, spec)"

definition example_env :: "byte list list dtls_env" where
  "example_env =
     \<lparr>en_nspr = zero_nspr, en_token = plain_token, en_MACEncryptRecord = null_MACEncryptRecord,
      en_DefSend = (\<lambda>d w. (Inr (of_nat (length d)), w @ [d])), en_IntervalNow = (\<lambda>w. of_nat (length w)),
      en_MillisecondsToInterval = id, en_recordWriteCallback = None,
      en_UpdateHandshakeHashes = (\<lambda>bs w. (Inr (), w)), en_SendAlert = (\<lambda>a ss. ss),
      en_UpdateTrafficKeys = (\<lambda>ss. (Inr (), ss)), en_RestartHandshakeHashes = id,
      en_AuthCertificate = (\<lambda>ss. (Inr (), ss)), en_ProcessMessage = (\<lambda>bs ss. (Inr (), ss))\<rparr>"

definition idle_timer :: dtlsTimer where
  "idle_timer = \<lparr>tm_cb = None, tm_started = 0, tm_timeout = 0\<rparr>"

definition example_socket :: "byte list list dtls_socket" where
  "example_socket =
     \<lparr>IS_DTLS = True, ss_version = 0x0304, ss_isServer = True, ss_enableDtlsShortHeader = False,
      ss_zeroRttIgnore = ssl_0rtt_ignore_none, ss_zeroRttAccepted = False, ss_idleHandshake = False,
      ss_rejectCcs = False, ss_allowPreviousEpoch = False, ss_firstHsDone = False,
      ss_fatalAlertSent = False, ss_tokenPresent = True,
      ds_specs = (\<lambda>_. gcm_spec\<lparr>cs_version := 0x0303, cs_epoch := 0, cs_recordSizeLimit := 0x4000\<rparr>),
      ds_cwSpec = 0, ds_crEpoch = 0, ds_vrangeMax = 0x0304, ds_preinfoVersion = False, ds_handshakeBegun = False,
      ds_mtu = 1252, ds_pendingBuf = SSL_BUFFER_EMPTY, ds_writeBuf = SSL_BUFFER_EMPTY,
      ds_sendBuf = SSL_BUFFER_EMPTY, ds_ws = wait_client_hello, ds_sendMessageSeq = 0,
      ds_lastMessageFlight = [], ds_maxMessageSent = 1400, ds_recvMessageSeq = 0,
      ds_recvdFragments = SSL_BUFFER_EMPTY, ds_recvdHighWater = -1, ds_msg_body = SSL_BUFFER_EMPTY,
      ds_msg_type = 0, ds_msg_len = 0, ds_rtTimer = idle_timer, ds_ackTimer = idle_timer,
      ds_hdTimer = idle_timer, ds_rtRetries = 0, ds_dtlsSentHandshake = [], ds_dtlsRcvdHandshake = [],
      ds_isKeyUpdateInProgress = False, ds_dtlsHandhakeKeyUpdateMessage = 0, ds_helloRetry = False,
      ds_endOfFlight = False, ds_readSpecs = [], ds_sentRecords = [], ds_datagrams = [],
      ds_world = []\<rparr>"

definition example_message :: DTLSQueuedMessage where
  "example_message = \<lparr>qm_cwSpec = 0, qm_type = ssl_ct_handshake,
     qm_data = [2, 0, 0, 3, 0, 5, 0, 0, 0, 0, 0, 3, 0xa, 0xb, 0xc], qm_len = 15\<rparr>"

definition example_entry :: DTLSHandshakeRecordEntry where
  "example_entry = \<lparr>re_messageSeq = 5, re_offset = 0, re_length = 1, re_record = 7, re_acked = True\<rparr>"

definition example_sender :: "byte list list dtls_socket" where
  "example_sender = example_socket\<lparr>ds_lastMessageFlight := [example_message],
     ds_dtlsSentHandshake := [example_entry]\<rparr>"

lemma null_MACEncryptRecord_ok: "mac_encrypt_ok null_MACEncryptRecord"
proof -
  have "buf_upto (unat (sb_len b) + unat n + 64) (sslBuffer_Append zero_nspr b pIn n)"
    if "unat n \<le> length pIn" "unat (sb_len b) + unat n < 2 ^ 32" "sslBuffer_inv b" for b n and pIn :: "byte list"
  proof (cases "sslBuffer_Append zero_nspr b pIn n")
    case (Inl e)
    then show ?thesis by simp
  next
    case (Inr b')
    then have "sslBuffer_inv b'" "sslBuffer_contents b' = sslBuffer_contents b @ take (unat n) pIn"
      using sslBuffer_Append_appends [OF zero_nspr_ok that(3,1,2)] by (simp_all add: sslBuffer_appends_def)
    then have "unat (sb_len b') = unat (sb_len b) + unat n"
      using length_sslBuffer_contents [of b] length_sslBuffer_contents [of b'] that by simp
    then show ?thesis using Inr \<open>sslBuffer_inv b'\<close> by (simp add: buf_upto_def)
  qed
  then show ?thesis by (simp add: mac_encrypt_ok_def null_MACEncryptRecord_def)
qed

lemma example_env_tx_ok:
  "sslBuffer_inv (ds_pendingBuf ss) \<Longrightarrow> ds_writeBuf ss = SSL_BUFFER_EMPTY \<Longrightarrow> ds_mtu ss = 1252 \<Longrightarrow> tx_ok example_env ss"
  using plain_token_works zero_nspr_ok null_MACEncryptRecord_ok sslBuffer_inv_SSL_BUFFER_EMPTY
  by (auto simp: tx_ok_def example_env_def aead_token_works_def SSL_BUFFER_EMPTY_def unat_of_nat)

lemma example_sender_ok:
  "tx_ok example_env example_sender" "sb_len (ds_pendingBuf example_sender) = 0"
  "entries_ok (ds_dtlsSentHandshake example_sender)"
  "\<forall>msg \<in> set (ds_lastMessageFlight example_sender). queued_ok example_sender msg"
proof -
  show "tx_ok example_env example_sender"
    by (rule example_env_tx_ok) (simp_all add: example_sender_def example_socket_def sslBuffer_inv_SSL_BUFFER_EMPTY)
  show "sb_len (ds_pendingBuf example_sender) = 0"
    by (simp add: example_sender_def example_socket_def SSL_BUFFER_EMPTY_def)
  show "entries_ok (ds_dtlsSentHandshake example_sender)"
    by (simp add: example_sender_def example_entry_def entries_ok_def)
  have "message_ok example_message"
    by (simp add: message_ok_def content_len_def example_message_def be_bytes_numeral)
  then show "\<forall>msg \<in> set (ds_lastMessageFlight example_sender). queued_ok example_sender msg"
    by (simp add: queued_ok_def example_sender_def example_socket_def spec_sendable_def gcm_spec_def
        ssl3BulkCipherDef.make_def example_message_def)
qed


theorem dtls_unacked_range_exact_witness:
  "dtls_NextUnackedRange example_sender 5 0 3 = Some (1, 3) \<and>
   (LEAST i. i \<notin> acked_bytes (ds_dtlsSentHandshake example_sender) 5) = 1"
proof -
  have run: "dtls_NextUnackedRange example_sender 5 0 3 = Some (1, 3)"
    by (simp add: dtls_NextUnackedRange_def tls13_MaybeTls13_def example_sender_def example_socket_def
        example_entry_def dtls_UnackedLoop.simps dtls_MoveUnackedStartForward_def dtls_MoveUnackedEndBackward_def
        word_le_nat_alt)
  have m: "tls13_MaybeTls13 example_sender"
    by (simp add: tls13_MaybeTls13_def example_sender_def example_socket_def)
  show ?thesis
    using dtls_unacked_range_exact [OF m _ example_sender_ok(3), of 0 3 5] run by simp
qed

theorem dtls_mtu_backoff_stops_witness:
  "\<exists>ss'. RetransmitTimerExpired example_env example_sender = Some ss' \<and> 1252 \<le> ds_mtu ss' \<and>
     1253 < ds_maxMessageSent ss'"
  by (rule dtls_mtu_backoff_stops [OF example_sender_ok]) (simp_all add: example_sender_def example_socket_def)

theorem dtls_oversize_message_split_witness:
  "\<exists>ss'. ssl3_AppendHandshakeInternal example_env [7] 1 True
       (example_socket\<lparr>ds_sendBuf :=
          \<lparr>sb_buf = Some (replicate 32000 0), sb_len = 32000, sb_space = 32000, sb_fixed = False\<rparr>\<rparr>) =
       Some (Inr (), ss') \<and>
     map qm_data (ds_lastMessageFlight ss') = [replicate 32000 0] \<and>
     sslBuffer_contents (ds_sendBuf ss') = [7]"
proof -
  let ?ss = "example_socket\<lparr>ds_sendBuf :=
          \<lparr>sb_buf = Some (replicate 32000 0), sb_len = 32000, sb_space = 32000, sb_fixed = False\<rparr>\<rparr>"
  have a: "nspr_ok (en_nspr example_env)"
    "PORT_ZAlloc (en_nspr example_env) sizeof_DTLSQueuedMessage = Inr (replicate 48 0)"
    "PORT_Alloc (en_nspr example_env) (unat (sb_space (ds_sendBuf ?ss))) = Inr (replicate 32000 0)"
    using zero_nspr_ok by (simp_all add: example_env_def PORT_ZAlloc_def PORT_Alloc_def zero_nspr_def MAX_SIZE_def)
  have b: "IS_DTLS ?ss" "sslBuffer_inv (ds_sendBuf ?ss)" "32000 \<le> sb_space (ds_sendBuf ?ss)"
    by (simp_all add: example_socket_def sslBuffer_inv_def)
  show ?thesis
    using dtls_oversize_message_split [OF a b, of 1 "[7]"]
    by (auto simp: example_socket_def sslBuffer_contents_def)
qed

end
