(* ===== verification/Dtls_Ack.thy ===== *)
theory Dtls_Ack
  imports Dtls_Flight
begin

text \<open>
  Acknowledgements of DTLS 1.3, \<^verbatim>\<open>lib/ssl/dtls13con.c\<close>, and the timers that drive them,
  \<^verbatim>\<open>dtls_CheckTimer\<close> of \<^verbatim>\<open>lib/ssl/dtlscon.c\<close>. A receiver lists the records of
  the current flight in an ACK; the sender marks the fragments those records carried and transmits
  what is left of its flight. The lemmas give the exact bytes of an ACK and what handling them marks.
\<close>

section \<open>Reading numbers from a handshake message\<close>

text \<open>A generic error with an alert; the result is the code the error indicator has afterwards.\<close>

definition ssl3_DecodeError :: "'w dtls_env \<Rightarrow> 'w dtls_socket \<Rightarrow> sec_error \<times> 'w dtls_socket" where
  "ssl3_DecodeError env ss =
     (if ss_isServer ss then SSL_ERROR_BAD_CLIENT else SSL_ERROR_BAD_SERVER,
      en_SendAlert env
        (if ss_version ss > SSL_LIBRARY_VERSION_3_0 then decode_error else illegal_parameter) ss)"

definition tls13_FatalError ::
    "'w dtls_env \<Rightarrow> 'w dtls_socket \<Rightarrow> sec_error \<Rightarrow> SSL3AlertDescription \<Rightarrow> sec_error \<times> 'w dtls_socket" where
  "tls13_FatalError env ss prError desc = (prError, en_SendAlert env desc ss)"

text \<open>The bytes not yet read stand for \<^verbatim>\<open>*b\<close> and \<^verbatim>\<open>*length\<close>.\<close>

definition ssl3_ConsumeHandshakeNumber64 ::
    "'w dtls_env \<Rightarrow> nat \<Rightarrow> byte list \<Rightarrow> 'w dtls_socket \<Rightarrow> (u64 \<times> byte list) result \<times> 'w dtls_socket" where
  "ssl3_ConsumeHandshakeNumber64 env bytes b ss =
     (if bytes > 8 then (Inl SEC_ERROR_LIBRARY_FAILURE, ss)
      else if bytes > length b
      then (case ssl3_DecodeError env ss of (e, ss) \<Rightarrow> (Inl e, ss))
      else (Inr (foldl (\<lambda>num x. push_bit 8 num + ucast x) 0 (take bytes b), drop bytes b), ss))"

definition ssl3_ConsumeHandshakeNumber ::
    "'w dtls_env \<Rightarrow> nat \<Rightarrow> byte list \<Rightarrow> 'w dtls_socket \<Rightarrow> (u32 \<times> byte list) result \<times> 'w dtls_socket" where
  "ssl3_ConsumeHandshakeNumber env bytes b ss =
     (if bytes > 4 then (Inl SEC_ERROR_LIBRARY_FAILURE, ss)
      else case ssl3_ConsumeHandshakeNumber64 env bytes b ss of
        (Inl e, ss) \<Rightarrow> (Inl e, ss)
      | (Inr (num64, b), ss) \<Rightarrow> (Inr (ucast (num64 AND 0xffffffff), b), ss))"

section \<open>Sending acknowledgements\<close>

fun dtls13_AckEntries ::
    "nspr \<Rightarrow> sslBuffer \<Rightarrow> DTLSHandshakeRecordEntry list \<Rightarrow> sslBuffer result" where
  "dtls13_AckEntries h buf [] = Inr buf"
| "dtls13_AckEntries h buf (entry # entries) =
     res_bind (sslBuffer_AppendNumber h buf (drop_bit 48 (re_record entry)) 8) (\<lambda>buf.
     res_bind (sslBuffer_AppendNumber h buf (re_record entry AND 0xffffffffffff) 8) (\<lambda>buf.
     dtls13_AckEntries h buf entries))"

definition dtls13_AckBuffer :: "nspr \<Rightarrow> DTLSHandshakeRecordEntry list \<Rightarrow> sslBuffer result" where
  "dtls13_AckBuffer h entries =
     res_bind (sslBuffer_Skip h SSL_BUFFER_EMPTY 2) (\<lambda>(buf, offset).
     res_bind (dtls13_AckEntries h buf entries) (\<lambda>buf.
     sslBuffer_InsertLength buf offset 2))"

definition dtls13_SendAck :: "'w dtls_env \<Rightarrow> 'w dtls_socket \<Rightarrow> (unit result \<times> 'w dtls_socket) option" where
  "dtls13_SendAck env ss =
     (case dtls13_AckBuffer (en_nspr env) (ds_dtlsRcvdHandshake ss) of
        Inl e \<Rightarrow> Some (Inl e, ss)
      | Inr buf \<Rightarrow>
          run_bind (ssl3_SendRecord env None ssl_ct_ack (sslBuffer_contents buf) False ss)
            (\<lambda>sent ss. Some (if sent \<noteq> sb_len buf then Inl SEC_ERROR_LIBRARY_FAILURE else Inr (), ss)))"

text \<open>The timer callback, which drops the result.\<close>

definition SendAckExpired :: "'w dtls_env \<Rightarrow> 'w dtls_socket \<Rightarrow> 'w dtls_socket option" where
  "SendAckExpired env ss =
     (if \<not> IS_DTLS ss then Some ss else map_option snd (dtls13_SendAck env ss))"

definition dtls13_SetupAcks :: "'w dtls_env \<Rightarrow> 'w dtls_socket \<Rightarrow> (unit result \<times> 'w dtls_socket) option" where
  "dtls13_SetupAcks env ss =
     (if ss_version ss < SSL_LIBRARY_VERSION_TLS_1_3 then Some (Inr (), ss)
      else if ds_endOfFlight ss then
        (let ss = ss\<lparr>ds_ackTimer := dtls_CancelTimer (ds_ackTimer ss)\<rparr> in
         if ds_ws ss = idle_handshake \<and> ss_isServer ss then dtls13_SendAck env ss
         else Some (Inr (), ss))
      else if tm_cb (ds_ackTimer ss) = None then
        Some (Inr (), ss\<lparr>ds_ackTimer :=
          dtls_StartTimer (en_IntervalNow env (ds_world ss)) (DTLS_RETRANSMIT_INITIAL_MS div 4)
            dtls13_SendAckCb (ds_ackTimer ss)\<rparr>)
      else Some (Inr (), ss))"

section \<open>Handling acknowledgements\<close>

definition dtls13_maybeProcessKeyUpdateAck ::
    "'w dtls_env \<Rightarrow> u16 \<Rightarrow> 'w dtls_socket \<Rightarrow> unit result \<times> 'w dtls_socket" where
  "dtls13_maybeProcessKeyUpdateAck env entrySeq ss =
     (if ds_isKeyUpdateInProgress ss \<and> ucast entrySeq = ds_dtlsHandhakeKeyUpdateMessage ss then
        (case en_UpdateTrafficKeys env ss of
           (Inl e, ss) \<Rightarrow> (Inl e, ss)
         | (Inr _, ss) \<Rightarrow> (Inr (), ss\<lparr>ds_isKeyUpdateInProgress := False\<rparr>))
      else (Inr (), ss))"

text \<open>
  The walk over the sent fragments for one record number. \<open>passed\<close> are the entries behind the
  cursor; the update of the traffic keys leaves the list alone.
\<close>

fun dtls13_MarkAcked ::
    "'w dtls_env \<Rightarrow> u64 \<Rightarrow> DTLSHandshakeRecordEntry list \<Rightarrow> DTLSHandshakeRecordEntry list \<Rightarrow>
     'w dtls_socket \<Rightarrow> unit result \<times> 'w dtls_socket" where
  "dtls13_MarkAcked env seq passed [] ss = (Inr (), ss)"
| "dtls13_MarkAcked env seq passed (entry # entries) ss =
     (if re_record entry = seq then
        (let entry' = entry\<lparr>re_acked := True\<rparr> in
         case dtls13_maybeProcessKeyUpdateAck env (re_messageSeq entry)
                (ss\<lparr>ds_dtlsSentHandshake := passed @ entry' # entries\<rparr>) of
           (Inl e, ss) \<Rightarrow> (Inl e, ss)
         | (Inr _, ss) \<Rightarrow> dtls13_MarkAcked env seq (passed @ [entry']) entries ss)
      else dtls13_MarkAcked env seq (passed @ [entry]) entries ss)"

abbreviation RECORD_EPOCH_MAX :: u64 where
  "RECORD_EPOCH_MAX \<equiv> 0xffff"

lemma ssl3_ConsumeHandshakeNumber64_rest:
  "ssl3_ConsumeHandshakeNumber64 env n b ss = (Inr (num, b'), ss') \<Longrightarrow> b' = drop n b \<and> n \<le> length b"
  by (auto simp: ssl3_ConsumeHandshakeNumber64_def split: if_splits prod.splits)

text \<open>
  The loop over the record numbers of an ACK. Reading past the end is the malformed ACK of the label
  \<^verbatim>\<open>loser\<close>; record numbers beyond the limits are skipped.
\<close>

function dtls13_HandleAck_loop ::
    "'w dtls_env \<Rightarrow> byte list \<Rightarrow> 'w dtls_socket \<Rightarrow> unit result \<times> 'w dtls_socket" where
  "dtls13_HandleAck_loop env b ss =
     (if b = [] then (Inr (), ss)
      else case ssl3_ConsumeHandshakeNumber64 env 8 b ss of
        (Inl _, ss) \<Rightarrow> (Inl SSL_ERROR_RX_MALFORMED_DTLS_ACK, ss)
      | (Inr (epoch, b), ss) \<Rightarrow>
          (case ssl3_ConsumeHandshakeNumber64 env 8 b ss of
             (Inl _, ss) \<Rightarrow> (Inl SSL_ERROR_RX_MALFORMED_DTLS_ACK, ss)
           | (Inr (seq, b), ss) \<Rightarrow>
               if epoch > RECORD_EPOCH_MAX then dtls13_HandleAck_loop env b ss
               else if seq > RECORD_SEQ_MAX then dtls13_HandleAck_loop env b ss
               else
                 (case dtls13_MarkAcked env (dtls_CombineSequenceNumber (ucast epoch) seq) []
                         (ds_dtlsSentHandshake ss) ss of
                    (Inl e, ss) \<Rightarrow> (Inl e, ss)
                  | (Inr _, ss) \<Rightarrow> dtls13_HandleAck_loop env b ss)))"
  by pat_completeness auto

termination
  by (relation "measure (\<lambda>(env, b, ss). length b)")
     (auto dest!: ssl3_ConsumeHandshakeNumber64_rest [OF sym])

declare dtls13_HandleAck_loop.simps [simp del]

text \<open>
  Giving up a reference to the read spec of an epoch: the first such spec of the list loses one
  reference, and leaves the list with its last one.
\<close>

fun ssl_CipherSpecRelease :: "u16 \<Rightarrow> (u16 \<times> byte) list \<Rightarrow> (u16 \<times> byte) list" where
  "ssl_CipherSpecRelease epoch [] = []"
| "ssl_CipherSpecRelease epoch ((e, refCt) # specs) =
     (if e \<noteq> epoch then (e, refCt) # ssl_CipherSpecRelease epoch specs
      else if refCt - 1 = 0 then specs
      else (e, refCt - 1) # specs)"

definition ssl_CipherSpecReleaseByEpoch :: "'w dtls_socket \<Rightarrow> u16 \<Rightarrow> 'w dtls_socket" where
  "ssl_CipherSpecReleaseByEpoch ss epoch = ss\<lparr>ds_readSpecs := ssl_CipherSpecRelease epoch (ds_readSpecs ss)\<rparr>"

definition dtls13_AfterAck :: "'w dtls_env \<Rightarrow> 'w dtls_socket \<Rightarrow> 'w dtls_socket" where
  "dtls13_AfterAck env ss =
     (let ss = (if tm_cb (ds_rtTimer ss) \<noteq> None
                then ss\<lparr>ds_rtTimer := dtls_RestartTimer (en_IntervalNow env (ds_world ss)) (ds_rtTimer ss)\<rparr>
                else ss)
      in if ds_lastMessageFlight ss = [] then
           (let ss = ss\<lparr>ds_rtTimer := dtls_CancelTimer (ds_rtTimer ss), ds_dtlsSentHandshake := []\<rparr> in
            if \<not> ss_isServer ss \<and> ds_ws ss = idle_handshake
            then ssl_CipherSpecReleaseByEpoch ss TrafficKeyHandshake else ss)
         else ss)"

definition dtls13_HandleAck ::
    "'w dtls_env \<Rightarrow> byte list \<Rightarrow> 'w dtls_socket \<Rightarrow> (unit result \<times> 'w dtls_socket) option" where
  "dtls13_HandleAck env databuf ss =
     (if \<not> tls13_MaybeTls13 ss then
        (case tls13_FatalError env ss SSL_ERROR_RX_UNKNOWN_RECORD_TYPE illegal_parameter of
           (e, ss) \<Rightarrow> Some (Inl e, ss))
      else case ssl3_ConsumeHandshakeNumber env 2 databuf ss of
        (Inl _, ss) \<Rightarrow> Some (Inl SSL_ERROR_RX_MALFORMED_DTLS_ACK, ss)
      | (Inr (len, b), ss) \<Rightarrow>
          if unat len \<noteq> length b then Some (Inl SSL_ERROR_RX_MALFORMED_DTLS_ACK, ss)
          else
            run_bind (Some (dtls13_HandleAck_loop env b ss)) (\<lambda>_ ss.
            run_bind (dtls_TransmitMessageFlight env ss) (\<lambda>_ ss.
            Some (Inr (), dtls13_AfterAck env ss))))"

text \<open>A record of an epoch other than the current one; the buffer of the caller is emptied.\<close>

definition dtls13_HandleOutOfEpochRecord ::
    "'w dtls_env \<Rightarrow> u16 \<Rightarrow> byte \<Rightarrow> byte list \<Rightarrow> 'w dtls_socket \<Rightarrow> (unit result \<times> 'w dtls_socket) option" where
  "dtls13_HandleOutOfEpochRecord env epoch rType databuf ss =
     (if \<not> IS_DTLS ss \<or> ss_version ss < SSL_LIBRARY_VERSION_TLS_1_3 then
        (case tls13_FatalError env ss SEC_ERROR_LIBRARY_FAILURE internal_error of
           (e, ss) \<Rightarrow> Some (Inl e, ss))
      else if rType = ssl_ct_ack then dtls13_HandleAck env databuf ss
      else if epoch = TrafficKeyClearText then Some (Inr (), ss)
      else if epoch = TrafficKeyHandshake \<and> rType = ssl_ct_handshake then
        (if ss_isServer ss \<and> ds_ws ss = idle_handshake then dtls13_SendAck env ss
         else Some (Inr (), ss))
      else if epoch \<noteq> TrafficKeyHandshake \<and> rType = ssl_ct_application_data then Some (Inr (), ss)
      else Some (Inl SSL_ERROR_RX_UNKNOWN_RECORD_TYPE, en_SendAlert env illegal_parameter ss))"

section \<open>Timers\<close>

definition HolddownTimerExpired :: "'w dtls_socket \<Rightarrow> 'w dtls_socket" where
  "HolddownTimerExpired ss =
     (ssl_CipherSpecReleaseByEpoch ss TrafficKeyHandshake)\<lparr>ds_dtlsRcvdHandshake := []\<rparr>"

definition FinishedTimerExpired :: "'w dtls_socket \<Rightarrow> 'w dtls_socket" where
  "FinishedTimerExpired ss = dtls_FreeHandshakeMessages ss"

text \<open>The call through the function pointer of a timer.\<close>

definition dtls_TimerCall :: "'w dtls_env \<Rightarrow> DTLSTimerCb \<Rightarrow> 'w dtls_socket \<Rightarrow> 'w dtls_socket option" where
  "dtls_TimerCall env cb ss =
     (case cb of
        dtls_RetransmitTimerExpiredCb \<Rightarrow> RetransmitTimerExpired env ss
      | dtls13_SendAckCb \<Rightarrow> SendAckExpired env ss
      | dtls_FinishedTimerCb \<Rightarrow> Some (FinishedTimerExpired ss)
      | dtls13_HolddownTimerCb \<Rightarrow> Some (HolddownTimerExpired ss))"

definition timer_expired :: "'w dtls_env \<Rightarrow> 'w dtls_socket \<Rightarrow> dtlsTimer \<Rightarrow> bool" where
  "timer_expired env ss timer \<longleftrightarrow>
     en_IntervalNow env (ds_world ss) - tm_started timer \<ge> en_MillisecondsToInterval env (tm_timeout timer)"

text \<open>One turn of the loop over the array of timers, which holds these three in this order.\<close>

definition dtls_CheckOneTimer ::
    "'w dtls_env \<Rightarrow> ('w dtls_socket \<Rightarrow> dtlsTimer) \<Rightarrow> (dtlsTimer \<Rightarrow> 'w dtls_socket \<Rightarrow> 'w dtls_socket) \<Rightarrow>
     'w dtls_socket \<Rightarrow> 'w dtls_socket option" where
  "dtls_CheckOneTimer env get put ss =
     (case tm_cb (get ss) of
        None \<Rightarrow> Some ss
      | Some cb \<Rightarrow>
          if timer_expired env ss (get ss)
          then dtls_TimerCall env cb (put (dtls_CancelTimer (get ss)) ss) else Some ss)"

definition dtls_CheckTimer :: "'w dtls_env \<Rightarrow> 'w dtls_socket \<Rightarrow> 'w dtls_socket option" where
  "dtls_CheckTimer env ss =
     Option.bind (dtls_CheckOneTimer env ds_rtTimer (\<lambda>t ss. ss\<lparr>ds_rtTimer := t\<rparr>) ss) (\<lambda>ss.
     Option.bind (dtls_CheckOneTimer env ds_ackTimer (\<lambda>t ss. ss\<lparr>ds_ackTimer := t\<rparr>) ss) (\<lambda>ss.
     dtls_CheckOneTimer env ds_hdTimer (\<lambda>t ss. ss\<lparr>ds_hdTimer := t\<rparr>) ss))"

section \<open>The bytes of an acknowledgement\<close>

definition ack_entry :: "DTLSHandshakeRecordEntry \<Rightarrow> byte list" where
  "ack_entry e = be_bytes 8 (unat (drop_bit 48 (re_record e))) @
     be_bytes 8 (unat (re_record e AND 0xffffffffffff))"

definition ack_list :: "DTLSHandshakeRecordEntry list \<Rightarrow> byte list" where
  "ack_list es = concat (map ack_entry es)"

lemma ack_list_simps [simp]: "ack_list [] = []" "ack_list (e # es) = ack_entry e @ ack_list es"
  by (simp_all add: ack_list_def)

lemma length_ack_list [simp]: "length (ack_list es) = 16 * length es"
  by (induction es) (simp_all add: ack_entry_def)

lemma dtls13_AckEntries_ok:
  assumes "nspr_ok h" "sslBuffer_inv buf" "dtls13_AckEntries h buf es = Inr buf'"
    and "unat (sb_len buf) + 16 * length es < 2 ^ 32"
  shows "sslBuffer_inv buf' \<and> sslBuffer_contents buf' = sslBuffer_contents buf @ ack_list es"
  using assms(2-)
proof (induction es arbitrary: buf)
  case Nil
  then show ?case by simp
next
  case (Cons e es)
  obtain b1 where b1: "sslBuffer_AppendNumber h buf (drop_bit 48 (re_record e)) 8 = Inr b1"
    using Cons.prems(2) by (auto simp: res_bind_Inr_iff)
  obtain b2 where b2: "sslBuffer_AppendNumber h b1 (re_record e AND 0xffffffffffff) 8 = Inr b2"
    "dtls13_AckEntries h b2 es = Inr buf'"
    using Cons.prems(2) b1 by (auto simp: res_bind_Inr_iff)
  have c1: "sslBuffer_inv b1" "sslBuffer_contents b1 = sslBuffer_contents buf @ be_bytes 8 (unat (drop_bit 48 (re_record e)))"
    using sslBuffer_AppendNumber_appends [OF assms(1) Cons.prems(1), of 8 "drop_bit 48 (re_record e)"] b1 Cons.prems(3)
    by (simp_all add: sslBuffer_appends_def)
  have l1: "unat (sb_len b1) = unat (sb_len buf) + 8"
    using c1 length_sslBuffer_contents [OF c1(1)] length_sslBuffer_contents [OF Cons.prems(1)] by simp
  have c2: "sslBuffer_inv b2" "sslBuffer_contents b2 = sslBuffer_contents b1 @ be_bytes 8 (unat (re_record e AND 0xffffffffffff))"
    using sslBuffer_AppendNumber_appends [OF assms(1) c1(1), of 8 "re_record e AND 0xffffffffffff"] b2(1) Cons.prems(3) l1
    by (simp_all add: sslBuffer_appends_def)
  have l2: "unat (sb_len b2) = unat (sb_len buf) + 16"
    using c2 l1 length_sslBuffer_contents [OF c1(1)] length_sslBuffer_contents [OF c2(1)] by simp
  show ?case using Cons.IH [OF c2(1) b2(2)] Cons.prems(3) l2 c1(2) c2(2) by (simp add: ack_entry_def)
qed

lemma dtls13_AckBuffer_ok:
  assumes h: "nspr_ok h" and run: "dtls13_AckBuffer h es = Inr buf" and n: "16 * length es + 2 < 2 ^ 32"
  shows "sslBuffer_inv buf" "sslBuffer_contents buf = be_bytes 2 (16 * length es) @ ack_list es" "16 * length es < 65536"
proof -
  obtain b0 at where b0: "sslBuffer_Skip h SSL_BUFFER_EMPTY 2 = Inr (b0, at)"
    using run by (auto simp: dtls13_AckBuffer_def res_bind_Inr_iff)
  obtain b1 where b1: "dtls13_AckEntries h b0 es = Inr b1" "sslBuffer_InsertLength b1 at 2 = Inr buf"
    using run b0 by (auto simp: dtls13_AckBuffer_def res_bind_Inr_iff)
  have c0: "sslBuffer_inv b0" "at = 0" "sb_len b0 = 2"
    using sslBuffer_Skip_ok [OF h sslBuffer_inv_SSL_BUFFER_EMPTY _ b0] by (simp_all add: SSL_BUFFER_EMPTY_def)
  have c1: "sslBuffer_inv b1" "sslBuffer_contents b1 = sslBuffer_contents b0 @ ack_list es"
    using dtls13_AckEntries_ok [OF h c0(1) b1(1)] c0(3) n by simp_all
  have l0: "length (sslBuffer_contents b0) = 2" using length_sslBuffer_contents [OF c0(1)] c0(3) by simp
  note I = sslBuffer_InsertLength_ok [OF c1(1), of 2 "[]" "sslBuffer_contents b0" "ack_list es" at]
  show "16 * length es < 65536" using I c1(2) c0(2) l0 b1(2) by (simp split: if_splits)
  then show "sslBuffer_inv buf" "sslBuffer_contents buf = be_bytes 2 (16 * length es) @ ack_list es"
    using I c1(2) c0(2) l0 b1(2) by simp_all
qed

section \<open>What handling an acknowledgement marks\<close>

definition mark_records :: "u64 set \<Rightarrow> DTLSHandshakeRecordEntry \<Rightarrow> DTLSHandshakeRecordEntry" where
  "mark_records R e = (if re_record e \<in> R then e\<lparr>re_acked := True\<rparr> else e)"

lemma mark_records_empty [simp]: "mark_records {} = id"
  by (simp add: mark_records_def fun_eq_iff)

lemma mark_records_fields [simp]:
  "re_record (mark_records R e) = re_record e" "re_messageSeq (mark_records R e) = re_messageSeq e"
  "re_offset (mark_records R e) = re_offset e" "re_length (mark_records R e) = re_length e"
  "re_acked (mark_records R e) \<longleftrightarrow> re_acked e \<or> re_record e \<in> R"
  by (simp_all add: mark_records_def)

lemma dtls13_MarkAcked_eq:
  assumes "\<not> ds_isKeyUpdateInProgress ss" "ds_dtlsSentHandshake ss = passed @ es"
  shows "dtls13_MarkAcked env seq passed es ss = (Inr (), ss\<lparr>ds_dtlsSentHandshake := passed @ map (mark_records {seq}) es\<rparr>)"
  using assms
  by (induction es arbitrary: passed ss)
     (simp_all add: Let_def mark_records_def dtls13_maybeProcessKeyUpdateAck_def)

lemma ssl3_ConsumeHandshakeNumber64_append:
  assumes "length bs = n" "n \<le> 8"
  shows "ssl3_ConsumeHandshakeNumber64 env n (bs @ rest) ss = (Inr (word_of_nat (be_value bs), rest), ss)"
proof -
  define num :: u64 where "num = foldl (\<lambda>num x. push_bit 8 num + ucast x) 0 bs"
  have u: "be_value bs = unat num" using assms foldl_number_be_value [of bs] by (simp add: num_def)
  have "num = word_of_nat (be_value bs)" unfolding u by simp
  then show ?thesis using assms by (simp add: ssl3_ConsumeHandshakeNumber64_def num_def)
qed

lemma record_number_split:
  fixes r :: u64
  shows "unat (drop_bit 48 r) < 65536" "unat (r AND 0xffffffffffff) < 2 ^ 48"
    "dtls_CombineSequenceNumber (ucast (drop_bit 48 r)) (r AND 0xffffffffffff) = r"
proof -
  have m: "r AND 0xffffffffffff = take_bit 48 r"
    by (simp add: take_bit_eq_mask mask_eq_exp_minus_1)
  show "unat (drop_bit 48 r) < 65536"
    using unsigned_less [of r, where 'a = nat] by (simp add: unat_drop_bit_eq drop_bit_eq_div)
  show "unat (r AND 0xffffffffffff) < 2 ^ 48"
    unfolding m using take_bit_nat_less_exp [of 48 "unat r"] by (simp add: unsigned_take_bit_eq)
  show "dtls_CombineSequenceNumber (ucast (drop_bit 48 r)) (r AND 0xffffffffffff) = r"
    unfolding m dtls_CombineSequenceNumber_def
    by (rule bit_eqI) (auto simp: bit_simps)
qed

lemma dtls13_HandleAck_loop_list:
  assumes "\<not> ds_isKeyUpdateInProgress ss"
  shows "dtls13_HandleAck_loop env (ack_list es) ss =
    (Inr (), ss\<lparr>ds_dtlsSentHandshake := map (mark_records (re_record ` set es)) (ds_dtlsSentHandshake ss)\<rparr>)"
  using assms
proof (induction es arbitrary: ss)
  case Nil
  show ?case by (subst dtls13_HandleAck_loop.simps) simp
next
  case (Cons e es)
  let ?r = "re_record e"
  let ?e = "be_bytes 8 (unat (drop_bit 48 ?r))" and ?s = "be_bytes 8 (unat (?r AND 0xffffffffffff))"
  note R = record_number_split [of ?r]
  have v: "(word_of_nat (be_value ?e) :: u64) = drop_bit 48 ?r" "(word_of_nat (be_value ?s) :: u64) = ?r AND 0xffffffffffff"
    using R(1,2) by (simp_all add: be_simps)
  have lim: "\<not> drop_bit 48 ?r > RECORD_EPOCH_MAX" "\<not> ?r AND 0xffffffffffff > RECORD_SEQ_MAX"
    using R(1,2) by (simp_all add: word_less_nat_alt RECORD_SEQ_MAX_def)
  have c1: "ssl3_ConsumeHandshakeNumber64 env 8 (?e @ ?s @ ack_list es) ss = (Inr (drop_bit 48 ?r, ?s @ ack_list es), ss)"
    using ssl3_ConsumeHandshakeNumber64_append [of ?e 8 env "?s @ ack_list es" ss] v(1) by simp
  have c2: "ssl3_ConsumeHandshakeNumber64 env 8 (?s @ ack_list es) ss = (Inr (?r AND 0xffffffffffff, ack_list es), ss)"
    using ssl3_ConsumeHandshakeNumber64_append [of ?s 8 env "ack_list es" ss] v(2) by simp
  have "length ?e \<noteq> 0" by simp
  then have ne: "?e \<noteq> []" by (simp only: length_0_conv not_False_eq_True)
  have step: "dtls13_HandleAck_loop env (ack_list (e # es)) ss =
      dtls13_HandleAck_loop env (ack_list es)
        (ss\<lparr>ds_dtlsSentHandshake := map (mark_records {?r}) (ds_dtlsSentHandshake ss)\<rparr>)"
    using ne c1 c2 lim R(3) dtls13_MarkAcked_eq [OF Cons.prems, of "[]" "ds_dtlsSentHandshake ss" env ?r]
    by (subst dtls13_HandleAck_loop.simps) (simp add: ack_entry_def)
  let ?ss = "ss\<lparr>ds_dtlsSentHandshake := map (mark_records {?r}) (ds_dtlsSentHandshake ss)\<rparr>"
  have "mark_records (re_record ` set es) \<circ> mark_records {?r} = mark_records (re_record ` set (e # es))"
    by (rule ext) (simp add: mark_records_def)
  moreover have "\<not> ds_isKeyUpdateInProgress ?ss" using Cons.prems by simp
  ultimately show ?case unfolding step by (subst Cons.IH) simp_all
qed

lemma dtls13_HandleAck_bytes:
  assumes m: "tls13_MaybeTls13 ss" and k: "\<not> ds_isKeyUpdateInProgress ss" and n: "16 * length es < 65536"
  shows "dtls13_HandleAck env (be_bytes 2 (16 * length es) @ ack_list es) ss =
    run_bind (dtls_TransmitMessageFlight env
        (ss\<lparr>ds_dtlsSentHandshake := map (mark_records (re_record ` set es)) (ds_dtlsSentHandshake ss)\<rparr>))
      (\<lambda>_ ss. Some (Inr (), dtls13_AfterAck env ss))"
proof -
  let ?n = "16 * length es"
  have "unat (ucast ((word_of_nat k :: u64) AND 0xffffffff) :: u32) = k" if "k < 65536" for k
  proof -
    have "(word_of_nat k :: u64) AND 0xffffffff = take_bit 32 (word_of_nat k)"
      by (simp add: take_bit_eq_mask mask_eq_exp_minus_1)
    then show ?thesis using that by (simp add: unsigned_ucast_eq unsigned_take_bit_eq take_bit_nat_eq_self unat_of_nat)
  qed
  from this [OF n] have "unat (ucast ((word_of_nat ?n :: u64) AND 0xffffffff) :: u32) = ?n" .
  moreover have "ssl3_ConsumeHandshakeNumber64 env 2 (be_bytes 2 ?n @ ack_list es) ss =
      (Inr (word_of_nat ?n, ack_list es), ss)"
    using ssl3_ConsumeHandshakeNumber64_append [of "be_bytes 2 ?n" 2 env "ack_list es" ss] n by (simp add: be_simps)
  ultimately have "\<exists>l. ssl3_ConsumeHandshakeNumber env 2 (be_bytes 2 ?n @ ack_list es) ss = (Inr (l, ack_list es), ss) \<and>
      unat l = length (ack_list es)"
    by (simp add: ssl3_ConsumeHandshakeNumber_def)
  then show ?thesis
    using m by (auto simp: dtls13_HandleAck_def dtls13_HandleAck_loop_list [OF k] run_bind_def)
qed

lemma ssl3_SendRecord_last:
  assumes "ssl3_SendRecord env None ct pIn force ss = Some (Inr n, ss')"
  shows "last (ds_sentRecords ss') = (ds_cwSpec ss, ct, pIn)"
  using assms by (auto simp: ssl3_SendRecord_def run_bind_def Let_def split: if_splits option.splits sum.splits)

lemma acked_bytes_mark:
  "i \<in> acked_bytes (map (mark_records R) es) q \<longleftrightarrow>
     i \<in> acked_bytes es q \<or>
     (\<exists>e \<in> set es. re_record e \<in> R \<and> re_messageSeq e = q \<and>
        unat (re_offset e) \<le> i \<and> i < unat (re_offset e) + unat (re_length e))"
  by (auto simp: acked_bytes_def)

lemma entries_ok_mark [simp]: "entries_ok (map (mark_records R) es) = entries_ok es"
  by (simp add: entries_ok_def)

text \<open>
  C34: an acknowledgement reaches the sender intact. When the receiver has sent an ACK in one record,
  handling the bytes of that record at a sender that is not updating its keys marks exactly the
  fragments whose record number is among the records the receiver remembered, and then transmits what
  is left of the flight.
\<close>

theorem dtls_ack_roundtrip:
  assumes "nspr_ok (en_nspr renv)"
    and fits: "16 * length (ds_dtlsRcvdHandshake rs) + 2 \<le> unat (cs_recordSizeLimit (ds_specs rs (ds_cwSpec rs)))"
    and send: "dtls13_SendAck renv rs = Some (Inr (), rs')"
    and m: "tls13_MaybeTls13 ss" and k: "\<not> ds_isKeyUpdateInProgress ss"
  shows "\<exists>bytes. last (ds_sentRecords rs') = (ds_cwSpec rs, ssl_ct_ack, bytes) \<and>
    dtls13_HandleAck env bytes ss =
      run_bind (dtls_TransmitMessageFlight env
          (ss\<lparr>ds_dtlsSentHandshake :=
             map (\<lambda>e. if re_record e \<in> re_record ` set (ds_dtlsRcvdHandshake rs) then e\<lparr>re_acked := True\<rparr> else e)
               (ds_dtlsSentHandshake ss)\<rparr>))
        (\<lambda>_ ss. Some (Inr (), dtls13_AfterAck env ss))"
proof -
  let ?es = "ds_dtlsRcvdHandshake rs"
  have n: "16 * length ?es + 2 < 2 ^ 32"
    using fits unsigned_less [of "cs_recordSizeLimit (ds_specs rs (ds_cwSpec rs))", where 'a = nat] by simp
  obtain buf where buf: "dtls13_AckBuffer (en_nspr renv) ?es = Inr buf"
    using send by (auto simp: dtls13_SendAck_def split: sum.splits)
  obtain c where c: "ssl3_SendRecord renv None ssl_ct_ack (sslBuffer_contents buf) False rs = Some (Inr c, rs')"
    using send buf by (auto simp: dtls13_SendAck_def run_bind_def split: sum.splits option.splits if_splits)
  note A = dtls13_AckBuffer_ok [OF assms(1) buf n]
  show ?thesis
    using ssl3_SendRecord_last [OF c] dtls13_HandleAck_bytes [OF m k A(3), of env] A(2)
    by (simp add: mark_records_def [abs_def])
qed

text \<open>
  C35: acknowledging everything ends the flight. If each byte of each message of the flight was sent in
  some record the ACK lists, handling the ACK succeeds, sends nothing more, empties the flight, forgets
  the sent fragments and stops the retransmission timer.
\<close>

theorem dtls_ack_completes_flight:
  assumes "nspr_ok h" and buf: "dtls13_AckBuffer h acks = Inr buf" and n: "length acks < 4096"
    and m: "tls13_MaybeTls13 ss" and k: "\<not> ds_isKeyUpdateInProgress ss"
    and ent: "entries_ok (ds_dtlsSentHandshake ss)" and pend: "sb_len (ds_pendingBuf ss) = 0"
    and flight: "\<forall>msg \<in> set (ds_lastMessageFlight ss).
      qm_type msg = ssl_ct_handshake \<and> message_ok msg \<and> 0 < content_len msg \<and>
      (\<forall>i < content_len msg. \<exists>e \<in> set (ds_dtlsSentHandshake ss).
         re_record e \<in> re_record ` set acks \<and> re_messageSeq e = queued_seq msg \<and>
         unat (re_offset e) \<le> i \<and> i < unat (re_offset e) + unat (re_length e))"
  shows "\<exists>ss'. dtls13_HandleAck env (sslBuffer_contents buf) ss = Some (Inr (), ss') \<and>
    ds_lastMessageFlight ss' = [] \<and> ds_dtlsSentHandshake ss' = [] \<and> tm_cb (ds_rtTimer ss') = None \<and>
    ds_sentRecords ss' = ds_sentRecords ss \<and> ds_datagrams ss' = ds_datagrams ss"
proof -
  let ?R = "re_record ` set acks"
  let ?ss = "ss\<lparr>ds_dtlsSentHandshake := map (mark_records ?R) (ds_dtlsSentHandshake ss)\<rparr>"
  note A = dtls13_AckBuffer_ok [OF assms(1) buf]
  have "tls13_MaybeTls13 ?ss" using m by (simp add: tls13_MaybeTls13_def)
  then have "message_done ?ss msg" if "msg \<in> set (ds_lastMessageFlight ss)" for msg
    using flight that by (auto simp: message_done_def all_acked_def sock_acked_def acked_bytes_mark)
  then have "dtls_TransmitMessageFlight env ?ss = Some (Inr (), ?ss\<lparr>ds_lastMessageFlight := []\<rparr>)"
    using ent pend by (intro dtls_TransmitMessageFlight_done) simp_all
  then have run: "dtls13_HandleAck env (sslBuffer_contents buf) ss =
      Some (Inr (), dtls13_AfterAck env (?ss\<lparr>ds_lastMessageFlight := []\<rparr>))"
    using dtls13_HandleAck_bytes [OF m k, of acks env] A(2) n by (simp add: run_bind_def)
  show ?thesis unfolding run
    by (auto simp: dtls13_AfterAck_def ssl_CipherSpecReleaseByEpoch_def dtls_CancelTimer_def Let_def)
qed

lemma flight_moves_timers:
  assumes "flight_moves env ss ss'"
  shows "ds_rtTimer ss' = ds_rtTimer ss" "ds_ackTimer ss' = ds_ackTimer ss" "ds_hdTimer ss' = ds_hdTimer ss"
proof -
  have c: "control_part (ss'\<lparr>ds_lastMessageFlight := []\<rparr>) = control_part (ss\<lparr>ds_lastMessageFlight := []\<rparr>)"
    using assms by (simp add: flight_moves_def flight_step_def sends_only_def)
  show "ds_rtTimer ss' = ds_rtTimer ss" "ds_ackTimer ss' = ds_ackTimer ss" "ds_hdTimer ss' = ds_hdTimer ss"
    using arg_cong [OF c, of ds_rtTimer] arg_cong [OF c, of ds_ackTimer] arg_cong [OF c, of ds_hdTimer]
    by (simp_all add: control_part_def)
qed


section \<open>Concrete acknowledgements\<close>

text \<open>A receiver that remembers one record and hands its records to a callback.\<close>

definition example_receiver :: "byte list list dtls_socket" where
  "example_receiver = example_socket\<lparr>ds_dtlsRcvdHandshake := [example_entry]\<rparr>"

definition callback_env :: "byte list list dtls_env" where
  "callback_env = example_env\<lparr>en_recordWriteCallback := Some (\<lambda>epoch ct data w. (Inr (), w))\<rparr>"

definition example_sent :: "byte list list dtls_socket" where
  "example_sent = example_socket\<lparr>ds_lastMessageFlight := [example_message],
     ds_dtlsSentHandshake := [example_entry\<lparr>re_acked := False, re_length := 3\<rparr>]\<rparr>"

lemma example_AckBuffer: "\<exists>buf. dtls13_AckBuffer zero_nspr [example_entry] = Inr buf \<and> sslBuffer_inv buf"
proof -
  define b0 where "b0 = \<lparr>sb_buf = Some (replicate 2048 (0 :: byte)), sb_len = 2, sb_space = 2048, sb_fixed = False\<rparr>"
  have skip: "sslBuffer_Skip zero_nspr SSL_BUFFER_EMPTY 2 = Inr (b0, 0)"
    by (simp add: sslBuffer_Skip_def sslBuffer_Grow_def SSL_BUFFER_EMPTY_def PORT_Alloc_def zero_nspr_def
        MAX_SIZE_def b0_def max_def word_le_nat_alt)
  have "sslBuffer_room b0 2046" by (simp add: sslBuffer_room_def sslBuffer_inv_def b0_def word_le_nat_alt)
  from sslBuffer_AppendNumber_room [OF this, of 8 zero_nspr "drop_bit 48 (re_record example_entry)"]
  obtain b1 where b1: "sslBuffer_AppendNumber zero_nspr b0 (drop_bit 48 (re_record example_entry)) 8 = Inr b1"
      "sslBuffer_room b1 2038" "length (sslBuffer_contents b1) = 10"
    using length_sslBuffer_contents [of b0] by (auto simp: b0_def sslBuffer_inv_def word_le_nat_alt)
  from sslBuffer_AppendNumber_room [OF b1(2), of 8 zero_nspr "re_record example_entry AND 0xffffffffffff"]
  obtain b2 where b2: "sslBuffer_AppendNumber zero_nspr b1 (re_record example_entry AND 0xffffffffffff) 8 = Inr b2"
      "sslBuffer_inv b2" "length (sslBuffer_contents b2) = 18"
    using b1(3) by (auto simp: sslBuffer_room_def)
  have con: "sslBuffer_contents b2 = [] @ take 2 (sslBuffer_contents b2) @ drop 2 (sslBuffer_contents b2)" by simp
  obtain buf where "sslBuffer_InsertLength b2 0 2 = Inr buf" "sslBuffer_inv buf"
    using sslBuffer_InsertLength_ok [OF b2(2) _ con, of 2 0] b2(3) by auto
  then show ?thesis using skip b1(1) b2(1) by (simp add: dtls13_AckBuffer_def)
qed

lemma example_SendAck: "\<exists>rs'. dtls13_SendAck callback_env example_receiver = Some (Inr (), rs')"
proof -
  obtain buf where "dtls13_AckBuffer zero_nspr [example_entry] = Inr buf" "sslBuffer_inv buf"
    using example_AckBuffer by blast
  then show ?thesis
    using length_sslBuffer_contents [of buf]
    by (simp add: dtls13_SendAck_def callback_env_def example_env_def example_receiver_def example_socket_def
        ssl3_SendRecord_def run_bind_def)
qed

theorem dtls_ack_roundtrip_witness:
  "\<exists>rs' bytes. dtls13_SendAck callback_env example_receiver = Some (Inr (), rs') \<and>
     last (ds_sentRecords rs') = (0, ssl_ct_ack, bytes) \<and>
     dtls13_HandleAck example_env bytes example_sent =
       run_bind (dtls_TransmitMessageFlight example_env
           (example_sent\<lparr>ds_dtlsSentHandshake := [example_entry\<lparr>re_length := 3\<rparr>]\<rparr>))
         (\<lambda>_ ss. Some (Inr (), dtls13_AfterAck example_env ss))"
proof -
  obtain rs' where s: "dtls13_SendAck callback_env example_receiver = Some (Inr (), rs')" using example_SendAck ..
  have a: "nspr_ok (en_nspr callback_env)" using zero_nspr_ok by (simp add: callback_env_def example_env_def)
  have b: "16 * length (ds_dtlsRcvdHandshake example_receiver) + 2
      \<le> unat (cs_recordSizeLimit (ds_specs example_receiver (ds_cwSpec example_receiver)))"
    by (simp add: example_receiver_def example_socket_def)
  have c: "tls13_MaybeTls13 example_sent" "\<not> ds_isKeyUpdateInProgress example_sent"
    by (simp_all add: example_sent_def example_socket_def tls13_MaybeTls13_def)
  show ?thesis
    using s dtls_ack_roundtrip [OF a b s c, of example_env]
    by (simp add: example_receiver_def example_sent_def example_socket_def example_entry_def)
qed

theorem dtls_ack_completes_flight_witness:
  "\<exists>buf ss'. dtls13_AckBuffer zero_nspr [example_entry] = Inr buf \<and>
     dtls13_HandleAck example_env (sslBuffer_contents buf) example_sent = Some (Inr (), ss') \<and>
     ds_lastMessageFlight ss' = [] \<and> ds_sentRecords ss' = []"
proof -
  obtain buf where buf: "dtls13_AckBuffer zero_nspr [example_entry] = Inr buf" using example_AckBuffer by blast
  have m: "message_ok example_message" "content_len example_message = 3" "queued_seq example_message = 5"
    "qm_type example_message = ssl_ct_handshake"
    by (simp_all add: message_ok_def content_len_def queued_seq_def example_message_def be_bytes_numeral)
  have c: "tls13_MaybeTls13 example_sent" "\<not> ds_isKeyUpdateInProgress example_sent"
    "entries_ok (ds_dtlsSentHandshake example_sent)" "sb_len (ds_pendingBuf example_sent) = 0"
    by (simp_all add: example_sent_def example_socket_def tls13_MaybeTls13_def entries_ok_def example_entry_def
        SSL_BUFFER_EMPTY_def)
  show ?thesis
    using dtls_ack_completes_flight [OF zero_nspr_ok buf _ c, of example_env] buf m
    by (auto simp: example_sent_def example_socket_def example_entry_def)
qed


end
