(* ===== verification/Dtls_Reassembly.thy ===== *)
theory Dtls_Reassembly
  imports Dtls_Ack
begin

text \<open>
  The receiving half of the DTLS handshake, \<^verbatim>\<open>dtls_HandleHandshake\<close> of
  \<^verbatim>\<open>lib/ssl/dtlscon.c\<close>: fragments of handshake messages arrive in any order, more than once
  and overlapping; a message is put together in \<^verbatim>\<open>msg_body\<close>, with a high-water mark for the bytes
  known without a gap and a bitmap for those beyond it, and handed to the message handlers when it is
  complete. The specification is the set of bytes known: a fragment adds its bytes to the set, and the
  message is delivered just when the set is full.
\<close>

section \<open>Handing a message to its handler\<close>

abbreviation ssl_hs_hello_request :: byte where
  "ssl_hs_hello_request \<equiv> 0"

abbreviation ssl_hs_client_hello :: byte where
  "ssl_hs_client_hello \<equiv> 1"

abbreviation ssl_hs_server_hello :: byte where
  "ssl_hs_server_hello \<equiv> 2"

abbreviation ssl_hs_hello_verify_request :: byte where
  "ssl_hs_hello_verify_request \<equiv> 3"

abbreviation ssl_hs_certificate_verify :: byte where
  "ssl_hs_certificate_verify \<equiv> 15"

abbreviation ssl_hs_finished :: byte where
  "ssl_hs_finished \<equiv> 20"

abbreviation ssl_hs_certificate_status :: byte where
  "ssl_hs_certificate_status \<equiv> 22"

definition update_hashes :: "'w dtls_env \<Rightarrow> byte list \<Rightarrow> 'w dtls_socket \<Rightarrow> unit result \<times> 'w dtls_socket" where
  "update_hashes env bs ss =
     (case en_UpdateHandshakeHashes env bs (ds_world ss) of (r, w) \<Rightarrow> (r, ss\<lparr>ds_world := w\<rparr>))"

text \<open>
  The message is hashed with a header; before DTLS 1.3, that is the header of an unfragmented message.
\<close>

definition ssl_HashHandshakeMessageInt ::
    "'w dtls_env \<Rightarrow> byte \<Rightarrow> u32 \<Rightarrow> byte list \<Rightarrow> u32 \<Rightarrow> 'w dtls_socket \<Rightarrow> unit result \<times> 'w dtls_socket" where
  "ssl_HashHandshakeMessageInt env ct dtlsSeq b len ss =
     (case update_hashes env [ct, ucast (drop_bit 16 len), ucast (drop_bit 8 len), ucast len] ss of
        (Inl e, ss) \<Rightarrow> (Inl e, ss)
      | (Inr _, ss) \<Rightarrow>
          (case (if IS_DTLS_1_OR_12 (sslSocket.truncate ss)
                 then update_hashes env
                        [ucast (drop_bit 8 dtlsSeq), ucast dtlsSeq, 0, 0, 0,
                         ucast (drop_bit 16 len), ucast (drop_bit 8 len), ucast len] ss
                 else (Inr (), ss)) of
             (Inl e, ss) \<Rightarrow> (Inl e, ss)
           | (Inr _, ss) \<Rightarrow> update_hashes env b ss))"

definition ssl_HashHandshakeMessage ::
    "'w dtls_env \<Rightarrow> byte \<Rightarrow> byte list \<Rightarrow> u32 \<Rightarrow> 'w dtls_socket \<Rightarrow> unit result \<times> 'w dtls_socket" where
  "ssl_HashHandshakeMessage env ct b len ss =
     ssl_HashHandshakeMessageInt env ct (ucast (ds_recvMessageSeq ss)) b len ss"

definition tls13_IsPostHandshake :: "'w dtls_socket \<Rightarrow> bool" where
  "tls13_IsPostHandshake ss \<longleftrightarrow> ss_version ss \<ge> SSL_LIBRARY_VERSION_TLS_1_3 \<and> ss_firstHsDone ss"

text \<open>Hashing of the messages whose handlers do it themselves, or that are never hashed, is skipped.\<close>

definition hash_before_handler ::
    "'w dtls_env \<Rightarrow> byte list \<Rightarrow> u32 \<Rightarrow> 'w dtls_socket \<Rightarrow> unit result \<times> 'w dtls_socket" where
  "hash_before_handler env b len ss =
     (if ds_msg_type ss \<in> {ssl_hs_hello_request, ssl_hs_hello_verify_request, ssl_hs_client_hello,
                           ssl_hs_server_hello, ssl_hs_certificate_verify, ssl_hs_finished} \<or>
         tls13_IsPostHandshake ss
      then (Inr (), ss)
      else ssl_HashHandshakeMessage env (ds_msg_type ss) b len ss)"

text \<open>
  \<open>inBody\<close> says that the message lies in \<^verbatim>\<open>msg_body\<close>, whose bytes are overwritten afterwards; a
  message inside the record buffer is overwritten there, where nobody reads it again.
\<close>

definition ssl3_HandleHandshakeMessage ::
    "'w dtls_env \<Rightarrow> byte list \<Rightarrow> bool \<Rightarrow> u32 \<Rightarrow> bool \<Rightarrow> 'w dtls_socket \<Rightarrow> unit result \<times> 'w dtls_socket" where
  "ssl3_HandleHandshakeMessage env b inBody len endOfRecord ss =
     (let ss = (if ds_msg_type ss = ssl_hs_client_hello
                then ss\<lparr>ds_world := en_RestartHandshakeHashes env (ds_world ss)\<rparr> else ss) in
      case hash_before_handler env b len ss of
        (Inl e, ss) \<Rightarrow> (Inl e, ss)
      | (Inr _, ss) \<Rightarrow>
          (case (if ds_ws ss = wait_certificate_status \<and> ds_msg_type ss \<noteq> ssl_hs_certificate_status
                 then en_AuthCertificate env ss else (Inr (), ss)) of
             (Inl e, ss) \<Rightarrow> (Inl e, ss)
           | (Inr _, ss) \<Rightarrow>
               if ds_msg_type ss = ssl_hs_client_hello \<and> \<not> ss_isServer ss
               then (Inl SSL_ERROR_RX_UNEXPECTED_CLIENT_HELLO, en_SendAlert env unexpected_message ss)
               else if ds_msg_type ss = ssl_hs_server_hello \<and> ss_isServer ss
               then (Inl SSL_ERROR_RX_UNEXPECTED_SERVER_HELLO, en_SendAlert env unexpected_message ss)
               else
                 let epoch = ds_crEpoch ss; (r, ss) = en_ProcessMessage env b ss in
                 if ss_version ss \<ge> SSL_LIBRARY_VERSION_TLS_1_3 \<and> epoch \<noteq> ds_crEpoch ss \<and> \<not> endOfRecord
                 then (Inl SSL_ERROR_RX_UNEXPECTED_HANDSHAKE, en_SendAlert env unexpected_message ss)
                 else
                   let ss = (if IS_DTLS ss \<and> (r = Inr () \<or> r = Inl PR_WOULD_BLOCK_ERROR)
                             then ss\<lparr>ds_recvMessageSeq := ds_recvMessageSeq ss + 1\<rparr> else ss) in
                   case (if inBody then sslBuffer_put (ds_msg_body ss) 0 (replicate (unat len) 78)
                         else Inr (ds_msg_body ss)) of
                     Inl e \<Rightarrow> (Inl e, ss)
                   | Inr body \<Rightarrow> (r, ss\<lparr>ds_msg_body := body\<rparr>)))"

definition dtls_HandleHandshakeMessage ::
    "'w dtls_env \<Rightarrow> byte list \<Rightarrow> bool \<Rightarrow> bool \<Rightarrow> 'w dtls_socket \<Rightarrow> unit result \<times> 'w dtls_socket" where
  "dtls_HandleHandshakeMessage env data inBody endOfRecord ss =
     ssl3_HandleHandshakeMessage env data inBody (ds_msg_len ss) endOfRecord (ss\<lparr>ds_recvdHighWater := -1\<rparr>)"

section \<open>Reassembly\<close>

text \<open>The block a buffer points to; through a null pointer no byte can be reached.\<close>

definition buf_block :: "sslBuffer \<Rightarrow> byte list" where
  "buf_block b = (case sb_buf b of None \<Rightarrow> [] | Some m \<Rightarrow> m)"

definition OFFSET_BYTE :: "nat \<Rightarrow> nat" where
  "OFFSET_BYTE off = off div 8"

definition OFFSET_MASK :: "nat \<Rightarrow> byte" where
  "OFFSET_MASK off = push_bit (off mod 8) 1"

text \<open>The loop that sets the bits of the offsets of a fragment.\<close>

fun dtls_MarkFragment :: "byte list \<Rightarrow> nat list \<Rightarrow> byte list result" where
  "dtls_MarkFragment bits [] = Inr bits"
| "dtls_MarkFragment bits (off # offs) =
     (if OFFSET_BYTE off < length bits
      then dtls_MarkFragment (bits[OFFSET_BYTE off := bits ! OFFSET_BYTE off OR OFFSET_MASK off]) offs
      else Inl UNDEFINED_BEHAVIOUR)"

text \<open>The loop that moves the high-water mark over the bits that are set.\<close>

function dtls_HighWater :: "byte list \<Rightarrow> nat \<Rightarrow> nat \<Rightarrow> nat result" where
  "dtls_HighWater bits off msg_len =
     (if off < msg_len then
        (if OFFSET_BYTE off < length bits then
           (if bits ! OFFSET_BYTE off AND OFFSET_MASK off \<noteq> 0
            then dtls_HighWater bits (off + 1) msg_len else Inr off)
         else Inl UNDEFINED_BEHAVIOUR)
      else Inr off)"
  by pat_completeness auto

termination
  by (relation "measure (\<lambda>(bits, off, msg_len). msg_len - off)") auto

declare dtls_HighWater.simps [simp del]

definition dtls_StartReassembly ::
    "'w dtls_env \<Rightarrow> byte \<Rightarrow> u32 \<Rightarrow> 'w dtls_socket \<Rightarrow> unit result \<times> 'w dtls_socket" where
  "dtls_StartReassembly env type message_length ss =
     (if ds_recvdHighWater ss \<noteq> -1 then (Inr (), ss)
      else case sslBuffer_Grow (en_nspr env) (ds_msg_body ss) message_length of
        Inl e \<Rightarrow> (Inl e, ss)
      | Inr body \<Rightarrow>
          let ss = ss\<lparr>ds_msg_body := body\<rparr>; map_length = message_length div 8 + 1 in
          (case sslBuffer_Grow (en_nspr env) (ds_recvdFragments ss) map_length of
             Inl e \<Rightarrow> (Inl e, ss)
           | Inr bits \<Rightarrow>
               let ss = ss\<lparr>ds_recvdFragments := bits, ds_recvdHighWater := 0\<rparr> in
               (case sslBuffer_put bits 0 (replicate (unat (sb_space bits)) 0) of
                  Inl e \<Rightarrow> (Inl e, ss)
                | Inr bits \<Rightarrow>
                    (Inr (), ss\<lparr>ds_recvdFragments := bits, ds_msg_type := type,
                               ds_msg_len := message_length\<rparr>))))"

text \<open>
  A fragment of the message being put together; the result says whether the message is complete.
\<close>

definition dtls_ReassembleFragment ::
    "'w dtls_env \<Rightarrow> byte \<Rightarrow> u32 \<Rightarrow> u32 \<Rightarrow> byte list \<Rightarrow> 'w dtls_socket \<Rightarrow> bool result \<times> 'w dtls_socket" where
  "dtls_ReassembleFragment env type message_length fragment_offset fragment ss =
     (case dtls_StartReassembly env type message_length ss of
        (Inl e, ss) \<Rightarrow> (Inl e, ss)
      | (Inr _, ss) \<Rightarrow>
          if message_length \<noteq> ds_msg_len ss
          then (Inl SSL_ERROR_RX_MALFORMED_HANDSHAKE, ss\<lparr>ds_recvdHighWater := -1\<rparr>)
          else
            let off = unat fragment_offset; end = off + length fragment in
            case (if int end > ds_recvdHighWater ss
                  then sslBuffer_put (ds_msg_body ss) off fragment else Inr (ds_msg_body ss)) of
              Inl e \<Rightarrow> (Inl e, ss)
            | Inr body \<Rightarrow>
                let ss = ss\<lparr>ds_msg_body := body\<rparr>; bits = buf_block (ds_recvdFragments ss) in
                (case (if int off \<le> ds_recvdHighWater ss then Inr bits
                       else dtls_MarkFragment bits [off..<end]) of
                   Inl e \<Rightarrow> (Inl e, ss)
                 | Inr bits \<Rightarrow>
                     let highWater = (if int off \<le> ds_recvdHighWater ss
                                      then max (ds_recvdHighWater ss) (int end) else ds_recvdHighWater ss);
                         ss = ss\<lparr>ds_recvdFragments :=
                                   (ds_recvdFragments ss)\<lparr>sb_buf := map_option (\<lambda>_. bits) (sb_buf (ds_recvdFragments ss))\<rparr>,
                                 ds_recvdHighWater := highWater\<rparr>
                     in (case dtls_HighWater bits (nat highWater) (unat (ds_msg_len ss)) of
                           Inl e \<Rightarrow> (Inl e, ss)
                         | Inr highWater \<Rightarrow>
                             (Inr (highWater = unat (ds_msg_len ss)),
                              ss\<lparr>ds_recvdHighWater := int highWater\<rparr>))))"

section \<open>Handshake records\<close>

definition hs_uint24 :: "byte list \<Rightarrow> nat \<Rightarrow> u32" where
  "hs_uint24 b i = push_bit 16 (ucast (b ! i)) OR push_bit 8 (ucast (b ! (i + 1))) OR ucast (b ! (i + 2))"

definition hs_uint16 :: "byte list \<Rightarrow> nat \<Rightarrow> u16" where
  "hs_uint16 b i = push_bit 8 (ucast (b ! i)) OR ucast (b ! (i + 1))"

text \<open>A turn of the loop stops the record or goes on with the rest; \<open>discarded\<close> is carried along.\<close>

datatype hs_step = HsStop | HsNext "byte list" bool

definition dtls_SecondClientHello :: "byte \<Rightarrow> u16 \<Rightarrow> u32 \<Rightarrow> 'w dtls_socket \<Rightarrow> 'w dtls_socket" where
  "dtls_SecondClientHello type message_seq fragment_offset ss =
     (if message_seq > ds_recvMessageSeq ss \<and> message_seq = 1 \<and> fragment_offset = 0 \<and>
         ds_ws ss = wait_client_hello \<and> type = ssl_hs_client_hello
      then ss\<lparr>ds_recvMessageSeq := 1, ds_helloRetry := True\<rparr> else ss)"

text \<open>The fragment of a well-formed header: deliver, retransmit, discard or keep it.\<close>

definition dtls_HandleFragment ::
    "'w dtls_env \<Rightarrow> byte \<Rightarrow> u32 \<Rightarrow> u16 \<Rightarrow> u32 \<Rightarrow> byte list \<Rightarrow> byte list \<Rightarrow> bool \<Rightarrow> 'w dtls_socket \<Rightarrow>
     (hs_step result \<times> 'w dtls_socket) option" where
  "dtls_HandleFragment env type message_length message_seq fragment_offset fragment rest discarded ss =
     (if message_seq = ds_recvMessageSeq ss \<and> fragment_offset = 0 \<and>
         of_nat (length fragment) = message_length then
        run_bind (Some (dtls_HandleHandshakeMessage env fragment False (rest = [])
                    (ss\<lparr>ds_msg_type := type, ds_msg_len := message_length\<rparr>)))
          (\<lambda>_ ss. Some (Inr (HsNext rest discarded), ss))
      else if message_seq < ds_recvMessageSeq ss then
        run_bind (dtls_RetransmitDetected env ss) (\<lambda>_ ss. Some (Inr HsStop, ss))
      else if message_seq > ds_recvMessageSeq ss then Some (Inr (HsNext rest True), ss)
      else
        run_bind (Some (dtls_ReassembleFragment env type message_length fragment_offset fragment ss))
          (\<lambda>complete ss.
             if complete then
               run_bind (Some (mem_read (buf_block (ds_msg_body ss)) 0 (unat (ds_msg_len ss)), ss))
                 (\<lambda>body ss. run_bind (Some (dtls_HandleHandshakeMessage env body True (rest = []) ss))
                    (\<lambda>_ ss. Some (Inr (HsNext rest discarded), ss)))
             else Some (Inr (HsNext rest discarded), ss)))"

definition dtls_HandleHandshake_turn ::
    "'w dtls_env \<Rightarrow> byte list \<Rightarrow> bool \<Rightarrow> 'w dtls_socket \<Rightarrow> (hs_step result \<times> 'w dtls_socket) option" where
  "dtls_HandleHandshake_turn env buf discarded ss =
     (if length buf < 12 then Some (Inl SSL_ERROR_RX_MALFORMED_HANDSHAKE, ss)
      else
        let type = buf ! 0; message_length = hs_uint24 buf 1; message_seq = hs_uint16 buf 4;
            fragment_offset = hs_uint24 buf 6; fragment_length = hs_uint24 buf 9 in
        if message_length > 0x1ffff
        then Some (Inl SSL_ERROR_RX_MALFORMED_HANDSHAKE, snd (ssl3_DecodeError env ss))
        else
          let buf = drop 12 buf in
          if length buf < unat fragment_length then Some (Inl SSL_ERROR_RX_MALFORMED_HANDSHAKE, ss)
          else if fragment_length + fragment_offset > message_length
          then Some (Inl SSL_ERROR_RX_MALFORMED_HANDSHAKE, ss)
          else dtls_HandleFragment env type message_length message_seq fragment_offset
                 (take (unat fragment_length) buf) (drop (unat fragment_length) buf) discarded
                 (dtls_SecondClientHello type message_seq fragment_offset ss))"

lemma dtls_HandleHandshake_turn_rest:
  assumes "dtls_HandleHandshake_turn env buf discarded ss = Some (Inr (HsNext rest discarded'), ss')"
  shows "length rest < length buf"
proof -
  have "rest = rest'"
    if "dtls_HandleFragment env type ml seq off fragment rest' d s = Some (Inr (HsNext rest discarded'), ss')"
    for type ml seq off fragment rest' d s
    using that by (auto simp: dtls_HandleFragment_def run_bind_def split: if_splits option.splits sum.splits prod.splits)
  then show ?thesis
    using assms by (fastforce simp: dtls_HandleHandshake_turn_def Let_def split: if_splits)
qed

text \<open>The result is \<open>None\<close> when the record was stopped, otherwise whether a fragment was discarded.\<close>

function dtls_HandleHandshake_loop ::
    "'w dtls_env \<Rightarrow> byte list \<Rightarrow> bool \<Rightarrow> 'w dtls_socket \<Rightarrow> (bool option result \<times> 'w dtls_socket) option" where
  "dtls_HandleHandshake_loop env buf discarded ss =
     (if buf = [] then Some (Inr (Some discarded), ss)
      else case dtls_HandleHandshake_turn env buf discarded ss of
        None \<Rightarrow> None
      | Some (Inl e, ss) \<Rightarrow> Some (Inl e, ss)
      | Some (Inr HsStop, ss) \<Rightarrow> Some (Inr None, ss)
      | Some (Inr (HsNext rest discarded), ss) \<Rightarrow> dtls_HandleHandshake_loop env rest discarded ss)"
  by pat_completeness auto

termination
  by (relation "measure (\<lambda>(env, buf, discarded, ss). length buf)")
     (auto dest: dtls_HandleHandshake_turn_rest)

declare dtls_HandleHandshake_loop.simps [simp del]

definition dtls_FinishRecord ::
    "'w dtls_env \<Rightarrow> u16 \<Rightarrow> u64 \<Rightarrow> bool \<Rightarrow> 'w dtls_socket \<Rightarrow> (unit result \<times> 'w dtls_socket) option" where
  "dtls_FinishRecord env epoch seqNum discarded ss =
     (case (if \<not> discarded \<and> tls13_MaybeTls13 ss
            then dtls13_RememberFragment (en_nspr env) ss (ds_dtlsRcvdHandshake ss) 0 0 0 epoch seqNum
            else Inr (ds_dtlsRcvdHandshake ss)) of
        Inl e \<Rightarrow> Some (Inl e, ss)
      | Inr entries \<Rightarrow> dtls13_SetupAcks env (ss\<lparr>ds_dtlsRcvdHandshake := entries\<rparr>))"

definition dtls_HandleHandshake ::
    "'w dtls_env \<Rightarrow> u16 \<Rightarrow> u64 \<Rightarrow> byte list \<Rightarrow> 'w dtls_socket \<Rightarrow> (unit result \<times> 'w dtls_socket) option" where
  "dtls_HandleHandshake env epoch seqNum origBuf ss =
     run_bind (dtls_HandleHandshake_loop env origBuf False (ss\<lparr>ds_endOfFlight := False\<rparr>)) (\<lambda>r ss.
       case r of
         None \<Rightarrow> Some (Inr (), ss)
       | Some discarded \<Rightarrow> dtls_FinishRecord env epoch seqNum discarded ss)"

section \<open>Blocks, bits and the high-water mark\<close>

lemma length_buf_block: "sslBuffer_inv b \<Longrightarrow> length (buf_block b) = unat (sb_space b)"
  by (simp add: sslBuffer_inv_def buf_block_def split: option.splits)

lemma sslBuffer_put_block:
  assumes inv: "sslBuffer_inv b" and fits: "off + length src \<le> unat (sb_space b)"
  obtains b' where "sslBuffer_put b off src = Inr b'" "sslBuffer_inv b'" "sb_space b' = sb_space b"
    "buf_block b' = take off (buf_block b) @ src @ drop (off + length src) (buf_block b)"
proof (cases "src = []")
  case True
  then show ?thesis using inv by (intro that [of b]) simp_all
next
  case False
  then have "0 < unat (sb_space b)" using fits by (cases src) simp_all
  then obtain m where m: "sb_buf b = Some m" "length m = unat (sb_space b)"
    using inv by (auto simp: sslBuffer_inv_def split: option.splits)
  let ?b = "b\<lparr>sb_buf := Some (take off m @ src @ drop (off + length src) m)\<rparr>"
  show ?thesis
  proof (rule that [of ?b])
    show "sslBuffer_put b off src = Inr ?b" using False m fits by (simp add: sslBuffer_put_def mem_simps)
    show "sslBuffer_inv ?b" using inv m fits by (simp add: sslBuffer_inv_def)
  qed (simp_all add: buf_block_def m)
qed

definition known_bit :: "byte list \<Rightarrow> nat \<Rightarrow> bool" where
  "known_bit bits i = bit (bits ! (i div 8)) (i mod 8)"

lemma known_bit_test: "bits ! OFFSET_BYTE i AND OFFSET_MASK i \<noteq> 0 \<longleftrightarrow> known_bit bits i"
  by (simp add: known_bit_def OFFSET_BYTE_def OFFSET_MASK_def bit_iff_and_push_bit_not_eq_0)

lemma known_bit_set:
  assumes "j div 8 < length bits"
  shows "known_bit (bits[OFFSET_BYTE j := bits ! OFFSET_BYTE j OR OFFSET_MASK j]) i \<longleftrightarrow> known_bit bits i \<or> i = j"
proof (cases "i div 8 = j div 8")
  case True
  have "i = j \<longleftrightarrow> i mod 8 = j mod 8" using True by (metis div_mult_mod_eq)
  moreover have "i mod 8 < 8" by simp
  ultimately show ?thesis using True assms
    by (auto simp: known_bit_def OFFSET_BYTE_def OFFSET_MASK_def bit_simps)
next
  case False
  then show ?thesis by (auto simp: known_bit_def OFFSET_BYTE_def)
qed

lemma dtls_MarkFragment_ok:
  assumes "\<forall>j \<in> set offs. j div 8 < length bits"
  shows "\<exists>bits'. dtls_MarkFragment bits offs = Inr bits' \<and> length bits' = length bits \<and>
    (\<forall>i. known_bit bits' i \<longleftrightarrow> known_bit bits i \<or> i \<in> set offs)"
  using assms
proof (induction offs arbitrary: bits)
  case Nil
  then show ?case by simp
next
  case (Cons j offs)
  then show ?case
    using Cons.IH [of "bits[OFFSET_BYTE j := bits ! OFFSET_BYTE j OR OFFSET_MASK j]"] known_bit_set [of j bits]
    by (auto simp: OFFSET_BYTE_def)
qed

lemma dtls_HighWater_ok:
  assumes "len div 8 < length bits" "off \<le> len"
  shows "\<exists>h. dtls_HighWater bits off len = Inr h \<and> off \<le> h \<and> h \<le> len \<and>
    (\<forall>i. off \<le> i \<and> i < h \<longrightarrow> known_bit bits i) \<and> (h < len \<longrightarrow> \<not> known_bit bits h)"
  using assms
proof (induction bits off len rule: dtls_HighWater.induct)
  case (1 bits off len)
  have b: "OFFSET_BYTE off < length bits" if "off < len"
    using that 1(2) div_le_mono [of off len 8] by (simp add: OFFSET_BYTE_def)
  show ?case
  proof (cases "off < len \<and> known_bit bits off")
    case True
    then obtain h where h: "dtls_HighWater bits (off + 1) len = Inr h" "off + 1 \<le> h" "h \<le> len"
        "\<forall>i. off + 1 \<le> i \<and> i < h \<longrightarrow> known_bit bits i" "h < len \<longrightarrow> \<not> known_bit bits h"
      using 1 b by (auto simp: known_bit_test)
    have "dtls_HighWater bits off len = Inr h"
      using True b h(1) by (subst dtls_HighWater.simps) (simp add: known_bit_test)
    moreover have "known_bit bits i" if "off \<le> i" "i < h" for i
      using that h(4) True by (cases "i = off") auto
    ultimately show ?thesis using h by auto
  next
    case False
    then have "dtls_HighWater bits off len = Inr off"
      using b by (subst dtls_HighWater.simps) (simp add: known_bit_test)
    then show ?thesis using False 1(3) by auto
  qed
qed

section \<open>One fragment\<close>

text \<open>A reassembly in progress, of a message of \<open>len\<close> bytes known up to \<open>H\<close>.\<close>

definition started :: "'w dtls_socket \<Rightarrow> nat \<Rightarrow> nat \<Rightarrow> bool" where
  "started ss len H \<longleftrightarrow> sslBuffer_inv (ds_msg_body ss) \<and> sslBuffer_inv (ds_recvdFragments ss) \<and>
     ds_recvdHighWater ss = int H \<and> H \<le> len \<and> unat (ds_msg_len ss) = len \<and>
     len \<le> unat (sb_space (ds_msg_body ss)) \<and> len div 8 < unat (sb_space (ds_recvdFragments ss))"

lemma dtls_ReassembleFragment_run:
  assumes st: "started ss len H" and off: "unat fo = off" and fits: "off + length frag \<le> len"
  defines "first \<equiv> if off \<le> H then max H (off + length frag) else H"
  obtains body frs H' where
    "dtls_ReassembleFragment env t (ds_msg_len ss) fo frag ss = (Inr (H' = len),
       ss\<lparr>ds_msg_body := body, ds_recvdFragments := frs, ds_recvdHighWater := int H'\<rparr>)"
    "started (ss\<lparr>ds_msg_body := body, ds_recvdFragments := frs, ds_recvdHighWater := int H'\<rparr>) len H'"
    "\<forall>i < len. buf_block body ! i =
       (if off \<le> i \<and> i < off + length frag \<and> H < off + length frag then frag ! (i - off)
        else buf_block (ds_msg_body ss) ! i)"
    "\<forall>i. known_bit (buf_block frs) i \<longleftrightarrow>
       known_bit (buf_block (ds_recvdFragments ss)) i \<or> H < off \<and> off \<le> i \<and> i < off + length frag"
    "first \<le> H'" "\<forall>i. first \<le> i \<and> i < H' \<longrightarrow> known_bit (buf_block frs) i"
    "H' < len \<longrightarrow> \<not> known_bit (buf_block frs) H'"
proof -
  let ?stop = "off + length frag"
  note S = st [unfolded started_def]
  have hw: "ds_recvdHighWater ss = int H" "H \<le> len" "unat (ds_msg_len ss) = len" using S by simp_all
  have bi: "sslBuffer_inv (ds_msg_body ss)" "?stop \<le> unat (sb_space (ds_msg_body ss))" using S fits by simp_all
  have start: "dtls_StartReassembly env t (ds_msg_len ss) ss = (Inr (), ss)"
    using hw(1) by (simp add: dtls_StartReassembly_def)
  obtain b1 where b1: "sslBuffer_put (ds_msg_body ss) off frag = Inr b1" "sslBuffer_inv b1"
      "sb_space b1 = sb_space (ds_msg_body ss)"
      "buf_block b1 = take off (buf_block (ds_msg_body ss)) @ frag @ drop ?stop (buf_block (ds_msg_body ss))"
    by (rule sslBuffer_put_block [OF bi]) blast
  define body where "body = (if H < ?stop then b1 else ds_msg_body ss)"
  have put: "(if H < ?stop then sslBuffer_put (ds_msg_body ss) off frag else Inr (ds_msg_body ss)) = Inr body"
    using b1(1) by (simp add: body_def)
  have body: "sslBuffer_inv body" "sb_space body = sb_space (ds_msg_body ss)"
    using b1 bi by (simp_all add: body_def)
  have block: "buf_block body ! i = (if off \<le> i \<and> i < ?stop \<and> H < ?stop then frag ! (i - off)
      else buf_block (ds_msg_body ss) ! i)" if "i < len" for i
    using that b1(4) S length_buf_block [OF bi(1)] fits by (auto simp: body_def nth_append)
  let ?bits = "buf_block (ds_recvdFragments ss)"
  have lb: "len div 8 < length ?bits" using S length_buf_block by fastforce
  have "j div 8 < length ?bits" if "j < ?stop" for j using that lb fits div_le_mono [of j len 8] by simp
  then have "\<forall>j \<in> set [off..<?stop]. j div 8 < length ?bits" by simp
  then obtain bits where bits: "(if off \<le> H then Inr ?bits else dtls_MarkFragment ?bits [off..<?stop]) = Inr bits"
      "length bits = length ?bits"
      "\<forall>i. known_bit bits i \<longleftrightarrow> known_bit ?bits i \<or> H < off \<and> off \<le> i \<and> i < ?stop"
    using dtls_MarkFragment_ok [of "[off..<?stop]" ?bits] by (cases "off \<le> H") auto
  define frs where "frs = (ds_recvdFragments ss)\<lparr>sb_buf := map_option (\<lambda>_. bits) (sb_buf (ds_recvdFragments ss))\<rparr>"
  have frs: "sslBuffer_inv frs" "sb_space frs = sb_space (ds_recvdFragments ss)" "buf_block frs = bits"
    using S bits(2) lb by (auto simp: frs_def sslBuffer_inv_def buf_block_def split: option.splits)
  have fl: "first \<le> len" using hw(2) fits by (simp add: first_def)
  have fn: "(if off \<le> H then max (int H) (int ?stop) else int H) = int first"
    by (simp add: first_def of_nat_max)
  obtain H' where H': "dtls_HighWater bits first len = Inr H'" "first \<le> H'" "H' \<le> len"
      "\<forall>i. first \<le> i \<and> i < H' \<longrightarrow> known_bit bits i" "H' < len \<longrightarrow> \<not> known_bit bits H'"
    using dtls_HighWater_ok [OF _ fl, of bits] lb bits(2) by auto
  have run: "dtls_ReassembleFragment env t (ds_msg_len ss) fo frag ss = (Inr (H' = len),
      ss\<lparr>ds_msg_body := body, ds_recvdFragments := frs, ds_recvdHighWater := int H'\<rparr>)"
    unfolding dtls_ReassembleFragment_def start off
    using put bits(1) H'(1) fn hw by (cases "off \<le> H"; cases "H < ?stop") (simp_all add: Let_def frs_def del: of_nat_add)
  show ?thesis
  proof (rule that [OF run])
    show "started (ss\<lparr>ds_msg_body := body, ds_recvdFragments := frs, ds_recvdHighWater := int H'\<rparr>) len H'"
      using S body frs H'(3) by (simp add: started_def)
  qed (use block bits(3) frs(3) H' in simp_all)
qed

lemma unat_map_length: "(ml :: u32) \<le> 0x1ffff \<Longrightarrow> unat (ml div 8 + 1) = unat ml div 8 + 1"
proof -
  assume "ml \<le> 0x1ffff"
  then have "unat ml \<le> 0x1ffff" by (simp add: word_le_nat_alt)
  moreover have d: "unat (ml div 8) = unat ml div 8" by (simp add: unat_div_distrib)
  ultimately show "unat (ml div 8 + 1) = unat ml div 8 + 1" by (simp add: unat_plus_no_wrap d)
qed

lemma dtls_StartReassembly_fresh:
  assumes h: "nspr_ok (en_nspr env)" and hw: "ds_recvdHighWater ss = -1"
    and inv: "sslBuffer_inv (ds_msg_body ss)" "sslBuffer_inv (ds_recvdFragments ss)" and ml: "ml \<le> 0x1ffff"
    and grow: "sslBuffer_Grow (en_nspr env) (ds_msg_body ss) ml = Inr body"
      "sslBuffer_Grow (en_nspr env) (ds_recvdFragments ss) (ml div 8 + 1) = Inr fr"
  obtains frs ss' where "dtls_StartReassembly env t ml ss = (Inr (), ss')"
    "ss' = ss\<lparr>ds_msg_body := body, ds_recvdFragments := frs, ds_recvdHighWater := 0, ds_msg_type := t, ds_msg_len := ml\<rparr>"
    "started ss' (unat ml) 0" "\<forall>i < unat ml. \<not> known_bit (buf_block frs) i"
proof -
  have b: "sslBuffer_inv body" "ml \<le> sb_space body" using sslBuffer_Grow_ok [OF h inv(1) grow(1)] by simp_all
  have f: "sslBuffer_inv fr" "ml div 8 + 1 \<le> sb_space fr" using sslBuffer_Grow_ok [OF h inv(2) grow(2)] by simp_all
  then have fs: "unat ml div 8 < unat (sb_space fr)" using unat_map_length [OF ml] by (simp add: word_le_nat_alt)
  obtain frs where frs: "sslBuffer_put fr 0 (replicate (unat (sb_space fr)) 0) = Inr frs" "sslBuffer_inv frs"
      "sb_space frs = sb_space fr" "buf_block frs = replicate (unat (sb_space fr)) 0"
    using sslBuffer_put_block [OF f(1), of 0 "replicate (unat (sb_space fr)) 0"] length_buf_block [OF f(1)] by auto
  let ?ss = "ss\<lparr>ds_msg_body := body, ds_recvdFragments := frs, ds_recvdHighWater := 0, ds_msg_type := t, ds_msg_len := ml\<rparr>"
  have "dtls_StartReassembly env t ml ss = (Inr (), ?ss)"
    using hw grow frs(1) by (simp add: dtls_StartReassembly_def Let_def)
  moreover have "started ?ss (unat ml) 0"
    using b frs(2,3) fs by (simp add: started_def word_le_nat_alt)
  moreover have "\<not> known_bit (buf_block frs) i" if "i < unat ml" for i
  proof -
    have "i div 8 < unat (sb_space fr)" using that fs div_le_mono [of i "unat ml" 8] by simp
    then show ?thesis by (simp add: frs(4) known_bit_def)
  qed
  ultimately show ?thesis using that by blast
qed

text \<open>A fragment that starts a reassembly is handled like one that arrives after the start.\<close>

lemma dtls_ReassembleFragment_start:
  assumes "dtls_StartReassembly env t ml ss = (Inr (), ss1)" "ds_recvdHighWater ss1 \<noteq> -1" "ds_msg_len ss1 = ml"
  shows "dtls_ReassembleFragment env t ml fo frag ss = dtls_ReassembleFragment env t (ds_msg_len ss1) fo frag ss1"
proof -
  have "dtls_StartReassembly env t ml ss1 = (Inr (), ss1)" using assms(2) by (simp add: dtls_StartReassembly_def)
  then show ?thesis using assms(1,3) by (simp add: dtls_ReassembleFragment_def)
qed

text \<open>The invariant: no reassembly, or one inside the bounds of its buffers.\<close>

definition reassembly_inv :: "'w dtls_socket \<Rightarrow> bool" where
  "reassembly_inv ss \<longleftrightarrow> sslBuffer_inv (ds_msg_body ss) \<and> sslBuffer_inv (ds_recvdFragments ss) \<and>
     (ds_recvdHighWater ss = -1 \<or> (\<exists>H. started ss (unat (ds_msg_len ss)) H))"

definition safe_error :: "'a result \<Rightarrow> bool" where
  "safe_error r \<longleftrightarrow> r \<noteq> Inl UNDEFINED_BEHAVIOUR"

lemma dtls_ReassembleFragment_started_safe:
  assumes st: "started ss (unat (ds_msg_len ss)) H" and fits: "unat fo + length frag \<le> unat ml"
    and run: "dtls_ReassembleFragment env t ml fo frag ss = (r, ss')"
  shows "reassembly_inv ss' \<and> safe_error r \<and> (r = Inr True \<longrightarrow> unat (ds_msg_len ss') \<le> length (buf_block (ds_msg_body ss')))"
proof (cases "ml = ds_msg_len ss")
  case True
  obtain body frs H' where
    "dtls_ReassembleFragment env t (ds_msg_len ss) fo frag ss = (Inr (H' = unat (ds_msg_len ss)),
       ss\<lparr>ds_msg_body := body, ds_recvdFragments := frs, ds_recvdHighWater := int H'\<rparr>)"
    "started (ss\<lparr>ds_msg_body := body, ds_recvdFragments := frs, ds_recvdHighWater := int H'\<rparr>) (unat (ds_msg_len ss)) H'"
    by (rule dtls_ReassembleFragment_run [OF st refl, of fo frag env t]) (use fits True in simp_all)
  then show ?thesis
    using run True length_buf_block [of body] by (auto simp: reassembly_inv_def safe_error_def started_def)
next
  case False
  have "dtls_StartReassembly env t ml ss = (Inr (), ss)" using st by (simp add: dtls_StartReassembly_def started_def)
  then have "r = Inl SSL_ERROR_RX_MALFORMED_HANDSHAKE" "ss' = ss\<lparr>ds_recvdHighWater := -1\<rparr>"
    using run False by (simp_all add: dtls_ReassembleFragment_def)
  then show ?thesis using st by (simp add: reassembly_inv_def started_def safe_error_def)
qed

lemma dtls_ReassembleFragment_safe:
  assumes h: "nspr_ok (en_nspr env)" and inv: "reassembly_inv ss" and ml: "ml \<le> 0x1ffff"
    and fits: "unat fo + length frag \<le> unat ml" and run: "dtls_ReassembleFragment env t ml fo frag ss = (r, ss')"
  shows "reassembly_inv ss' \<and> safe_error r \<and> (r = Inr True \<longrightarrow> unat (ds_msg_len ss') \<le> length (buf_block (ds_msg_body ss')))"
proof (cases "ds_recvdHighWater ss = -1")
  case False
  then show ?thesis using inv dtls_ReassembleFragment_started_safe [OF _ fits run] by (auto simp: reassembly_inv_def)
next
  case True
  have b: "sslBuffer_inv (ds_msg_body ss)" "sslBuffer_inv (ds_recvdFragments ss)" using inv by (simp_all add: reassembly_inv_def)
  let ?g1 = "sslBuffer_Grow (en_nspr env) (ds_msg_body ss) ml"
  let ?g2 = "sslBuffer_Grow (en_nspr env) (ds_recvdFragments ss) (ml div 8 + 1)"
  consider e where "?g1 = Inl e" | body e where "?g1 = Inr body" "?g2 = Inl e" | body fr where "?g1 = Inr body" "?g2 = Inr fr"
    by (cases ?g1; cases ?g2) auto
  then show ?thesis
  proof cases
    case 1
    then have "r = Inl e" "ss' = ss"
      using run True by (simp_all add: dtls_ReassembleFragment_def dtls_StartReassembly_def)
    then show ?thesis using inv sslBuffer_Grow_error [OF 1] by (auto simp: safe_error_def)
  next
    case 2
    then have "r = Inl e" "ss' = ss\<lparr>ds_msg_body := body\<rparr>"
      using run True by (simp_all add: dtls_ReassembleFragment_def dtls_StartReassembly_def Let_def)
    then show ?thesis
      using True b sslBuffer_Grow_ok [OF h b(1) 2(1)] sslBuffer_Grow_error [OF 2(2)]
      by (auto simp: safe_error_def reassembly_inv_def)
  next
    case 3
    obtain frs ss1 where s: "dtls_StartReassembly env t ml ss = (Inr (), ss1)"
        "ss1 = ss\<lparr>ds_msg_body := body, ds_recvdFragments := frs, ds_recvdHighWater := 0, ds_msg_type := t, ds_msg_len := ml\<rparr>"
        "started ss1 (unat ml) 0"
      by (rule dtls_StartReassembly_fresh [OF h True b ml 3]) blast
    have "started ss1 (unat (ds_msg_len ss1)) 0" using s(2,3) by simp
    moreover have "dtls_ReassembleFragment env t (ds_msg_len ss1) fo frag ss1 = (r, ss')"
      using run dtls_ReassembleFragment_start [OF s(1)] s(2) by simp
    ultimately show ?thesis using dtls_ReassembleFragment_started_safe s(2) fits by fastforce
  qed
qed

section \<open>One record, whatever it holds\<close>

text \<open>
  What the message handlers and the alert writer do not do: they leave the reassembly alone and touch
  no memory outside their blocks.
\<close>

definition same_rx :: "'w dtls_socket \<Rightarrow> 'w dtls_socket \<Rightarrow> bool" where
  "same_rx ss ss' \<longleftrightarrow> ds_msg_body ss' = ds_msg_body ss \<and> ds_recvdFragments ss' = ds_recvdFragments ss \<and>
     ds_recvdHighWater ss' = ds_recvdHighWater ss \<and> ds_msg_len ss' = ds_msg_len ss"

definition handlers_keep :: "'w dtls_env \<Rightarrow> bool" where
  "handlers_keep env \<longleftrightarrow>
     (\<forall>b ss r ss'. en_ProcessMessage env b ss = (r, ss') \<longrightarrow> same_rx ss ss' \<and> safe_error r) \<and>
     (\<forall>ss r ss'. en_AuthCertificate env ss = (r, ss') \<longrightarrow> same_rx ss ss' \<and> safe_error r) \<and>
     (\<forall>a ss. same_rx ss (en_SendAlert env a ss)) \<and>
     (\<forall>b w r w'. en_UpdateHandshakeHashes env b w = (r, w') \<longrightarrow> safe_error r)"

lemma safe_error_simps [simp]: "safe_error (Inr x)" "safe_error (Inl e) \<longleftrightarrow> e \<noteq> UNDEFINED_BEHAVIOUR"
  by (simp_all add: safe_error_def)

lemma same_rx_refl [simp]: "same_rx ss ss"
  by (simp add: same_rx_def)

lemma same_rx_trans [trans]: "same_rx ss ss' \<Longrightarrow> same_rx ss' ss'' \<Longrightarrow> same_rx ss ss''"
  by (simp add: same_rx_def)

lemma same_rx_updates [simp]:
  "same_rx ss (ss'\<lparr>ds_world := w\<rparr>) = same_rx ss ss'" "same_rx ss (ss'\<lparr>ds_recvMessageSeq := q\<rparr>) = same_rx ss ss'"
  "same_rx ss (ss'\<lparr>ds_helloRetry := b\<rparr>) = same_rx ss ss'" "same_rx ss (ss'\<lparr>ds_endOfFlight := b\<rparr>) = same_rx ss ss'"
  by (simp_all add: same_rx_def)

lemma reassembly_inv_same: "same_rx ss ss' \<Longrightarrow> reassembly_inv ss' = reassembly_inv ss"
  by (simp add: same_rx_def reassembly_inv_def started_def)

lemma update_hashes_safe:
  "handlers_keep env \<Longrightarrow> update_hashes env bs ss = (r, ss') \<Longrightarrow> same_rx ss ss' \<and> safe_error r"
  by (fastforce simp: update_hashes_def handlers_keep_def split: prod.splits)

lemma hash_before_handler_safe:
  assumes k: "handlers_keep env" and run: "hash_before_handler env b len ss = (r, ss')"
  shows "same_rx ss ss' \<and> safe_error r"
proof -
  have "same_rx ss ss' \<and> safe_error r" if i: "ssl_HashHandshakeMessageInt env ct q b len ss = (r, ss')" for ct q
  proof -
    define d where "d = (\<lambda>s. if IS_DTLS_1_OR_12 (sslSocket.truncate s)
                 then update_hashes env
                        [ucast (drop_bit 8 q), ucast q, 0, 0, 0,
                         ucast (drop_bit 16 len), ucast (drop_bit 8 len), ucast len] s
                 else (Inr (), s))"
    have d: "same_rx s s' \<and> safe_error r" if "d s = (r, s')" for s r s'
      using that update_hashes_safe [OF k] by (auto simp: d_def split: if_splits)
    let ?hdr = "[ct, ucast (drop_bit 16 len), ucast (drop_bit 8 len), ucast len]"
    have eq: "ssl_HashHandshakeMessageInt env ct q b len ss =
        (case update_hashes env ?hdr ss of
           (Inl e, ss) \<Rightarrow> (Inl e, ss)
         | (Inr _, ss) \<Rightarrow> (case d ss of (Inl e, ss) \<Rightarrow> (Inl e, ss) | (Inr _, ss) \<Rightarrow> update_hashes env b ss))"
      unfolding ssl_HashHandshakeMessageInt_def d_def ..
    obtain r1 s1 where 1: "update_hashes env ?hdr ss = (r1, s1)" by fastforce
    obtain r2 s2 where 2: "d s1 = (r2, s2)" by fastforce
    obtain r3 s3 where 3: "update_hashes env b s2 = (r3, s3)" by fastforce
    show ?thesis
      using i 1 2 3 update_hashes_safe [OF k 1] d [OF 2] update_hashes_safe [OF k 3] unfolding eq
      by (cases r1; cases r2) (auto dest: same_rx_trans)
  qed
  then show ?thesis using run by (auto simp: hash_before_handler_def ssl_HashHandshakeMessage_def split: if_splits)
qed

lemma reassembly_inv_idle:
  "ds_recvdHighWater ss = -1 \<Longrightarrow> reassembly_inv ss \<longleftrightarrow> sslBuffer_inv (ds_msg_body ss) \<and> sslBuffer_inv (ds_recvdFragments ss)"
  by (simp add: reassembly_inv_def)

lemma ssl3_HandleHandshakeMessage_safe:
  assumes k: "handlers_keep env" and inv: "reassembly_inv ss" "ds_recvdHighWater ss = -1"
    and room: "inBody \<Longrightarrow> unat len \<le> unat (sb_space (ds_msg_body ss))"
    and run: "ssl3_HandleHandshakeMessage env b inBody len endOfRecord ss = (r, ss')"
  shows "reassembly_inv ss' \<and> safe_error r"
proof -
  have alert: "same_rx s (en_SendAlert env a s)" for a s using k by (simp add: handlers_keep_def)
  define s0 where "s0 = (if ds_msg_type ss = ssl_hs_client_hello
                then ss\<lparr>ds_world := en_RestartHandshakeHashes env (ds_world ss)\<rparr> else ss)"
  have s0: "same_rx ss s0" by (simp add: s0_def)
  obtain r1 s1 where 1: "hash_before_handler env b len s0 = (r1, s1)" by fastforce
  have s1: "same_rx ss s1" "safe_error r1" using hash_before_handler_safe [OF k 1] s0 by (auto dest: same_rx_trans)
  define auth where "auth = (\<lambda>s. if ds_ws s = wait_certificate_status \<and> ds_msg_type s \<noteq> ssl_hs_certificate_status
                 then en_AuthCertificate env s else (Inr (), s))"
  obtain r2 s2 where 2: "auth s1 = (r2, s2)" by fastforce
  have "same_rx s1 s2 \<and> safe_error r2" using 2 k by (auto simp: auth_def handlers_keep_def split: if_splits)
  then have s2: "same_rx ss s2" "safe_error r2" using s1 by (auto dest: same_rx_trans)
  obtain r3 s3 where 3: "en_ProcessMessage env b s2 = (r3, s3)" by fastforce
  have "same_rx s2 s3 \<and> safe_error r3" using 3 k by (simp add: handlers_keep_def)
  then have s3: "same_rx ss s3" "safe_error r3" using s2 by (auto dest: same_rx_trans)
  define s4 where "s4 = (if IS_DTLS s3 \<and> (r3 = Inr () \<or> r3 = Inl PR_WOULD_BLOCK_ERROR)
                             then s3\<lparr>ds_recvMessageSeq := ds_recvMessageSeq s3 + 1\<rparr> else s3)"
  have s4: "same_rx ss s4" using s3 by (simp add: s4_def)
  then have bs: "sslBuffer_inv (ds_msg_body s4)" "sslBuffer_inv (ds_recvdFragments s4)" "ds_recvdHighWater s4 = -1"
    and room4: "inBody \<Longrightarrow> 0 + length (replicate (unat len) (78 :: byte)) \<le> unat (sb_space (ds_msg_body s4))"
    using inv room by (auto simp: same_rx_def reassembly_inv_def)
  obtain body where body: "(if inBody then sslBuffer_put (ds_msg_body s4) 0 (replicate (unat len) 78)
      else Inr (ds_msg_body s4)) = Inr body" "sslBuffer_inv body"
  proof (cases inBody)
    case True
    show ?thesis by (rule sslBuffer_put_block [OF bs(1) room4 [OF True]]) (use True that in simp)
  next
    case False
    then show ?thesis using that bs(1) by simp
  qed
  have eq: "ssl3_HandleHandshakeMessage env b inBody len endOfRecord ss =
      (case r1 of Inl e \<Rightarrow> (Inl e, s1) | Inr _ \<Rightarrow>
       (case r2 of Inl e \<Rightarrow> (Inl e, s2) | Inr _ \<Rightarrow>
          if ds_msg_type s2 = ssl_hs_client_hello \<and> \<not> ss_isServer s2
          then (Inl SSL_ERROR_RX_UNEXPECTED_CLIENT_HELLO, en_SendAlert env unexpected_message s2)
          else if ds_msg_type s2 = ssl_hs_server_hello \<and> ss_isServer s2
          then (Inl SSL_ERROR_RX_UNEXPECTED_SERVER_HELLO, en_SendAlert env unexpected_message s2)
          else if ss_version s3 \<ge> SSL_LIBRARY_VERSION_TLS_1_3 \<and> ds_crEpoch s2 \<noteq> ds_crEpoch s3 \<and> \<not> endOfRecord
          then (Inl SSL_ERROR_RX_UNEXPECTED_HANDSHAKE, en_SendAlert env unexpected_message s3)
          else (r3, s4\<lparr>ds_msg_body := body\<rparr>)))"
    using 1 2 3 body(1)
    by (cases r1; cases r2; cases inBody)
       (simp_all add: ssl3_HandleHandshakeMessage_def Let_def s0_def [symmetric] auth_def s4_def [symmetric])
  have "reassembly_inv (s4\<lparr>ds_msg_body := body\<rparr>)" using bs body(2) by (simp add: reassembly_inv_def)
  moreover have "reassembly_inv s1" "reassembly_inv s2" "\<And>a. reassembly_inv (en_SendAlert env a s2)"
    "\<And>a. reassembly_inv (en_SendAlert env a s3)"
    using inv(1) reassembly_inv_same s1(1) s2(1) s3(1) alert by blast+
  ultimately show ?thesis
    using run s1(2) s2(2) s3(2) unfolding eq by (auto split: sum.splits if_splits)
qed

text \<open>
  A step over a record is safe, or it is the hand-over to the retransmission of the last flight that an
  old message causes.
\<close>

definition safe_run :: "'w dtls_env \<Rightarrow> 'a \<Rightarrow> ('a result \<times> 'w dtls_socket) option \<Rightarrow> bool" where
  "safe_run env stop m \<longleftrightarrow>
     (\<exists>r ss. m = Some (r, ss) \<and> reassembly_inv ss \<and> safe_error r) \<or>
     (\<exists>ss. reassembly_inv ss \<and> m = run_bind (dtls_RetransmitDetected env ss) (\<lambda>_ ss. Some (Inr stop, ss)))"

lemma safe_run_Some [intro]: "reassembly_inv ss \<Longrightarrow> safe_error r \<Longrightarrow> safe_run env stop (Some (r, ss))"
  by (auto simp: safe_run_def)

lemma dtls_HandleHandshakeMessage_safe:
  assumes "handlers_keep env" "sslBuffer_inv (ds_msg_body ss)" "sslBuffer_inv (ds_recvdFragments ss)"
    and "inBody \<Longrightarrow> unat (ds_msg_len ss) \<le> unat (sb_space (ds_msg_body ss))"
  obtains r ss' where "dtls_HandleHandshakeMessage env data inBody endOfRecord ss = (r, ss')" "reassembly_inv ss'" "safe_error r"
proof -
  obtain r ss' where run: "dtls_HandleHandshakeMessage env data inBody endOfRecord ss = (r, ss')" by fastforce
  have "reassembly_inv (ss\<lparr>ds_recvdHighWater := -1\<rparr>)" using assms(2,3) by (simp add: reassembly_inv_def)
  then show ?thesis
    using that [OF run] run assms(4)
      ssl3_HandleHandshakeMessage_safe [OF assms(1), of "ss\<lparr>ds_recvdHighWater := -1\<rparr>" inBody "ds_msg_len ss" data endOfRecord r ss']
    by (simp add: dtls_HandleHandshakeMessage_def)
qed

lemma dtls_HandleFragment_safe:
  assumes k: "handlers_keep env" and h: "nspr_ok (en_nspr env)" and inv: "reassembly_inv ss" and ml: "ml \<le> 0x1ffff"
    and fits: "unat fo + length frag \<le> unat ml"
  shows "safe_run env HsStop (dtls_HandleFragment env t ml seq fo frag rest d ss)"
proof -
  have bs: "sslBuffer_inv (ds_msg_body ss)" "sslBuffer_inv (ds_recvdFragments ss)" using inv by (simp_all add: reassembly_inv_def)
  consider (all) "seq = ds_recvMessageSeq ss" "fo = 0" "of_nat (length frag) = ml"
    | (old) "seq < ds_recvMessageSeq ss" | (new) "seq > ds_recvMessageSeq ss"
    | (part) "seq = ds_recvMessageSeq ss" "\<not> (fo = 0 \<and> of_nat (length frag) = ml)"
    by fastforce
  then show ?thesis
  proof cases
    case all
    let ?ss = "ss\<lparr>ds_msg_type := t, ds_msg_len := ml\<rparr>"
    obtain r s where "dtls_HandleHandshakeMessage env frag False (rest = []) ?ss = (r, s)" "reassembly_inv s" "safe_error r"
      by (rule dtls_HandleHandshakeMessage_safe [OF k, of ?ss False frag "rest = []"]) (use bs in simp_all)
    then show ?thesis using all by (cases r) (auto simp: dtls_HandleFragment_def run_bind_def)
  next
    case old
    then have "dtls_HandleFragment env t ml seq fo frag rest d ss =
        run_bind (dtls_RetransmitDetected env ss) (\<lambda>_ ss. Some (Inr HsStop, ss))"
      by (auto simp: dtls_HandleFragment_def)
    then show ?thesis using inv by (auto simp: safe_run_def)
  next
    case new
    then have "dtls_HandleFragment env t ml seq fo frag rest d ss = Some (Inr (HsNext rest True), ss)"
      by (auto simp: dtls_HandleFragment_def)
    then show ?thesis using inv by auto
  next
    case part
    obtain r s where run: "dtls_ReassembleFragment env t ml fo frag ss = (r, s)" by fastforce
    note S = dtls_ReassembleFragment_safe [OF h inv ml fits run]
    have eq: "dtls_HandleFragment env t ml seq fo frag rest d ss =
        run_bind (Some (r, s)) (\<lambda>complete ss.
             if complete then
               run_bind (Some (mem_read (buf_block (ds_msg_body ss)) 0 (unat (ds_msg_len ss)), ss))
                 (\<lambda>body ss. run_bind (Some (dtls_HandleHandshakeMessage env body True (rest = []) ss))
                    (\<lambda>_ ss. Some (Inr (HsNext rest d), ss)))
             else Some (Inr (HsNext rest d), ss))"
      using part run by (auto simp: dtls_HandleFragment_def)
    show ?thesis
    proof (cases "r = Inr True")
      case False
      then show ?thesis using S unfolding eq by (cases r) (auto simp: run_bind_def)
    next
      case True
      have s: "sslBuffer_inv (ds_msg_body s)" "sslBuffer_inv (ds_recvdFragments s)"
        and len: "unat (ds_msg_len s) \<le> length (buf_block (ds_msg_body s))"
        using S True by (simp_all add: reassembly_inv_def)
      let ?body = "take (unat (ds_msg_len s)) (buf_block (ds_msg_body s))"
      obtain q s' where "dtls_HandleHandshakeMessage env ?body True (rest = []) s = (q, s')" "reassembly_inv s'" "safe_error q"
        by (rule dtls_HandleHandshakeMessage_safe [OF k s, of True ?body "rest = []"])
           (use len length_buf_block [OF s(1)] in simp_all)
      then show ?thesis using True len unfolding eq by (cases q) (auto simp: run_bind_def mem_simps)
    qed
  qed
qed

lemma unat_push_ucast_byte:
  assumes "8 \<le> LENGTH('a)" "unat (x :: byte) * 2 ^ n < 2 ^ LENGTH('a)"
  shows "unat (push_bit n (ucast x) :: 'a::len word) = unat x * 2 ^ n"
proof -
  have "unat (ucast x :: 'a word) = unat x" using assms(1) by (simp add: unat_ucast_le)
  then show ?thesis unfolding unsigned_push_bit_eq using assms(2) by (simp add: push_bit_eq_mult take_bit_nat_eq_self)
qed

lemma unat_hs_uint24: "unat (hs_uint24 b i) = be_value [b ! i, b ! (i + 1), b ! (i + 2)]"
proof -
  let ?x = "push_bit 16 (ucast (b ! i)) :: u32" and ?y = "push_bit 8 (ucast (b ! (i + 1))) :: u32"
  let ?z = "ucast (b ! (i + 2)) :: u32"
  have "?y AND ?z = 0" "?x AND (?y OR ?z) = 0"
    by (rule bit_word_eqI, auto simp: bit_simps dest: bit_imp_le_length)+
  then have "unat (hs_uint24 b i) = unat ?x + (unat ?y + unat ?z)"
    by (simp only: hs_uint24_def unat_or_disjoint)
  moreover have "unat ?x = unat (b ! i) * 65536"
    by (subst unat_push_ucast_byte) (auto intro: order_less_trans [OF unsigned_less])
  moreover have "unat ?y = unat (b ! (i + 1)) * 256"
    by (subst unat_push_ucast_byte) (auto intro: order_less_trans [OF unsigned_less])
  ultimately show ?thesis by (simp add: be_value_Cons unat_ucast_le)
qed

lemma unat_hs_uint16: "unat (hs_uint16 b i) = be_value [b ! i, b ! (i + 1)]"
proof -
  let ?x = "push_bit 8 (ucast (b ! i)) :: u16" and ?y = "ucast (b ! (i + 1)) :: u16"
  have "?x AND ?y = 0" by (rule bit_word_eqI) (auto simp: bit_simps dest: bit_imp_le_length)
  moreover have "unat ?x = unat (b ! i) * 256"
    using unsigned_less [of "b ! i", where 'a = nat]
    by (subst unat_push_ucast_byte) simp_all
  ultimately show ?thesis
    by (simp add: hs_uint16_def unat_or_disjoint be_value_Cons unat_ucast_le)
qed

lemma unat_hs_uint24_less: "unat (hs_uint24 b i) < 2 ^ 24"
  unfolding unat_hs_uint24 using be_value_less [of "[b ! i, b ! (i + 1), b ! (i + 2)]"] by simp

lemma dtls_HandleHandshake_turn_safe:
  assumes k: "handlers_keep env" and h: "nspr_ok (en_nspr env)" and inv: "reassembly_inv ss"
  shows "safe_run env HsStop (dtls_HandleHandshake_turn env buf d ss)"
proof -
  let ?ml = "hs_uint24 buf 1" and ?fo = "hs_uint24 buf 6" and ?fl = "hs_uint24 buf 9"
  have alert: "reassembly_inv (snd (ssl3_DecodeError env ss))"
    using inv k reassembly_inv_same by (fastforce simp: ssl3_DecodeError_def handlers_keep_def)
  show ?thesis
  proof (cases "length buf < 12 \<or> ?ml > 0x1ffff \<or> length (drop 12 buf) < unat ?fl \<or> ?fl + ?fo > ?ml")
    case True
    then show ?thesis using inv alert by (auto simp: dtls_HandleHandshake_turn_def Let_def)
  next
    case False
    let ?frag = "take (unat ?fl) (drop 12 buf)"
    let ?ss = "dtls_SecondClientHello (buf ! 0) (hs_uint16 buf 4) ?fo ss"
    have sum: "unat (?fl + ?fo) = unat ?fl + unat ?fo"
      using unat_hs_uint24_less [of buf 6] unat_hs_uint24_less [of buf 9] by (intro unat_plus_no_wrap) simp
    have "same_rx ss ?ss" by (simp add: dtls_SecondClientHello_def)
    then have "reassembly_inv ?ss" using inv reassembly_inv_same by blast
    then have "safe_run env HsStop (dtls_HandleFragment env (buf ! 0) ?ml (hs_uint16 buf 4) ?fo ?frag
        (drop (unat ?fl) (drop 12 buf)) d ?ss)"
      using False sum by (intro dtls_HandleFragment_safe [OF k h]) (simp_all add: word_le_nat_alt word_less_nat_alt)
    moreover have "dtls_HandleHandshake_turn env buf d ss = dtls_HandleFragment env (buf ! 0) ?ml (hs_uint16 buf 4) ?fo ?frag
        (drop (unat ?fl) (drop 12 buf)) d ?ss"
      using False by (simp add: dtls_HandleHandshake_turn_def Let_def)
    ultimately show ?thesis by simp
  qed
qed

lemma run_bind_assoc: "run_bind (run_bind m f) g = run_bind m (\<lambda>x s. run_bind (f x s) g)"
  by (simp add: run_bind_def split: option.split sum.split prod.split)

lemma dtls_HandleHandshake_loop_safe:
  assumes "handlers_keep env" and "nspr_ok (en_nspr env)" and "reassembly_inv ss"
  shows "safe_run env None (dtls_HandleHandshake_loop env buf discarded ss)"
  using assms(3)
proof (induction "length buf" arbitrary: buf discarded ss rule: less_induct)
  case less
  show ?case
  proof (cases "buf = []")
    case True
    then show ?thesis using less.prems by (subst dtls_HandleHandshake_loop.simps) auto
  next
    case False
    let ?turn = "dtls_HandleHandshake_turn env buf discarded ss"
    have loop: "dtls_HandleHandshake_loop env buf discarded ss = (case ?turn of
          None \<Rightarrow> None
        | Some (Inl e, ss) \<Rightarrow> Some (Inl e, ss)
        | Some (Inr HsStop, ss) \<Rightarrow> Some (Inr None, ss)
        | Some (Inr (HsNext rest discarded), ss) \<Rightarrow> dtls_HandleHandshake_loop env rest discarded ss)"
      using False by (subst dtls_HandleHandshake_loop.simps) simp
    consider (ok) r s where "?turn = Some (r, s)" "reassembly_inv s" "safe_error r"
      | (old) s where "reassembly_inv s" "?turn = run_bind (dtls_RetransmitDetected env s) (\<lambda>_ ss. Some (Inr HsStop, ss))"
      using dtls_HandleHandshake_turn_safe [OF assms(1,2) less.prems, of buf discarded] by (auto simp: safe_run_def)
    then show ?thesis
    proof cases
      case ok
      show ?thesis
      proof (cases "\<exists>rest d. r = Inr (HsNext rest d)")
        case True
        then obtain rest d where r: "r = Inr (HsNext rest d)" by blast
        then have "length rest < length buf" using ok(1) dtls_HandleHandshake_turn_rest by simp
        then show ?thesis using less.hyps ok loop r by simp
      next
        case False
        then show ?thesis using ok loop by (auto split: sum.splits hs_step.splits)
      qed
    next
      case old
      have "dtls_HandleHandshake_loop env buf discarded ss = run_bind (dtls_RetransmitDetected env s) (\<lambda>_ ss. Some (Inr None, ss))"
        unfolding loop old(2) by (auto simp: run_bind_def split: option.splits sum.splits prod.splits)
      then show ?thesis using old(1) by (auto simp: safe_run_def)
    qed
  qed
qed

text \<open>
  C5: no record can make the reassembly leave its buffers. Whatever bytes a record holds, and whatever
  was received before, walking over its fragments ends, keeps the invariant of the reassembly buffers
  and never writes or reads outside them, up to the point where an old message makes it hand over to
  the retransmission of the last flight.
\<close>

theorem dtls_reassembly_memory_safe:
  assumes "handlers_keep env" and "nspr_ok (en_nspr env)" and "reassembly_inv ss"
  shows "(\<exists>r ss'. dtls_HandleHandshake_loop env buf discarded ss = Some (r, ss') \<and> reassembly_inv ss' \<and>
            r \<noteq> Inl UNDEFINED_BEHAVIOUR) \<or>
         (\<exists>ss'. reassembly_inv ss' \<and> dtls_HandleHandshake_loop env buf discarded ss =
            run_bind (dtls_RetransmitDetected env ss') (\<lambda>_ ss. Some (Inr None, ss)))"
  using dtls_HandleHandshake_loop_safe [OF assms, of buf discarded] by (simp add: safe_run_def safe_error_def)

section \<open>The set of bytes known\<close>

text \<open>What the buffers of a reassembly in progress stand for: the bytes \<open>K\<close> of the message \<open>M\<close>.\<close>

definition knows :: "byte list \<Rightarrow> nat set \<Rightarrow> nat \<Rightarrow> byte list \<Rightarrow> byte list \<Rightarrow> bool" where
  "knows M K H bits body \<longleftrightarrow> H < length M \<and> H \<notin> K \<and> {..<H} \<subseteq> K \<and> K \<subseteq> {..<length M} \<and>
     (\<forall>i < length M. H \<le> i \<longrightarrow> (i \<in> K \<longleftrightarrow> known_bit bits i)) \<and> (\<forall>i \<in> K. body ! i = M ! i)"

definition rx_holds :: "'w dtls_env \<Rightarrow> byte \<Rightarrow> byte list \<Rightarrow> nat set \<Rightarrow> 'w dtls_socket \<Rightarrow> bool" where
  "rx_holds env t M K ss \<longleftrightarrow> nspr_ok (en_nspr env) \<and> 0 < length M \<and> length M \<le> 0x1ffff \<and>
     (ds_recvdHighWater ss = -1 \<and> K = {} \<and> sslBuffer_inv (ds_msg_body ss) \<and> sslBuffer_inv (ds_recvdFragments ss) \<and>
        (\<exists>b. sslBuffer_Grow (en_nspr env) (ds_msg_body ss) (of_nat (length M)) = Inr b) \<and>
        (\<exists>b. sslBuffer_Grow (en_nspr env) (ds_recvdFragments ss) (of_nat (length M) div 8 + 1) = Inr b) \<or>
      (\<exists>H. started ss (length M) H \<and> ds_msg_type ss = t \<and>
         knows M K H (buf_block (ds_recvdFragments ss)) (buf_block (ds_msg_body ss))))"

text \<open>The socket without the reassembly.\<close>

definition rx_rest :: "'w dtls_socket \<Rightarrow> 'w dtls_socket" where
  "rx_rest ss = ss\<lparr>ds_recvdFragments := undefined, ds_recvdHighWater := undefined, ds_msg_body := undefined,
     ds_msg_type := undefined, ds_msg_len := undefined\<rparr>"

lemma dtls_ReassembleFragment_knows:
  assumes st: "started ss (length M) H" and t: "ds_msg_type ss = t"
    and kn: "knows M K H (buf_block (ds_recvdFragments ss)) (buf_block (ds_msg_body ss))"
    and fo: "unat fo = off" and fits: "off + l \<le> length M"
  defines "K' \<equiv> K \<union> {off..<off + l}"
  obtains ss' H' where "dtls_ReassembleFragment env t (ds_msg_len ss) fo (take l (drop off M)) ss = (Inr (K' = {..<length M}), ss')"
    "rx_rest ss' = rx_rest ss" "ds_msg_type ss' = t" "started ss' (length M) H'"
    "K' \<noteq> {..<length M} \<Longrightarrow> knows M K' H' (buf_block (ds_recvdFragments ss')) (buf_block (ds_msg_body ss'))"
    "K' = {..<length M} \<Longrightarrow> take (length M) (buf_block (ds_msg_body ss')) = M"
proof -
  let ?frag = "take l (drop off M)"
  have lf: "length ?frag = l" using fits by simp
  note N = kn [unfolded knows_def]
  define first where "first = (if off \<le> H then max H (off + l) else H)"
  obtain body frs H' where R:
    "dtls_ReassembleFragment env t (ds_msg_len ss) fo ?frag ss = (Inr (H' = length M),
       ss\<lparr>ds_msg_body := body, ds_recvdFragments := frs, ds_recvdHighWater := int H'\<rparr>)"
    "started (ss\<lparr>ds_msg_body := body, ds_recvdFragments := frs, ds_recvdHighWater := int H'\<rparr>) (length M) H'"
    "\<forall>i < length M. buf_block body ! i =
       (if off \<le> i \<and> i < off + l \<and> H < off + l then ?frag ! (i - off) else buf_block (ds_msg_body ss) ! i)"
    "\<forall>i. known_bit (buf_block frs) i \<longleftrightarrow>
       known_bit (buf_block (ds_recvdFragments ss)) i \<or> H < off \<and> off \<le> i \<and> i < off + l"
    "first \<le> H'" "\<forall>i. first \<le> i \<and> i < H' \<longrightarrow> known_bit (buf_block frs) i"
    "H' < length M \<longrightarrow> \<not> known_bit (buf_block frs) H'"
    by (rule dtls_ReassembleFragment_run [OF st fo, of ?frag env t, unfolded lf, folded first_def, OF fits])
  let ?ss = "ss\<lparr>ds_msg_body := body, ds_recvdFragments := frs, ds_recvdHighWater := int H'\<rparr>"
  have Hle: "H' \<le> length M" using R(2) by (simp add: started_def)
  have low: "first \<le> length M" "H \<le> first" using N fits by (auto simp: first_def)
  have known: "i \<in> K'" if "i < H'" for i
  proof (cases "i < first")
    case True
    moreover have "i \<in> K" if "i < H" using that N by auto
    ultimately show ?thesis by (cases "i < H") (auto simp: K'_def first_def split: if_splits)
  next
    case False
    then have "known_bit (buf_block frs) i" "i < length M" "H \<le> i" using that R(6) Hle low by auto
    then show ?thesis using R(4) N by (auto simp: K'_def)
  qed
  have bit: "i \<in> K' \<longleftrightarrow> known_bit (buf_block frs) i" if "H' \<le> i" "i < length M" for i
  proof -
    have "H \<le> i" using that R(5) low by simp
    moreover have "off \<le> H \<Longrightarrow> \<not> i < off + l" using that R(5) by (simp add: first_def)
    ultimately show ?thesis using that N R(4) by (auto simp: K'_def)
  qed
  have sub: "K' \<subseteq> {..<length M}" using N fits by (auto simp: K'_def)
  have full: "K' = {..<length M} \<longleftrightarrow> H' = length M"
  proof
    assume "K' = {..<length M}"
    then show "H' = length M" using bit [of H'] R(7) Hle by (cases "H' < length M") auto
  next
    assume "H' = length M"
    then show "K' = {..<length M}" using known sub by auto
  qed
  have val: "buf_block body ! i = M ! i" if "i \<in> K'" for i
  proof -
    have i: "i < length M" using that sub by auto
    have "buf_block (ds_msg_body ss) ! i = M ! i" if "i \<in> K" using that N by auto
    moreover have "i \<in> K" if "off \<le> i" "i < off + l" "\<not> H < off + l" using that N by auto
    ultimately show ?thesis using R(3) i that fits by (auto simp: K'_def)
  qed
  show ?thesis
  proof (rule that [of ?ss H'])
    show "dtls_ReassembleFragment env t (ds_msg_len ss) fo ?frag ss = (Inr (K' = {..<length M}), ?ss)"
      using R(1) full by simp
    show "rx_rest ?ss = rx_rest ss" by (simp add: rx_rest_def)
    show "knows M K' H' (buf_block (ds_recvdFragments ?ss)) (buf_block (ds_msg_body ?ss))" if "K' \<noteq> {..<length M}"
    proof -
      have "H' < length M" using that full Hle by simp
      then show ?thesis using known bit sub val R(7) by (auto simp: knows_def)
    qed
    show "take (length M) (buf_block (ds_msg_body ?ss)) = M" if "K' = {..<length M}"
    proof (rule nth_equalityI)
      show "length (take (length M) (buf_block (ds_msg_body ?ss))) = length M"
        using R(2) length_buf_block [of body] by (simp add: started_def)
      show "take (length M) (buf_block (ds_msg_body ?ss)) ! i = M ! i"
        if "i < length (take (length M) (buf_block (ds_msg_body ?ss)))" for i
        using that \<open>K' = {..<length M}\<close> val [of i] by simp
    qed
  qed (use t R(2) in simp_all)
qed

lemma dtls_ReassembleFragment_exact:
  assumes holds: "rx_holds env t M K ss" and fo: "unat fo = off" and fits: "off + l \<le> length M"
  defines "K' \<equiv> K \<union> {off..<off + l}"
  obtains ss' where
    "dtls_ReassembleFragment env t (of_nat (length M)) fo (take l (drop off M)) ss = (Inr (K' = {..<length M}), ss')"
    "rx_rest ss' = rx_rest ss" "K' \<noteq> {..<length M} \<Longrightarrow> rx_holds env t M K' ss'"
    "K' = {..<length M} \<Longrightarrow> ds_msg_type ss' = t \<and> ds_msg_len ss' = of_nat (length M) \<and>
       length M \<le> length (buf_block (ds_msg_body ss')) \<and> take (length M) (buf_block (ds_msg_body ss')) = M"
proof -
  let ?n = "length M" and ?ml = "of_nat (length M) :: u32"
  have M: "nspr_ok (en_nspr env)" "0 < ?n" "?n \<le> 0x1ffff" using holds by (simp_all add: rx_holds_def)
  have ml: "unat ?ml = ?n" using M(3) by (simp add: unat_of_nat take_bit_nat_eq_self)
  obtain ss1 H where S: "dtls_ReassembleFragment env t ?ml fo (take l (drop off M)) ss =
      dtls_ReassembleFragment env t (ds_msg_len ss1) fo (take l (drop off M)) ss1" "rx_rest ss1 = rx_rest ss"
      "started ss1 ?n H" "ds_msg_type ss1 = t" "knows M K H (buf_block (ds_recvdFragments ss1)) (buf_block (ds_msg_body ss1))"
  proof (cases "ds_recvdHighWater ss = -1")
    case True
    then have K: "K = {}" using holds by (auto simp: rx_holds_def started_def)
    obtain b f where G: "sslBuffer_inv (ds_msg_body ss)" "sslBuffer_inv (ds_recvdFragments ss)"
        "sslBuffer_Grow (en_nspr env) (ds_msg_body ss) ?ml = Inr b"
        "sslBuffer_Grow (en_nspr env) (ds_recvdFragments ss) (?ml div 8 + 1) = Inr f"
      using holds True by (auto simp: rx_holds_def started_def)
    have le: "?ml \<le> 0x1ffff" using ml M(3) by (simp add: word_le_nat_alt)
    obtain frs ss' where F: "dtls_StartReassembly env t ?ml ss = (Inr (), ss')"
        "ss' = ss\<lparr>ds_msg_body := b, ds_recvdFragments := frs, ds_recvdHighWater := 0, ds_msg_type := t, ds_msg_len := ?ml\<rparr>"
        "started ss' (unat ?ml) 0" "\<forall>i < unat ?ml. \<not> known_bit (buf_block frs) i"
      by (rule dtls_StartReassembly_fresh [OF M(1) True G(1,2) le G(3,4)])
    show ?thesis
    proof (rule that [of ss' 0])
      show "dtls_ReassembleFragment env t ?ml fo (take l (drop off M)) ss =
          dtls_ReassembleFragment env t (ds_msg_len ss') fo (take l (drop off M)) ss'"
        using dtls_ReassembleFragment_start [OF F(1)] F(2) by simp
      show "knows M K 0 (buf_block (ds_recvdFragments ss')) (buf_block (ds_msg_body ss'))"
        using F(2,4) K M(2) ml by (simp add: knows_def)
    qed (use F ml in \<open>simp_all add: rx_rest_def\<close>)
  next
    case False
    then obtain H where H: "started ss ?n H" "ds_msg_type ss = t"
        "knows M K H (buf_block (ds_recvdFragments ss)) (buf_block (ds_msg_body ss))"
      using holds by (auto simp: rx_holds_def)
    have "ds_msg_len ss = ?ml" using H(1) ml by (simp add: started_def word_unat_eq_iff)
    then show ?thesis using H by (intro that [of ss H]) simp_all
  qed
  obtain ss' H' where R: "dtls_ReassembleFragment env t (ds_msg_len ss1) fo (take l (drop off M)) ss1 = (Inr (K' = {..<?n}), ss')"
    "rx_rest ss' = rx_rest ss1" "ds_msg_type ss' = t" "started ss' ?n H'"
    "K' \<noteq> {..<?n} \<Longrightarrow> knows M K' H' (buf_block (ds_recvdFragments ss')) (buf_block (ds_msg_body ss'))"
    "K' = {..<?n} \<Longrightarrow> take ?n (buf_block (ds_msg_body ss')) = M"
    by (rule dtls_ReassembleFragment_knows [OF S(3-5) fo fits, of env, folded K'_def]) blast
  have len: "ds_msg_len ss' = ?ml" "?n \<le> length (buf_block (ds_msg_body ss'))"
    using R(4) ml length_buf_block [of "ds_msg_body ss'"] by (simp_all add: started_def word_unat_eq_iff)
  show ?thesis
  proof (rule that [of ss'])
    show "rx_holds env t M K' ss'" if "K' \<noteq> {..<?n}" using that M R(3-5) by (auto simp: rx_holds_def)
  qed (use S(1,2) R(1-3,6) len in simp_all)
qed

section \<open>Fragments on the wire\<close>

definition wire_fragment :: "byte \<Rightarrow> byte list \<Rightarrow> u16 \<Rightarrow> nat \<Rightarrow> nat \<Rightarrow> byte list" where
  "wire_fragment t M seq off l =
     [t] @ be_bytes 3 (length M) @ be_bytes 2 (unat seq) @ be_bytes 3 off @ be_bytes 3 l @ take l (drop off M)"

lemma wire_fragment_fields:
  fixes t :: byte and seq :: u16
  assumes "length M \<le> 0x1ffff" "off + l \<le> length M"
  defines "p \<equiv> wire_fragment t M seq off l"
  shows "length p = 12 + l" "p ! 0 = t" "hs_uint24 p 1 = of_nat (length M)" "hs_uint16 p 4 = seq"
    "unat (hs_uint24 p 6) = off" "unat (hs_uint24 p 9) = l" "drop 12 p = take l (drop off M)"
proof -
  have l3: "be_bytes 3 n = [word_of_nat (n div 65536), word_of_nat (n div 256), word_of_nat n]" for n
    by (simp add: be_bytes_numeral div_mult2_eq [symmetric])
  have l2: "be_bytes 2 n = [word_of_nat (n div 256), word_of_nat n]" for n by (simp add: be_bytes_numeral)
  have v3: "be_value (be_bytes 3 n) = n" if "n \<le> 0x1ffff" for n using that by (simp add: be_value_be_bytes)
  have v2: "be_value (be_bytes 2 (unat seq)) = unat seq"
    using unsigned_less [of seq, where 'a = nat] by (simp add: be_value_be_bytes)
  show "length p = 12 + l" "p ! 0 = t" using assms by (simp_all add: wire_fragment_def)
  show "drop 12 p = take l (drop off M)" by (simp add: p_def wire_fragment_def)
  have "unat (hs_uint24 p 1) = be_value (be_bytes 3 (length M))" unfolding unat_hs_uint24
    by (simp add: p_def wire_fragment_def l3)
  then show "hs_uint24 p 1 = of_nat (length M)"
    using v3 [OF assms(1)] assms(1) by (simp add: word_unat_eq_iff unat_of_nat take_bit_nat_eq_self)
  have "unat (hs_uint16 p 4) = be_value (be_bytes 2 (unat seq))" unfolding unat_hs_uint16
    by (simp add: p_def wire_fragment_def l3 l2)
  then show "hs_uint16 p 4 = seq" using v2 by (simp add: word_unat_eq_iff)
  have "unat (hs_uint24 p 6) = be_value (be_bytes 3 off)" "unat (hs_uint24 p 9) = be_value (be_bytes 3 l)"
    unfolding unat_hs_uint24 by (simp_all add: p_def wire_fragment_def l3 l2)
  then show "unat (hs_uint24 p 6) = off" "unat (hs_uint24 p 9) = l" using v3 assms(1,2) by simp_all
qed

lemma dtls_HandleHandshake_turn_wire:
  assumes M: "length M \<le> 0x1ffff" "off + l \<le> length M" and seq: "ds_recvMessageSeq ss = seq"
  obtains fo where "unat fo = off"
    "dtls_HandleHandshake_turn env (wire_fragment t M seq off l) d ss =
       dtls_HandleFragment env t (of_nat (length M)) seq fo (take l (drop off M)) [] d ss"
proof -
  let ?p = "wire_fragment t M seq off l"
  note W = wire_fragment_fields [OF M, of t seq]
  have ml: "unat (of_nat (length M) :: u32) = length M" using M(1) by (simp add: unat_of_nat take_bit_nat_eq_self)
  have "unat (hs_uint24 ?p 9 + hs_uint24 ?p 6) = l + off" using W(5,6) M by (subst unat_plus_no_wrap) simp_all
  then have c: "\<not> hs_uint24 ?p 9 + hs_uint24 ?p 6 > of_nat (length M)" "\<not> of_nat (length M) > (0x1ffff :: u32)"
    using M ml by (simp_all add: word_less_nat_alt)
  have "dtls_SecondClientHello t seq (hs_uint24 ?p 6) ss = ss" using seq by (simp add: dtls_SecondClientHello_def)
  then have "dtls_HandleHandshake_turn env ?p d ss =
      dtls_HandleFragment env t (of_nat (length M)) seq (hs_uint24 ?p 6) (take l (drop off M)) [] d ss"
    using c W M by (simp add: dtls_HandleHandshake_turn_def Let_def)
  then show ?thesis using that W(5) by blast
qed

text \<open>A record with one fragment: offset, length, and the epoch and the number of the record.\<close>

type_synonym frag = "nat \<times> nat \<times> u16 \<times> u64"

fun frag_span :: "frag \<Rightarrow> nat set" where
  "frag_span (off, l, ep, sn) = {off..<off + l}"

fun frag_in :: "byte list \<Rightarrow> frag \<Rightarrow> bool" where
  "frag_in M (off, l, ep, sn) \<longleftrightarrow> off + l \<le> length M"

definition rx_state :: "'w dtls_env \<Rightarrow> byte \<Rightarrow> byte list \<Rightarrow> u16 \<Rightarrow> nat set \<Rightarrow> 'w dtls_socket \<Rightarrow> bool" where
  "rx_state env t M seq K ss \<longleftrightarrow> rx_holds env t M K ss \<and> ds_recvMessageSeq ss = seq \<and>
     (\<exists>z. PORT_ZAlloc (en_nspr env) sizeof_DTLSHandshakeRecordEntry = Inr z)"

text \<open>
  The record is handled without calling any handler: outside the reassembly only the list of records to
  acknowledge and the ACK timer have changed.
\<close>

fun record_kept :: "'w dtls_env \<Rightarrow> byte \<Rightarrow> byte list \<Rightarrow> u16 \<Rightarrow> frag \<Rightarrow> 'w dtls_socket \<Rightarrow> 'w dtls_socket \<Rightarrow> bool" where
  "record_kept env t M seq (off, l, ep, sn) ss ss' \<longleftrightarrow>
     dtls_HandleHandshake env ep sn (wire_fragment t M seq off l) ss = Some (Inr (), ss') \<and>
     (\<exists>ss1 es tm. rx_rest ss1 = rx_rest (ss\<lparr>ds_endOfFlight := False\<rparr>) \<and>
        ss' = ss1\<lparr>ds_dtlsRcvdHandshake := es, ds_ackTimer := tm\<rparr>)"

text \<open>The record is handled by giving the whole message to its handler.\<close>

fun record_delivers :: "'w dtls_env \<Rightarrow> byte \<Rightarrow> byte list \<Rightarrow> u16 \<Rightarrow> frag \<Rightarrow> 'w dtls_socket \<Rightarrow> bool" where
  "record_delivers env t M seq (off, l, ep, sn) ss \<longleftrightarrow>
     (\<exists>inBody ss1. ds_msg_type ss1 = t \<and> ds_msg_len ss1 = of_nat (length M) \<and>
        rx_rest ss1 = rx_rest (ss\<lparr>ds_endOfFlight := False\<rparr>) \<and>
        dtls_HandleHandshake env ep sn (wire_fragment t M seq off l) ss =
          run_bind (Some (dtls_HandleHandshakeMessage env M inBody True ss1))
            (\<lambda>_ ss. dtls_FinishRecord env ep sn False ss))"

lemma dtls_HandleHandshake_turn_only:
  assumes "p \<noteq> []" "dtls_HandleHandshake_turn env p False (ss\<lparr>ds_endOfFlight := False\<rparr>) =
      run_bind m (\<lambda>_ ss. Some (Inr (HsNext [] False), ss))"
  shows "dtls_HandleHandshake env ep sn p ss = run_bind m (\<lambda>_ ss. dtls_FinishRecord env ep sn False ss)"
proof -
  have "dtls_HandleHandshake_loop env [] d s = Some (Inr (Some d), s)" for d and s :: "'a dtls_socket"
    by (subst dtls_HandleHandshake_loop.simps) simp
  moreover have "dtls_HandleHandshake_loop env p False (ss\<lparr>ds_endOfFlight := False\<rparr>) =
      (case run_bind m (\<lambda>_ ss. Some (Inr (HsNext [] False), ss)) of
            None \<Rightarrow> None
          | Some (Inl e, ss) \<Rightarrow> Some (Inl e, ss)
          | Some (Inr HsStop, ss) \<Rightarrow> Some (Inr None, ss)
          | Some (Inr (HsNext rest discarded), ss) \<Rightarrow> dtls_HandleHandshake_loop env rest discarded ss)"
    using assms by (subst dtls_HandleHandshake_loop.simps) simp
  ultimately show ?thesis
    by (auto simp: dtls_HandleHandshake_def run_bind_def split: option.splits sum.splits prod.splits)
qed

lemma rx_restD:
  assumes "rx_rest ss' = rx_rest ss"
  shows "ds_endOfFlight ss' = ds_endOfFlight ss" "ds_recvMessageSeq ss' = ds_recvMessageSeq ss" "ss_version ss' = ss_version ss"
    "ds_dtlsRcvdHandshake ss' = ds_dtlsRcvdHandshake ss"
  using arg_cong [OF assms, of ds_endOfFlight] arg_cong [OF assms, of ds_recvMessageSeq] arg_cong [OF assms, of ss_version]
    arg_cong [OF assms, of ds_dtlsRcvdHandshake]
  by (simp_all add: rx_rest_def)

text \<open>Without the end of a flight, finishing a record remembers it and at most arms the ACK timer.\<close>

lemma dtls_FinishRecord_ok:
  assumes z: "PORT_ZAlloc (en_nspr env) sizeof_DTLSHandshakeRecordEntry = Inr z" and e: "\<not> ds_endOfFlight ss"
  obtains es t where "dtls_FinishRecord env ep sn d ss = Some (Inr (), ss\<lparr>ds_dtlsRcvdHandshake := es, ds_ackTimer := t\<rparr>)"
proof -
  define m where "m = (if \<not> d \<and> tls13_MaybeTls13 ss
            then dtls13_RememberFragment (en_nspr env) ss (ds_dtlsRcvdHandshake ss) 0 0 0 ep sn
            else Inr (ds_dtlsRcvdHandshake ss))"
  have "\<exists>es. m = Inr es" using z by (simp add: m_def dtls13_RememberFragment_def)
  then obtain es where m: "m = Inr es" ..
  have "\<exists>t. dtls13_SetupAcks env (ss\<lparr>ds_dtlsRcvdHandshake := es\<rparr>) =
      Some (Inr (), ss\<lparr>ds_dtlsRcvdHandshake := es, ds_ackTimer := t\<rparr>)"
    using e by (auto simp: dtls13_SetupAcks_def intro: exI [of _ "ds_ackTimer ss"])
  then show ?thesis using that m by (auto simp: dtls_FinishRecord_def m_def [symmetric])
qed

lemma rx_holds_updates [simp]:
  "rx_holds env t M K (ss\<lparr>ds_endOfFlight := b\<rparr>) = rx_holds env t M K ss"
  "rx_holds env t M K (ss\<lparr>ds_dtlsRcvdHandshake := es, ds_ackTimer := tm\<rparr>) = rx_holds env t M K ss"
  by (simp_all add: rx_holds_def started_def)

lemma record_kept_ok:
  assumes st: "rx_state env t M seq K ss" and f: "frag_in M f" and part: "K \<union> frag_span f \<noteq> {..<length M}"
  shows "\<exists>ss'. record_kept env t M seq f ss ss' \<and> rx_state env t M seq (K \<union> frag_span f) ss'"
proof -
  obtain off l ep sn where f': "f = (off, l, ep, sn)" by (cases f)
  have fits: "off + l \<le> length M" using f f' by simp
  let ?s = "ss\<lparr>ds_endOfFlight := False\<rparr>" and ?n = "of_nat (length M) :: u32"
  obtain z where z: "PORT_ZAlloc (en_nspr env) sizeof_DTLSHandshakeRecordEntry = Inr z" using st by (auto simp: rx_state_def)
  have holds: "rx_holds env t M K ?s" and seq: "ds_recvMessageSeq ?s = seq" and n: "length M \<le> 0x1ffff" "0 < length M"
    using st by (simp_all add: rx_state_def rx_holds_def started_def)
  have ne: "wire_fragment t M seq off l \<noteq> []" by (simp add: wire_fragment_def)
  have K: "K \<union> {off..<off + l} \<noteq> {..<length M}" using part f' by simp
  have sub: "K \<subseteq> {..<length M}" using holds by (auto simp: rx_holds_def knows_def)
  obtain fo where T: "unat fo = off" "dtls_HandleHandshake_turn env (wire_fragment t M seq off l) False ?s =
       dtls_HandleFragment env t ?n seq fo (take l (drop off M)) [] False ?s"
    by (rule dtls_HandleHandshake_turn_wire [OF n(1) fits seq])
  obtain s1 where R: "dtls_ReassembleFragment env t ?n fo (take l (drop off M)) ?s = (Inr False, s1)"
      "rx_rest s1 = rx_rest ?s" "rx_holds env t M (K \<union> {off..<off + l}) s1"
    by (rule dtls_ReassembleFragment_exact [OF holds T(1) fits]) (use K in simp)
  have "\<not> (fo = 0 \<and> of_nat (length (take l (drop off M))) = ?n)"
  proof
    assume a: "fo = 0 \<and> of_nat (length (take l (drop off M))) = ?n"
    then have "off = 0" "l = length M"
      using T(1) fits n by (auto simp: word_unat_eq_iff unat_of_nat take_bit_nat_eq_self)
    then show False using K sub by auto
  qed
  then have "dtls_HandleFragment env t ?n seq fo (take l (drop off M)) [] False ?s =
      run_bind (Some (Inr (), s1)) (\<lambda>_ ss. Some (Inr (HsNext [] False), ss))"
    using seq R(1) by (auto simp: dtls_HandleFragment_def run_bind_def)
  then have "dtls_HandleHandshake env ep sn (wire_fragment t M seq off l) ss = dtls_FinishRecord env ep sn False s1"
    using T(2) dtls_HandleHandshake_turn_only [of "wire_fragment t M seq off l" env ss "Some (Inr (), s1)" ep sn] ne
    by (simp add: run_bind_def)
  moreover have "\<not> ds_endOfFlight s1" "ds_recvMessageSeq s1 = seq" using rx_restD [OF R(2)] seq by simp_all
  moreover from this(1) obtain es tm where "dtls_FinishRecord env ep sn False s1 =
      Some (Inr (), s1\<lparr>ds_dtlsRcvdHandshake := es, ds_ackTimer := tm\<rparr>)"
    by (rule dtls_FinishRecord_ok [OF z])
  ultimately show ?thesis using R(2,3) z f' by (auto simp: rx_state_def)
qed

lemma record_delivers_ok:
  assumes st: "rx_state env t M seq K ss" and f: "frag_in M f" and full: "K \<union> frag_span f = {..<length M}"
  shows "record_delivers env t M seq f ss"
proof -
  obtain off l ep sn where f': "f = (off, l, ep, sn)" by (cases f)
  have fits: "off + l \<le> length M" using f f' by simp
  let ?s = "ss\<lparr>ds_endOfFlight := False\<rparr>" and ?n = "of_nat (length M) :: u32" and ?p = "wire_fragment t M seq off l"
  have holds: "rx_holds env t M K ?s" and seq: "ds_recvMessageSeq ?s = seq" and n: "length M \<le> 0x1ffff" "0 < length M"
    using st by (simp_all add: rx_state_def rx_holds_def started_def)
  have un: "unat ?n = length M" using n by (simp add: unat_of_nat take_bit_nat_eq_self)
  have K: "K \<union> {off..<off + l} = {..<length M}" using full f' by simp
  have ne: "?p \<noteq> []" by (simp add: wire_fragment_def)
  obtain fo where T: "unat fo = off" "dtls_HandleHandshake_turn env ?p False ?s =
       dtls_HandleFragment env t ?n seq fo (take l (drop off M)) [] False ?s"
    by (rule dtls_HandleHandshake_turn_wire [OF n(1) fits seq])
  have "\<exists>inBody ss1. ds_msg_type ss1 = t \<and> ds_msg_len ss1 = ?n \<and> rx_rest ss1 = rx_rest ?s \<and>
      dtls_HandleHandshake_turn env ?p False ?s =
        run_bind (Some (dtls_HandleHandshakeMessage env M inBody True ss1)) (\<lambda>_ ss. Some (Inr (HsNext [] False), ss))"
  proof (cases "fo = 0 \<and> of_nat (length (take l (drop off M))) = ?n")
    case True
    then have "off = 0" "l = length M"
      using T(1) fits n by (auto simp: word_unat_eq_iff unat_of_nat take_bit_nat_eq_self)
    then show ?thesis using T(2) True seq
      by (intro exI [of _ False] exI [of _ "?s\<lparr>ds_msg_type := t, ds_msg_len := ?n\<rparr>"])
         (simp add: dtls_HandleFragment_def rx_rest_def)
  next
    case False
    obtain s1 where R: "dtls_ReassembleFragment env t ?n fo (take l (drop off M)) ?s = (Inr True, s1)"
        "rx_rest s1 = rx_rest ?s" "ds_msg_type s1 = t" "ds_msg_len s1 = ?n"
        "length M \<le> length (buf_block (ds_msg_body s1))" "take (length M) (buf_block (ds_msg_body s1)) = M"
      by (rule dtls_ReassembleFragment_exact [OF holds T(1) fits]) (use K in simp)
    have "mem_read (buf_block (ds_msg_body s1)) 0 (unat (ds_msg_len s1)) = Inr M"
      using R(4-6) un by (simp add: mem_read_def)
    then have "dtls_HandleFragment env t ?n seq fo (take l (drop off M)) [] False ?s =
        run_bind (Some (dtls_HandleHandshakeMessage env M True True s1)) (\<lambda>_ ss. Some (Inr (HsNext [] False), ss))"
      using False seq R(1) by (auto simp: dtls_HandleFragment_def run_bind_def)
    then show ?thesis using T(2) R(2-4) by auto
  qed
  then show ?thesis using dtls_HandleHandshake_turn_only [OF ne] f' by fastforce
qed

section \<open>Any order, any overlap\<close>

text \<open>
  A receiver of fragments: it holds a set of bytes, keeps a fragment by adding its bytes, and delivers
  when a fragment makes the set whole.
\<close>

locale fragment_sink =
  fixes holds :: "nat set \<Rightarrow> 's \<Rightarrow> bool" and valid :: "'f \<Rightarrow> bool" and span :: "'f \<Rightarrow> nat set" and whole :: "nat set"
    and keeps :: "'f \<Rightarrow> 's \<Rightarrow> 's \<Rightarrow> bool" and delivers :: "'f \<Rightarrow> 's \<Rightarrow> bool"
  assumes keep: "holds K s \<Longrightarrow> valid f \<Longrightarrow> K \<union> span f \<noteq> whole \<Longrightarrow> \<exists>s'. keeps f s s' \<and> holds (K \<union> span f) s'"
    and deliver: "holds K s \<Longrightarrow> valid f \<Longrightarrow> K \<union> span f = whole \<Longrightarrow> delivers f s"

text \<open>A sequence of fragments that are all kept.\<close>

inductive feeds :: "('f \<Rightarrow> 's \<Rightarrow> 's \<Rightarrow> bool) \<Rightarrow> 'f list \<Rightarrow> 's \<Rightarrow> 's \<Rightarrow> bool" for keeps where
  feeds_Nil: "feeds keeps [] s s"
| feeds_Cons: "keeps f s s' \<Longrightarrow> feeds keeps fs s' s'' \<Longrightarrow> feeds keeps (f # fs) s s''"

inductive_simps feeds_simps [simp]: "feeds keeps [] s s'" "feeds keeps (f # fs) s s'"

context fragment_sink
begin

lemma delivery:
  assumes "holds K s" "K \<noteq> whole" "\<forall>f \<in> set fs. valid f" "K \<union> (\<Union>f \<in> set fs. span f) = whole"
  shows "\<exists>as f bs s'. fs = as @ f # bs \<and> feeds keeps as s s' \<and> delivers f s'"
  using assms
proof (induction fs arbitrary: K s)
  case Nil
  then show ?case by simp
next
  case (Cons f fs)
  show ?case
  proof (cases "K \<union> span f = whole")
    case True
    then have "delivers f s" using Cons.prems by (intro deliver) simp_all
    then show ?thesis by (intro exI [of _ "[]"]) auto
  next
    case False
    obtain s1 where 1: "keeps f s s1" "holds (K \<union> span f) s1" using keep [OF Cons.prems(1) _ False] Cons.prems(3) by auto
    obtain as g bs s' where "fs = as @ g # bs" "feeds keeps as s1 s'" "delivers g s'"
      using Cons.IH [OF 1(2) False] Cons.prems(3,4) by (auto simp: Un_assoc)
    then show ?thesis using 1(1) by (intro exI [of _ "f # as"]) auto
  qed
qed

lemma no_delivery:
  assumes "holds K s" "\<forall>f \<in> set fs. valid f" "\<And>i. i \<in> whole \<Longrightarrow> i \<in> K \<union> (\<Union>f \<in> set fs. span f) \<Longrightarrow> i \<noteq> j" "j \<in> whole"
  shows "\<exists>s'. feeds keeps fs s s' \<and> holds (K \<union> (\<Union>f \<in> set fs. span f)) s'"
  using assms
proof (induction fs arbitrary: K s)
  case Nil
  then show ?case by auto
next
  case (Cons f fs)
  have "K \<union> span f \<noteq> whole" using Cons.prems(3) [of j] Cons.prems(4) by auto
  then obtain s1 where 1: "keeps f s s1" "holds (K \<union> span f) s1" using keep [OF Cons.prems(1)] Cons.prems(2) by auto
  obtain s' where "feeds keeps fs s1 s'" "holds (K \<union> span f \<union> (\<Union>f \<in> set fs. span f)) s'"
    using Cons.IH [OF 1(2)] Cons.prems(2-4) by (auto simp: Un_assoc)
  then show ?case using 1(1) by (auto simp: Un_assoc)
qed

end

interpretation reassembler: fragment_sink "rx_state env t M seq" "frag_in M" frag_span "{..<length M}"
  "record_kept env t M seq" "record_delivers env t M seq" for env t M seq
  by unfold_locales (fact record_kept_ok, fact record_delivers_ok)

text \<open>
  C4: handshake messages are put together exactly. Take a receiver that expects this message, has
  memory for it and has no reassembly in progress. If records with fragments of the message arrive, in
  any order, with any overlap and any repetition, and together cover the message, then at some point
  the message is given to its handler with its type and all its bytes, and all records before that
  are kept without calling any handler.
\<close>

theorem dtls_reassembly_exact:
  assumes "rx_state env t M seq {} ss" and "\<forall>f \<in> set fs. frag_in M f"
    and "(\<Union>f \<in> set fs. frag_span f) = {..<length M}"
  shows "\<exists>as f bs ss'. fs = as @ f # bs \<and> feeds (record_kept env t M seq) as ss ss' \<and>
    record_delivers env t M seq f ss'"
proof -
  have "{} \<noteq> {..<length M}" using assms(1) by (auto simp: rx_state_def rx_holds_def)
  then show ?thesis using reassembler.delivery [OF assms(1) _ assms(2)] assms(3) by simp
qed

text \<open>
  C37: as long as a byte is missing nothing is delivered. Records with fragments of the message, none of
  which has the byte \<open>j\<close>, are all kept without calling any handler, and the receiver knows just the
  bytes that have arrived.
\<close>

theorem dtls_reassembly_waits:
  assumes "rx_state env t M seq {} ss" and "\<forall>f \<in> set fs. frag_in M f"
    and "j < length M" and "\<forall>f \<in> set fs. j \<notin> frag_span f"
  shows "\<exists>ss'. feeds (record_kept env t M seq) fs ss ss' \<and>
    rx_state env t M seq (\<Union>f \<in> set fs. frag_span f) ss'"
  using reassembler.no_delivery [OF assms(1,2), of j] assms(3,4) by auto

section \<open>A concrete receiver\<close>

definition waiting_receiver :: "byte list list dtls_socket" where
  "waiting_receiver = example_socket\<lparr>ds_recvMessageSeq := 5\<rparr>"

definition example_body :: "byte list" where
  "example_body = [0xa, 0xb, 0xc]"

lemma zero_nspr_Grow: "0 < n \<Longrightarrow> unat n \<le> 2048 \<Longrightarrow> \<exists>b. sslBuffer_Grow zero_nspr SSL_BUFFER_EMPTY n = Inr b"
  by (simp add: sslBuffer_Grow_def SSL_BUFFER_EMPTY_def PORT_Alloc_def zero_nspr_def MAX_SIZE_def max_def word_le_nat_alt)

lemma waiting_receiver_state: "rx_state example_env 2 example_body 5 {} waiting_receiver"
  using zero_nspr_ok zero_nspr_Grow [of 3] zero_nspr_Grow [of 1] sslBuffer_inv_SSL_BUFFER_EMPTY
  by (simp add: rx_state_def rx_holds_def waiting_receiver_def example_socket_def example_env_def example_body_def
      PORT_ZAlloc_def zero_nspr_def MAX_SIZE_def)

theorem dtls_reassembly_exact_witness:
  "\<exists>as f bs ss'. [(2, 1, 0, 0), (1, 2, 0, 1), (0, 2, 0, 2)] = as @ f # bs \<and>
     feeds (record_kept example_env 2 [0xa, 0xb, 0xc] 5) as waiting_receiver ss' \<and>
     record_delivers example_env 2 [0xa, 0xb, 0xc] 5 f ss'"
proof -
  let ?fs = "[(2, 1, 0, 0), (1, 2, 0, 1), (0, 2, 0, 2)] :: frag list"
  have in_M: "\<forall>f \<in> set ?fs. frag_in example_body f" by (simp add: example_body_def)
  have "(\<Union>f \<in> set ?fs. frag_span f) = {..<length example_body}" by (auto simp: example_body_def)
  from dtls_reassembly_exact [OF waiting_receiver_state in_M this]
  show ?thesis unfolding example_body_def .
qed

theorem dtls_reassembly_waits_witness:
  "\<exists>ss'. feeds (record_kept example_env 2 example_body 5) [(2, 1, 0, 0), (1, 2, 0, 1)] waiting_receiver ss' \<and>
     rx_state example_env 2 example_body 5 {1, 2} ss'"
proof -
  have "(\<Union>f \<in> set [(2, 1, 0, 0), (1, 2, 0, 1)]. frag_span f) = {1, 2}" by auto
  then show ?thesis
    using dtls_reassembly_waits [OF waiting_receiver_state, of "[(2, 1, 0, 0), (1, 2, 0, 1)]" 0]
    by (simp add: example_body_def)
qed

lemma example_handlers_keep: "handlers_keep example_env"
  by (simp add: handlers_keep_def example_env_def)

theorem dtls_reassembly_memory_safe_witness:
  "(\<exists>r ss'. dtls_HandleHandshake_loop example_env [1, 2, 3] False waiting_receiver = Some (r, ss') \<and>
      reassembly_inv ss' \<and> r \<noteq> Inl UNDEFINED_BEHAVIOUR) \<or>
   (\<exists>ss'. reassembly_inv ss' \<and> dtls_HandleHandshake_loop example_env [1, 2, 3] False waiting_receiver =
      run_bind (dtls_RetransmitDetected example_env ss') (\<lambda>_ ss. Some (Inr None, ss)))"
proof -
  have "nspr_ok (en_nspr example_env)" using zero_nspr_ok by (simp add: example_env_def)
  moreover have "reassembly_inv waiting_receiver"
    using sslBuffer_inv_SSL_BUFFER_EMPTY by (simp add: reassembly_inv_def waiting_receiver_def example_socket_def)
  ultimately show ?thesis by (rule dtls_reassembly_memory_safe [OF example_handlers_keep])
qed

lemma dtls_ReassembleFragment_first:
  assumes st: "started ss len H" and l: "length frag \<le> len" "H < length frag"
  obtains body frs H' where
    "dtls_ReassembleFragment env t (ds_msg_len ss) 0 frag ss = (Inr (H' = len),
       ss\<lparr>ds_msg_body := body, ds_recvdFragments := frs, ds_recvdHighWater := int H'\<rparr>)"
    "started (ss\<lparr>ds_msg_body := body, ds_recvdFragments := frs, ds_recvdHighWater := int H'\<rparr>) len H'"
    "\<forall>i < len. buf_block body ! i = (if i < length frag then frag ! i else buf_block (ds_msg_body ss) ! i)"
    "\<forall>i. known_bit (buf_block frs) i \<longleftrightarrow> known_bit (buf_block (ds_recvdFragments ss)) i"
    "length frag \<le> H'" "H' < len \<longrightarrow> \<not> known_bit (buf_block frs) H'"
proof (rule dtls_ReassembleFragment_run [OF st, of 0 0 frag env t])
  show "unat (0 :: u32) = 0" "0 + length frag \<le> len" using l by simp_all
  fix body frs H'
  assume 1: "dtls_ReassembleFragment env t (ds_msg_len ss) 0 frag ss = (Inr (H' = len),
       ss\<lparr>ds_msg_body := body, ds_recvdFragments := frs, ds_recvdHighWater := int H'\<rparr>)"
    and 2: "started (ss\<lparr>ds_msg_body := body, ds_recvdFragments := frs, ds_recvdHighWater := int H'\<rparr>) len H'"
    and 3: "\<forall>i < len. buf_block body ! i = (if 0 \<le> i \<and> i < 0 + length frag \<and> H < 0 + length frag then frag ! (i - 0)
        else buf_block (ds_msg_body ss) ! i)"
    and 4: "\<forall>i. known_bit (buf_block frs) i \<longleftrightarrow>
       known_bit (buf_block (ds_recvdFragments ss)) i \<or> H < 0 \<and> 0 \<le> i \<and> i < 0 + length frag"
    and 5: "(if 0 \<le> H then max H (0 + length frag) else H) \<le> H'"
    and 6: "H' < len \<longrightarrow> \<not> known_bit (buf_block frs) H'"
  have "\<forall>i < len. buf_block body ! i = (if i < length frag then frag ! i else buf_block (ds_msg_body ss) ! i)"
    using 3 l(2) by simp
  moreover have "\<forall>i. known_bit (buf_block frs) i \<longleftrightarrow> known_bit (buf_block (ds_recvdFragments ss)) i" using 4 by simp
  moreover have "length frag \<le> H'" using 5 by simp
  ultimately show thesis using that 1 2 6 by blast
qed

text \<open>A fragment from the start of another message of that length that closes the gap.\<close>

lemma knows_gap:
  assumes k: "knows M K H bits body" and full: "K \<union> {..<l} = {..<length M}"
  shows "H < l" "i < length M \<Longrightarrow> l \<le> i \<Longrightarrow> body ! i = M ! i \<and> known_bit bits i"
proof -
  have "H \<in> K \<union> {..<l}" "H \<notin> K" using k unfolding full by (simp_all add: knows_def)
  then show H: "H < l" by simp
  assume i: "i < length M" "l \<le> i"
  then have "i \<in> K \<union> {..<l}" unfolding full by simp
  then show "body ! i = M ! i \<and> known_bit bits i" using i H k by (simp add: knows_def)
qed

lemma dtls_ReassembleFragment_mixed:
  assumes holds: "rx_holds env t M K ss" and len: "length M' = length M" and l: "l < length M"
    and full: "K \<union> {..<l} = {..<length M}"
  obtains s1 where "dtls_ReassembleFragment env t (of_nat (length M)) 0 (take l M') ss = (Inr True, s1)"
    "ds_msg_type s1 = t" "ds_recvMessageSeq s1 = ds_recvMessageSeq ss"
    "mem_read (buf_block (ds_msg_body s1)) 0 (unat (ds_msg_len s1)) = Inr (take l M' @ drop l M)"
proof -
  let ?n = "length M"
  have "{..<l} \<noteq> {..<?n}" using l by simp
  then have ne: "K \<noteq> {}" using full by (metis Un_empty_left)
  obtain H where H: "started ss ?n H" "ds_msg_type ss = t"
      "knows M K H (buf_block (ds_recvdFragments ss)) (buf_block (ds_msg_body ss))" and n: "?n \<le> 0x1ffff"
    using holds ne by (auto simp: rx_holds_def)
  note G = knows_gap [OF H(3) full]
  have ml: "ds_msg_len ss = of_nat ?n" using H(1) n by (simp add: started_def word_unat_eq_iff unat_of_nat take_bit_nat_eq_self)
  have fr: "length (take l M') = l" using len l by simp
  have cap: "length (take l M') \<le> ?n" "H < length (take l M')" using G(1) fr l by simp_all
  obtain body frs H' where Q:
    "dtls_ReassembleFragment env t (ds_msg_len ss) 0 (take l M') ss = (Inr (H' = ?n),
       ss\<lparr>ds_msg_body := body, ds_recvdFragments := frs, ds_recvdHighWater := int H'\<rparr>)"
    "started (ss\<lparr>ds_msg_body := body, ds_recvdFragments := frs, ds_recvdHighWater := int H'\<rparr>) ?n H'"
    "\<forall>i < ?n. buf_block body ! i = (if i < length (take l M') then take l M' ! i else buf_block (ds_msg_body ss) ! i)"
    "\<forall>i. known_bit (buf_block frs) i \<longleftrightarrow> known_bit (buf_block (ds_recvdFragments ss)) i"
    "length (take l M') \<le> H'" "H' < ?n \<longrightarrow> \<not> known_bit (buf_block frs) H'"
    by (rule dtls_ReassembleFragment_first [OF H(1) cap, of env t]) blast
  have "\<not> H' < ?n" using Q(4-6) G(2) [of H'] fr by auto
  then have H': "H' = ?n" using Q(2) by (simp add: started_def)
  have lb: "?n \<le> length (buf_block body)" using Q(2) length_buf_block [of body] by (simp add: started_def)
  have "take ?n (buf_block body) = take l M' @ drop l M"
  proof (rule nth_equalityI)
    show "length (take ?n (buf_block body)) = length (take l M' @ drop l M)" using lb len l by simp
    fix i assume "i < length (take ?n (buf_block body))"
    then show "take ?n (buf_block body) ! i = (take l M' @ drop l M) ! i"
      using Q(3) fr l G(2) [of i] by (auto simp: nth_append)
  qed
  then show ?thesis using that Q(1) H' H(1,2) lb ml by (simp add: mem_read_def started_def)
qed

text \<open>
  C38: a retried ClientHello is completed with bytes of the first one. A server that waits for a
  ClientHello and holds a part of the first one moves on to message 1 when a first fragment of message
  1 arrives, but keeps the reassembly: if the second hello has the length of the first, and the
  fragment fills the gap, the handler gets the beginning of the second hello followed by the rest of
  the first.
\<close>

theorem dtls_second_hello_mixed:
  assumes holds: "rx_holds env ssl_hs_client_hello M K ss"
    and seq: "ds_recvMessageSeq ss = 0" and ws: "ds_ws ss = wait_client_hello"
    and len: "length M' = length M" and l: "l < length M" and full: "K \<union> {..<l} = {..<length M}"
  shows "\<exists>ss1. ds_msg_type ss1 = ssl_hs_client_hello \<and> ds_recvMessageSeq ss1 = 1 \<and>
    dtls_HandleHandshake env ep sn (wire_fragment ssl_hs_client_hello M' 1 0 l) ss =
      run_bind (Some (dtls_HandleHandshakeMessage env (take l M' @ drop l M) True True ss1))
        (\<lambda>_ ss. dtls_FinishRecord env ep sn False ss)"
proof -
  let ?n = "length M" and ?p = "wire_fragment ssl_hs_client_hello M' 1 0 l"
  let ?s = "ss\<lparr>ds_endOfFlight := False, ds_recvMessageSeq := 1, ds_helloRetry := True\<rparr>"
  have hs: "rx_holds env ssl_hs_client_hello M K ?s" and n: "?n \<le> 0x1ffff"
    using holds by (simp_all add: rx_holds_def started_def)
  obtain s1 where R: "dtls_ReassembleFragment env ssl_hs_client_hello (of_nat ?n) 0 (take l M') ?s = (Inr True, s1)"
      "ds_msg_type s1 = ssl_hs_client_hello" "ds_recvMessageSeq s1 = ds_recvMessageSeq ?s"
      "mem_read (buf_block (ds_msg_body s1)) 0 (unat (ds_msg_len s1)) = Inr (take l M' @ drop l M)"
    by (rule dtls_ReassembleFragment_mixed [OF hs len l full]) blast
  note W = wire_fragment_fields [of M' 0 l ssl_hs_client_hello 1]
  have "hs_uint24 ?p 6 = 0" "\<not> hs_uint24 ?p 9 > of_nat ?n" "\<not> of_nat ?n > (0x1ffff :: u32)"
    using W n len l by (simp_all add: word_unat_eq_iff word_less_nat_alt unat_of_nat take_bit_nat_eq_self)
  then have turn: "dtls_HandleHandshake_turn env ?p False (ss\<lparr>ds_endOfFlight := False\<rparr>) =
      dtls_HandleFragment env ssl_hs_client_hello (of_nat ?n) 1 0 (take l M') [] False ?s"
    using W n len l seq ws by (simp add: dtls_HandleHandshake_turn_def dtls_SecondClientHello_def Let_def)
  have "of_nat (length (take l M')) \<noteq> (of_nat ?n :: u32)"
    using l n len by (simp add: word_unat_eq_iff unat_of_nat take_bit_nat_eq_self)
  then have "dtls_HandleFragment env ssl_hs_client_hello (of_nat ?n) 1 0 (take l M') [] False ?s =
      run_bind (Some (dtls_HandleHandshakeMessage env (take l M' @ drop l M) True True s1))
        (\<lambda>_ ss. Some (Inr (HsNext [] False), ss))"
    using R(1,4) by (simp add: dtls_HandleFragment_def run_bind_def)
  then have "dtls_HandleHandshake env ep sn ?p ss =
      run_bind (Some (dtls_HandleHandshakeMessage env (take l M' @ drop l M) True True s1))
        (\<lambda>_ ss. dtls_FinishRecord env ep sn False ss)"
    using turn by (intro dtls_HandleHandshake_turn_only) (simp_all add: wire_fragment_def)
  then show ?thesis using R(2,3) by (intro exI [of _ s1]) simp
qed

lemma hello_receiver_state:
  "rx_state example_env 1 example_body 0 {} (example_socket\<lparr>ds_recvMessageSeq := 0, ds_ws := wait_client_hello\<rparr>)"
  using zero_nspr_ok zero_nspr_Grow [of 3] zero_nspr_Grow [of 1] sslBuffer_inv_SSL_BUFFER_EMPTY
  by (simp add: rx_state_def rx_holds_def example_socket_def example_env_def example_body_def
      PORT_ZAlloc_def zero_nspr_def MAX_SIZE_def)

theorem dtls_second_hello_mixed_witness:
  "\<exists>ss ss1. feeds (record_kept example_env 1 [0xa, 0xb, 0xc] 0) [(1, 2, 0, 0)]
       (example_socket\<lparr>ds_recvMessageSeq := 0, ds_ws := wait_client_hello\<rparr>) ss \<and>
     ds_msg_type ss1 = ssl_hs_client_hello \<and> ds_recvMessageSeq ss1 = 1 \<and>
     dtls_HandleHandshake example_env 0 1 (wire_fragment ssl_hs_client_hello [0xd, 0xe, 0xf] 1 0 1) ss =
       run_bind (Some (dtls_HandleHandshakeMessage example_env [0xd, 0xb, 0xc] True True ss1))
         (\<lambda>_ ss. dtls_FinishRecord example_env 0 1 False ss)"
proof -
  let ?s = "example_socket\<lparr>ds_recvMessageSeq := 0, ds_ws := wait_client_hello\<rparr>"
  have span: "{} \<union> frag_span (1, 2, 0, 0) = {1, 2}" by auto
  have "0 \<notin> frag_span (1, 2, 0, 0)" "0 \<in> {..<length example_body}" by (simp_all add: example_body_def)
  then have part: "{} \<union> frag_span (1, 2, 0, 0) \<noteq> {..<length example_body}" by (metis Un_empty_left)
  have "frag_in example_body (1, 2, 0, 0)" by (simp add: example_body_def)
  from record_kept_ok [OF hello_receiver_state this part, unfolded span]
  obtain ss where k: "record_kept example_env 1 example_body 0 (1, 2, 0, 0) ?s ss"
      and st: "rx_state example_env 1 example_body 0 {1, 2} ss" by blast
  obtain s1 es tm where s1: "rx_rest s1 = rx_rest (?s\<lparr>ds_endOfFlight := False\<rparr>)"
      "ss = s1\<lparr>ds_dtlsRcvdHandshake := es, ds_ackTimer := tm\<rparr>" using k unfolding record_kept.simps by blast
  have ws: "ds_ws ss = wait_client_hello" using arg_cong [OF s1(1), of ds_ws] s1(2) by (simp add: rx_rest_def)
  have pre: "rx_holds example_env ssl_hs_client_hello example_body {1, 2} ss" "ds_recvMessageSeq ss = 0"
    using st by (simp_all add: rx_state_def)
  have "{1, 2} \<union> {..<1} = {..<length example_body}" by (auto simp: example_body_def)
  from dtls_second_hello_mixed [OF pre ws _ _ this, of "[0xd, 0xe, 0xf]" 0 1]
  obtain ss1 where "ds_msg_type ss1 = ssl_hs_client_hello" "ds_recvMessageSeq ss1 = 1"
      "dtls_HandleHandshake example_env 0 1 (wire_fragment ssl_hs_client_hello [0xd, 0xe, 0xf] 1 0 1) ss =
       run_bind (Some (dtls_HandleHandshakeMessage example_env (take 1 [0xd, 0xe, 0xf] @ drop 1 example_body) True True ss1))
         (\<lambda>_ ss. dtls_FinishRecord example_env 0 1 False ss)"
    by (simp add: example_body_def) blast
  moreover have "take 1 [0xd, 0xe, 0xf] @ drop 1 example_body = [0xd, 0xb, 0xc]" by (simp add: example_body_def)
  moreover have "feeds (record_kept example_env 1 [0xa, 0xb, 0xc] 0) [(1, 2, 0, 0)] ?s ss"
    using k unfolding example_body_def feeds_simps by blast
  ultimately show ?thesis by metis
qed

end
