(* ===== verification/Spec2Isabelle.thy ===== *)
theory Spec2Isabelle
  imports Nss_Prelude Ssl_Encode Sec_Item Dtls_Window Aead_Iv Record_Layer Base64_Encode Base64_Decode Hkdf_Label Anti_Replay Dtls_Socket Dtls_Flight Dtls_Ack Dtls_Reassembly
begin

text \<open>
  A verification library for NSS, the C libraries that implement TLS, DTLS, PKCS #11 and the
  certificate and message formats around them. The library follows a TLS 1.3 or DTLS 1.3 connection
  from the bytes of a message to the datagrams on the network and back, together with the utility
  layers that this path uses.

  \<^bold>\<open>The program and its model\<close>

  \<^item> \<open>Nss_Prelude\<close>: error codes, results as error or value, memory as lists of bytes, big-endian
    numbers, and the allocation wrappers of \<^verbatim>\<open>lib/util/secport.c\<close> over an allocator that is a
    parameter. An access outside a block is the value \<open>UNDEFINED_BEHAVIOUR\<close>, so memory safety is
    that this value is never returned.
  \<^item> \<open>Ssl_Encode\<close>: \<^verbatim>\<open>sslBuffer\<close> and \<^verbatim>\<open>sslReader\<close> of
    \<^verbatim>\<open>lib/ssl/sslencode.c\<close>, at 32 bits. Everything that writes messages uses them.
  \<^item> \<open>Sec_Item\<close>: the byte strings of \<^verbatim>\<open>lib/util/secitem.c\<close> on heap and arena.
  \<^item> \<open>Base64_Encode\<close>, \<open>Base64_Decode\<close>: the streaming and one-shot codecs of
    \<^verbatim>\<open>lib/util/nssb64e.c\<close> and \<^verbatim>\<open>lib/util/nssb64d.c\<close>, with callbacks and line breaks.
  \<^item> \<open>Aead_Iv\<close>: the nonce generators of \<^verbatim>\<open>lib/freebl/gcm.c\<close> and
    \<^verbatim>\<open>lib/pk11wrap/pk11cxt.c\<close>.
  \<^item> \<open>Hkdf_Label\<close>: key derivation of \<^verbatim>\<open>lib/ssl/tls13hkdf.c\<close> over a token that is a parameter.
  \<^item> \<open>Anti_Replay\<close>: the Bloom filter \<^verbatim>\<open>lib/ssl/sslbloom.c\<close> and the 0-RTT replay check
    \<^verbatim>\<open>lib/ssl/tls13replay.c\<close>.
  \<^item> \<open>Dtls_Window\<close>: the replay window and the numbers of DTLS headers in
    \<^verbatim>\<open>lib/ssl/dtlscon.c\<close>.
  \<^item> \<open>Record_Layer\<close>: protection and opening of records in \<^verbatim>\<open>lib/ssl/ssl3con.c\<close>,
    \<^verbatim>\<open>lib/ssl/tls13con.c\<close> and \<^verbatim>\<open>lib/ssl/dtls13con.c\<close>; it uses the buffers, the nonces and
    the window.
  \<^item> \<open>Dtls_Socket\<close>: the socket state of the DTLS handshake, the writer of records
    (\<^verbatim>\<open>ssl3_SendRecord\<close>) and the pending buffer of \<^verbatim>\<open>lib/ssl/sslsecur.c\<close>.
  \<^item> \<open>Dtls_Flight\<close>: queueing, fragmentation, transmission and retransmission of flights in
    \<^verbatim>\<open>lib/ssl/dtlscon.c\<close>, the record of what is acknowledged in \<^verbatim>\<open>lib/ssl/dtls13con.c\<close>,
    and the building of handshake messages in \<^verbatim>\<open>lib/ssl/sslencode.c\<close>.
  \<^item> \<open>Dtls_Ack\<close>: acknowledgements of \<^verbatim>\<open>lib/ssl/dtls13con.c\<close> and the timer check of
    \<^verbatim>\<open>lib/ssl/dtlscon.c\<close>.
  \<^item> \<open>Dtls_Reassembly\<close>: \<^verbatim>\<open>dtls_HandleHandshake\<close> and the dispatch to the message handlers.

  Structs are records whose fields have the names of the code behind a short prefix, enumerations are
  datatypes, and each function has a definition of its own name; the body of a long function is cut
  into definitions for its loops and phases. Functions that change the socket take it and return it
  with the result. Integers keep their width where the code can wrap; lengths and offsets that the
  code has bounded are natural numbers.

  \<^bold>\<open>What is shown\<close>

  \<^item> Memory safety: any use of the buffers that stays below 4 GiB, decoding any Base64 text, and
    handling any handshake record stay inside their blocks.
  \<^item> Round trips: records, length-prefixed vectors, Base64 in any pieces, and acknowledgements.
  \<^item> Uniqueness and replay: nonces never repeat under one context, the replay window is the set of the
    numbers received, no DTLS record and no 0-RTT attempt is accepted twice, labels separate keys.
  \<^item> The DTLS handshake: a transmission returns and sends every byte that is not acknowledged, in
    datagrams within the MTU; an acknowledgement ends the flight; an expired timer sends it again; and a
    receiver puts messages together exactly, from fragments in any order.
  \<^item> In this theory: the sender and the receiver together deliver a message.
  \<^item> Defects of the code as theorems: unchecked length sums, the nonce mask, the hash count of the Bloom
    filter, the back-off of the MTU, messages larger than the send buffer, and a retried ClientHello
    completed with bytes of the first.

  \<^bold>\<open>Interfaces\<close>

  Locales state the contracts between parts, and each is interpreted on the definitions of the model:
  writers, readers and codecs of TLS vectors (\<open>tls_writer\<close>, \<open>tls_reader\<close>, \<open>tls_codec\<close>), sources
  of nonces (\<open>nonce_source\<close>), replay filters (\<open>replay_filter\<close>), membership filters and the
  guards built on them (\<open>membership_filter\<close>, \<open>timed_guard\<close>), the sink of an encoder
  (\<open>encoder_sink\<close>) and receivers of fragments (\<open>fragment_sink\<close>), whose set of known bytes the
  reassembly refines.

  \<^bold>\<open>Parameters\<close>

  The allocator, the token, the network, the clock, random bytes, callbacks of the application,
  protection before TLS 1.3, the alert writer, the handshake hash, certificate authentication and the
  handlers of the individual messages are arguments. What is assumed of them is named where it is used,
  such as \<open>nspr_ok\<close> (a block has the size asked for), \<open>aead_token_ok\<close>, \<open>mac_encrypt_ok\<close> and
  \<open>handlers_keep\<close> (a handler leaves the reassembly buffers alone). Witnesses instantiate them with
  concrete functions.

  \<^bold>\<open>Bounds and loops\<close>

  Loops over data are recursive functions with termination proofs. The loops that write records,
  fragments and parts of messages, and those that could run for ever in principle, are partial
  functions into an option; that they return is part of the theorems. There is no fuel. Handshake
  messages are at most 128 KiB as the code requires, and queued messages below 64 KiB, the range of
  their length field.

  \<^bold>\<open>Not modelled\<close>

  The handshake state machines of \<^verbatim>\<open>ssl3con.c\<close> and \<^verbatim>\<open>tls13con.c\<close> beyond the parts above,
  extensions, session caches and encrypted ClientHello: they work on certificates, keys and policies of
  the layers below. Certificate databases and path validation, PKCS #11 modules and their storage,
  PKCS #7, PKCS #12 and CMS: their behaviour is that of decoded objects and tokens. The ASN.1 template
  coders, and the primitives of freebl apart from the nonce generator. Command-line tools and tests.
  Locks, tracing, reference counts of specs for writing, and the order in which memory is freed are left
  out everywhere: the functions modelled run under the locks the code asserts.
\<close>

text \<open>A sender with a record callback and one message, and the run of its transmission.\<close>

definition fresh_sender :: "byte list list dtls_socket" where
  "fresh_sender = example_socket\<lparr>ds_lastMessageFlight := [example_message]\<rparr>"

section \<open>A flight from the sender to the receiver\<close>

lemma hs_fragment_wire:
  assumes "take 6 (qm_data msg) = [t] @ be_bytes 3 (content_len msg) @ be_bytes 2 (unat seq)" "message_ok msg"
  shows "hs_fragment msg s l = wire_fragment t (drop 12 (qm_data msg)) seq s l"
    and "length (drop 12 (qm_data msg)) = content_len msg"
  using assms by (simp_all add: hs_fragment_def wire_fragment_def message_ok_def content_len_def add.commute)

lemma wire_fragment_inject:
  assumes "length M \<le> 0x1ffff" "off + l \<le> length M" "off' + l' \<le> length M"
    and "wire_fragment t M seq off l = wire_fragment t M seq off' l'"
  shows "off = off'" "l = l'"
  using wire_fragment_fields(5,6) [OF assms(1,2), of t seq] wire_fragment_fields(5,6) [OF assms(1,3), of t seq] assms(4)
  by simp_all

text \<open>
  C3: what the sender transmits, the receiver delivers. Transmitting a flight returns; when it succeeds,
  take a handshake message of the flight of which nothing was acknowledged, with header fields that
  describe it. A receiver that expects this message and has memory for it, and gets the records that
  carry its fragments in any order and any number of times, keeps them until at one of them it gives the
  exact content of the message to its handler.
\<close>

theorem dtls_flight_delivered:
  assumes ok: "tx_ok env ss" "sb_len (ds_pendingBuf ss) = 0" "entries_ok (ds_dtlsSentHandshake ss)"
      "\<forall>msg \<in> set (ds_lastMessageFlight ss). queued_ok ss msg"
    and msg: "msg \<in> set (ds_lastMessageFlight ss)" "qm_type msg = ssl_ct_handshake" "sock_acked ss (queued_seq msg) = {}"
    and head: "take 6 (qm_data msg) = [t] @ be_bytes 3 (content_len msg) @ be_bytes 2 (unat seq)"
    and recv: "rx_state renv t (drop 12 (qm_data msg)) seq {} rs"
  shows "\<exists>r ss' recs. dtls_TransmitMessageFlight env ss = Some (r, ss') \<and>
    ds_sentRecords ss' = ds_sentRecords ss @ recs \<and>
    (r = Inr () \<longrightarrow>
      (\<forall>fs. (\<forall>f \<in> set fs. frag_in (drop 12 (qm_data msg)) f) \<and>
         (\<lambda>(off, l, ep, sn). wire_fragment t (drop 12 (qm_data msg)) seq off l) ` set fs =
           {p. (qm_cwSpec msg, ssl_ct_handshake, p) \<in> set recs \<and> is_fragment msg (qm_cwSpec msg, ssl_ct_handshake, p)} \<longrightarrow>
       (\<exists>as f bs rs'. fs = as @ f # bs \<and> feeds (record_kept renv t (drop 12 (qm_data msg)) seq) as rs rs' \<and>
          record_delivers renv t (drop 12 (qm_data msg)) seq f rs')))"
proof -
  let ?M = "drop 12 (qm_data msg)"
  obtain r ss' recs where T: "dtls_TransmitMessageFlight env ss = Some (r, ss')"
    "ds_sentRecords ss' = ds_sentRecords ss @ recs"
    "r = Inr () \<longrightarrow> (\<forall>msg \<in> set (ds_lastMessageFlight ss). qm_type msg = ssl_ct_handshake \<longrightarrow>
         (\<forall>i < content_len msg. i \<notin> sock_acked ss (queued_seq msg) \<longrightarrow> covered msg recs i))"
    using dtls_TransmitMessageFlight_ok [OF ok] by auto
  have mok: "message_ok msg" using ok(4) msg(1,2) by (simp add: queued_ok_def)
  note W = hs_fragment_wire [OF head mok]
  have n: "length ?M \<le> 0x1ffff" "0 < length ?M" using recv unfolding rx_state_def rx_holds_def by blast+
  then have ne: "{} \<noteq> {..<length ?M}" by (metis empty_iff lessThan_iff)
  have "\<exists>as f bs rs'. fs = as @ f # bs \<and> feeds (record_kept renv t ?M seq) as rs rs' \<and> record_delivers renv t ?M seq f rs'"
    if "r = Inr ()" and fs: "\<forall>f \<in> set fs. frag_in ?M f" and
      image: "(\<lambda>(off, l, ep, sn). wire_fragment t ?M seq off l) ` set fs =
        {p. (qm_cwSpec msg, ssl_ct_handshake, p) \<in> set recs \<and> is_fragment msg (qm_cwSpec msg, ssl_ct_handshake, p)}" for fs
  proof -
    have cover: "i \<in> (\<Union>f \<in> set fs. frag_span f)" if "i < length ?M" for i
    proof -
      have "covered msg recs i" using T(3) \<open>r = Inr ()\<close> msg that W(2) by simp
      then obtain s l where sl: "(qm_cwSpec msg, ssl_ct_handshake, hs_fragment msg s l) \<in> set recs" "s \<le> i" "i < s + l"
          "s + l \<le> length ?M" using msg(2) W(2) by (auto simp: covered_def)
      then have "hs_fragment msg s l \<in> (\<lambda>(off, l, ep, sn). wire_fragment t ?M seq off l) ` set fs"
        unfolding image using msg(2) W(2) by (auto simp: is_fragment_def)
      then obtain off l' ep sn where f: "(off, l', ep, sn) \<in> set fs" "wire_fragment t ?M seq s l = wire_fragment t ?M seq off l'"
        unfolding W(1) by auto
      then have "off + l' \<le> length ?M" using fs by fastforce
      from wire_fragment_inject [OF n(1) sl(4) this f(2)] have "i \<in> frag_span (off, l', ep, sn)" using sl(2,3) by simp
      then show ?thesis using f(1) by blast
    qed
    have "frag_span f \<subseteq> {..<length ?M}" if "f \<in> set fs" for f using fs that by (cases f) auto
    then have sub: "(\<Union>f \<in> set fs. frag_span f) \<subseteq> {..<length ?M}" by (rule UN_least)
    have "{} \<union> (\<Union>f \<in> set fs. frag_span f) = {..<length ?M}" unfolding Un_empty_left
      by (rule subset_antisym [OF sub]) (intro subsetI cover, simp)
    from reassembler.delivery [OF recv ne fs this] show ?thesis .
  qed
  then show ?thesis using T(1,2) by blast
qed

lemma fresh_sender_turn:
  "\<exists>ss'. dtls_FragmentHandshake_turn callback_env example_message 5 3 0 fresh_sender = Some (Inr (Some 3), ss') \<and>
     ds_sentRecords ss' = [(0, ssl_ct_handshake, qm_data example_message)] \<and>
     ds_pendingBuf ss' = SSL_BUFFER_EMPTY"
proof -
  have r: "dtls_NextUnackedRange fresh_sender 5 0 3 = Some (0, 3)"
    by (simp add: dtls_NextUnackedRange_def tls13_MaybeTls13_def fresh_sender_def example_socket_def dtls_UnackedLoop.simps)
  have l: "dtls_FragmentLen fresh_sender example_message 3 0 3 = 3"
    by (simp add: dtls_FragmentLen_def fresh_sender_def example_socket_def example_message_def SSL_BUFFER_EMPTY_def
        word_less_nat_alt min_def)
  have b: "dtls_BuildFragment zero_nspr example_message 3 0 3 = Inr (qm_data example_message)"
    by (simp add: dtls_BuildFragment_def example_message_def mem_read_def)
  have e: "\<exists>es. dtls13_RememberFragment zero_nspr fresh_sender (ds_dtlsSentHandshake fresh_sender) 5 0 3 ep sn = Inr es" for ep sn
    by (simp add: dtls13_RememberFragment_def PORT_ZAlloc_def zero_nspr_def MAX_SIZE_def)
  define spec where "spec = ds_specs fresh_sender 0"
  obtain es where es: "dtls13_RememberFragment zero_nspr fresh_sender (ds_dtlsSentHandshake fresh_sender) 5 0 3
      (cs_epoch spec) (cs_nextSeqNum spec) = Inr es" using e by blast
  have h: "en_nspr callback_env = zero_nspr" "qm_cwSpec example_message = 0"
    by (simp_all add: callback_env_def example_env_def example_message_def)
  have s: "\<exists>ss'. dtls_SendFragment callback_env example_message (qm_data example_message)
      (fresh_sender\<lparr>ds_dtlsSentHandshake := es\<rparr>) = Some (Inr (), ss') \<and>
     ds_sentRecords ss' = [(0, ssl_ct_handshake, qm_data example_message)] \<and> ds_pendingBuf ss' = SSL_BUFFER_EMPTY"
    by (simp add: dtls_SendFragment_def ssl3_SendRecord_def run_bind_def callback_env_def fresh_sender_def
        example_socket_def example_message_def SSL_BUFFER_EMPTY_def word_less_nat_alt)
  then show ?thesis
    by (auto simp add: dtls_FragmentHandshake_turn_def r l b h es Let_def run_bind_def spec_def [symmetric])
qed

lemma fresh_sender_run:
  "\<exists>ss'. dtls_TransmitMessageFlight callback_env fresh_sender = Some (Inr (), ss') \<and>
     ds_sentRecords ss' = [(0, ssl_ct_handshake, qm_data example_message)]"
proof -
  obtain ss1 where T: "dtls_FragmentHandshake_turn callback_env example_message 5 3 0 fresh_sender = Some (Inr (Some 3), ss1)"
      "ds_sentRecords ss1 = [(0, ssl_ct_handshake, qm_data example_message)]" "ds_pendingBuf ss1 = SSL_BUFFER_EMPTY"
    using fresh_sender_turn by blast
  have "dtls_FragmentHandshake callback_env example_message fresh_sender =
      dtls_FragmentHandshake_loop callback_env example_message 5 3 False 0 fresh_sender"
    by (simp add: dtls_FragmentHandshake_def example_message_def mem_read_def)
  also have "\<dots> = Some (Inr True, ss1)"
    using T(1) by (subst dtls_FragmentHandshake_loop.simps) simp
  finally have F: "dtls_FragmentHandshake callback_env example_message fresh_sender = Some (Inr True, ss1)" .
  let ?ss2 = "ss1\<lparr>ds_lastMessageFlight := [example_message]\<rparr>"
  have "qm_type example_message = ssl_ct_handshake" "ds_lastMessageFlight fresh_sender = [example_message]"
    by (simp_all add: example_message_def fresh_sender_def)
  then have "dtls_TransmitMessageFlight callback_env fresh_sender = dtls_SendSavedWriteData callback_env ?ss2"
    using F by (simp add: dtls_TransmitMessageFlight_def run_bind_def Let_def)
  moreover have "\<exists>ss'. dtls_SendSavedWriteData callback_env ?ss2 = Some (Inr (), ss') \<and> ds_sentRecords ss' = ds_sentRecords ss1"
    using T(3) by (simp add: dtls_SendSavedWriteData_def ssl_SendSavedWriteData_def SSL_BUFFER_EMPTY_def)
  ultimately show ?thesis using T(2) by auto
qed

theorem dtls_flight_delivered_witness:
  "\<exists>ss' rs'. dtls_TransmitMessageFlight callback_env fresh_sender = Some (Inr (), ss') \<and>
     ds_sentRecords ss' = [(0, ssl_ct_handshake, wire_fragment 2 [0xa, 0xb, 0xc] 5 0 3)] \<and>
     record_delivers example_env 2 [0xa, 0xb, 0xc] 5 (0, 3, 0, 9) rs'"
proof -
  have M: "drop 12 (qm_data example_message) = example_body" and cl: "content_len example_message = 3"
    and head: "take 6 (qm_data example_message) =
      [2] @ be_bytes 3 (content_len example_message) @ be_bytes 2 (unat (5 :: u16))"
    by (simp_all add: example_message_def example_body_def content_len_def be_bytes_numeral)
  have mok: "message_ok example_message" "qm_type example_message = ssl_ct_handshake" "qm_cwSpec example_message = 0"
    by (simp_all add: message_ok_def content_len_def example_message_def be_bytes_numeral)
  have wire: "wire_fragment 2 example_body 5 0 3 = qm_data example_message"
    by (simp add: wire_fragment_def example_body_def example_message_def be_bytes_numeral)
  have tx: "tx_ok callback_env fresh_sender"
    using example_env_tx_ok [of fresh_sender]
    by (simp add: tx_ok_def callback_env_def fresh_sender_def example_socket_def sslBuffer_inv_SSL_BUFFER_EMPTY)
  have pre: "sb_len (ds_pendingBuf fresh_sender) = 0" "entries_ok (ds_dtlsSentHandshake fresh_sender)"
      "\<forall>msg \<in> set (ds_lastMessageFlight fresh_sender). queued_ok fresh_sender msg"
      "example_message \<in> set (ds_lastMessageFlight fresh_sender)"
    using mok by (simp_all add: fresh_sender_def example_socket_def entries_ok_def queued_ok_def spec_sendable_def
        gcm_spec_def ssl3BulkCipherDef.make_def SSL_BUFFER_EMPTY_def)
  have acked: "sock_acked fresh_sender (queued_seq example_message) = {}"
    by (simp add: sock_acked_def fresh_sender_def example_socket_def)
  obtain ss' where run: "dtls_TransmitMessageFlight callback_env fresh_sender = Some (Inr (), ss')"
      "ds_sentRecords ss' = [(0, ssl_ct_handshake, qm_data example_message)]" using fresh_sender_run by blast
  have recs: "recs = [(0, ssl_ct_handshake, qm_data example_message)]" if "ds_sentRecords ss' = ds_sentRecords fresh_sender @ recs" for recs
    using that run(2) by (simp add: fresh_sender_def example_socket_def)
  have "is_fragment example_message (0, ssl_ct_handshake, qm_data example_message)"
    using mok cl hs_fragment_wire(1) [OF head mok(1), of 0 3] wire unfolding M is_fragment_def
    by (intro exI [of _ 0] exI [of _ 3]) simp
  then have sent: "(\<lambda>(off, l, ep, sn). wire_fragment 2 example_body 5 off l) ` set [(0, 3, 0, 9)] =
      {p. (0, ssl_ct_handshake, p) \<in> set [(0, ssl_ct_handshake, qm_data example_message)] \<and>
          is_fragment example_message (0, ssl_ct_handshake, p)}" using wire by auto
  have fin: "\<forall>f \<in> set [(0, 3, 0, 9)]. frag_in example_body f" by (simp add: example_body_def)
  obtain r ss2 recs2 where D: "dtls_TransmitMessageFlight callback_env fresh_sender = Some (r, ss2)"
      "ds_sentRecords ss2 = ds_sentRecords fresh_sender @ recs2"
      "r = Inr () \<longrightarrow> (\<forall>fs. (\<forall>f \<in> set fs. frag_in example_body f) \<and>
         (\<lambda>(off, l, ep, sn). wire_fragment 2 example_body 5 off l) ` set fs =
           {p. (0, ssl_ct_handshake, p) \<in> set recs2 \<and> is_fragment example_message (0, ssl_ct_handshake, p)} \<longrightarrow>
       (\<exists>as f bs rs'. fs = as @ f # bs \<and> feeds (record_kept example_env 2 example_body 5) as waiting_receiver rs' \<and>
          record_delivers example_env 2 example_body 5 f rs'))"
    using dtls_flight_delivered [OF tx pre(1-4) mok(2) acked head waiting_receiver_state [folded M], unfolded M mok(3)]
    by (elim exE conjE) (rule that)
  have r: "r = Inr ()" and ss2: "ss2 = ss'" using D(1) run(1) by simp_all
  note D3 = mp [OF spec [OF mp [OF D(3) r], of "[(0, 3, 0, 9)]"], unfolded recs [OF D(2) [unfolded ss2]], OF conjI [OF fin sent]]
  from D3 obtain as f bs rs' where d: "[(0, 3, 0, 9)] = as @ f # bs" "record_delivers example_env 2 example_body 5 f rs'"
    by (elim exE conjE) (rule that)
  have "f = (0, 3, 0, 9)" using d(1) by (cases as) simp_all
  then show ?thesis using run d(2) wire unfolding example_body_def by (intro exI [of _ ss'] exI [of _ rs']) simp
qed

end
